(* ===== verification/AP_Prelude.thy ===== *)
theory AP_Prelude
  imports Main "HOL-Library.AList" "HOL-Library.Multiset" "HOL-Library.Word"
    "HOL-Library.List_Lexorder" "HOL-Library.Char_ord" "HOL-Library.Signed_Division"
    "HOL-Library.Sublist"
begin

text \<open>
  Shared vocabulary of the development. A Go map is an association list
  (\<open>gomap\<close>): its list order is the order in which the runtime happens to enumerate it,
  and its keys are distinct (\<open>gomap_wf\<close>). A \<open>range\<close> statement over a map that the code
  has built itself goes through a \<open>ranger\<close>, an arbitrary reordering of the entries, because
  the Go runtime fixes no order. A nil map and an empty map are both \<open>[]\<close>; the code only
  reads maps that may be nil, and reading them is the same. A dereference of a nil pointer is
  the value \<open>Inl NilDeref\<close> of \<open>go_panic + 'a\<close>.
\<close>

section \<open>Collections of facts\<close>

named_theorems gomap_simps \<open>lookups, keys and well-formedness of association-list maps\<close>

section \<open>Panics\<close>

datatype go_panic = NilDeref

section \<open>Go maps\<close>

type_synonym ('k, 'v) gomap = "('k \<times> 'v) list"

abbreviation keys :: "('k, 'v) gomap \<Rightarrow> 'k list" where
  "keys m \<equiv> map fst m"

abbreviation gomap_wf :: "('k, 'v) gomap \<Rightarrow> bool" where
  "gomap_wf m \<equiv> distinct (keys m)"

type_synonym ('k, 'v) ranger = "('k, 'v) gomap \<Rightarrow> ('k, 'v) gomap"

definition go_range :: "('k, 'v) ranger \<Rightarrow> bool" where
  "go_range rng \<longleftrightarrow> (\<forall>m. mset (rng m) = mset m)"

lemma go_range_id [simp]: "go_range (\<lambda>m. m)"
  by (simp add: go_range_def)

lemma go_range_rev [simp]: "go_range rev"
  by (simp add: go_range_def)

lemma go_rangeD:
  assumes "go_range rng"
  shows "mset (rng m) = mset m" "set (rng m) = set m" "length (rng m) = length m"
proof -
  show "mset (rng m) = mset m" using assms by (simp add: go_range_def)
  then show "set (rng m) = set m" "length (rng m) = length m"
    by (rule mset_eq_setD, rule mset_eq_length)
qed

lemma go_range_filter: "go_range rng \<Longrightarrow> length (filter P (rng m)) = length (filter P m)"
  by (metis go_rangeD(1) mset_filter size_mset)

lemma go_range_wf: "go_range rng \<Longrightarrow> gomap_wf (rng m) = gomap_wf m"
  by (metis go_rangeD(1) mset_map mset_eq_imp_distinct_iff)

lemma map_of_update [gomap_simps]: "map_of (AList.update k v m) = (map_of m)(k \<mapsto> v)"
  by (rule update_conv')

lemma map_of_delete [gomap_simps]: "map_of (AList.delete k m) = (map_of m)(k := None)"
  by (rule delete_conv')

lemma keys_delete [gomap_simps]: "set (keys (AList.delete k m)) = set (keys m) - {k}"
  by (auto simp: AList.delete_eq)

lemma keys_update [gomap_simps]: "set (keys (AList.update k v m)) = insert k (set (keys m))"
  by (induction m) auto

lemma wf_update: "gomap_wf m \<Longrightarrow> gomap_wf (AList.update k v m)"
  by (rule distinct_update)

lemma wf_delete: "gomap_wf m \<Longrightarrow> gomap_wf (AList.delete k m)"
  by (rule distinct_delete)

lemma keys_map_entry [gomap_simps]: "keys (AList.map_entry k f m) = keys m"
  by (induction m) auto

lemma map_of_map_entry [gomap_simps]:
  "map_of (AList.map_entry k f m) k' =
     (if k' = k then map_option f (map_of m k) else map_of m k')"
  by (induction m) auto

lemma in_keys_iff: "k \<in> fst ` set m \<longleftrightarrow> map_of m k \<noteq> None"
  by (metis map_of_eq_None_iff)

lemma map_of_mem: "gomap_wf m \<Longrightarrow> (k, v) \<in> set m \<longleftrightarrow> map_of m k = Some v"
  by (auto intro: map_of_is_SomeI dest: map_of_SomeD)

section \<open>Lists\<close>

lemma subseq_filter_mem: "subseq (filter P xs) xs"
  by (rule subseq_filter_left)

lemma distinct_same_mset_set:
  "distinct xs \<Longrightarrow> mset xs = mset ys \<Longrightarrow> distinct ys \<and> set ys = set xs"
  by (metis mset_eq_imp_distinct_iff mset_eq_setD)

lemma distinct_eq_mset: "distinct xs \<Longrightarrow> distinct ys \<Longrightarrow> set xs = set ys \<Longrightarrow> mset xs = mset ys"
  by (simp add: set_eq_iff_mset_eq_distinct)

end
