(* ===== verification/AP_Sort.thy ===== *)
theory AP_Sort
  imports AP_Prelude
begin

text \<open>
  \<open>sort.Slice\<close>. The library sorts slices of up to twelve elements by the insertion sort
  below (\<open>insertionSort_func\<close>): each element is swapped backwards while the comparator says
  it is less than its left neighbour. Longer slices go through another algorithm; the locale
  \<open>total_less\<close> shows that for a comparator that is a strict total order the result is the only
  sorted permutation, whatever the algorithm. The comparator of \<open>SortServers\<close> can dereference
  a nil pointer, so the sort runs in the sum type of panics.
\<close>

section \<open>The algorithm\<close>

type_synonym 'a less_fn = "'a \<Rightarrow> 'a \<Rightarrow> go_panic + bool"

text \<open>The prefix sorted so far is kept in reverse, its last element first.\<close>

fun insert_back :: "'a less_fn \<Rightarrow> 'a \<Rightarrow> 'a list \<Rightarrow> go_panic + 'a list" where
  "insert_back lt x [] = Inr [x]"
| "insert_back lt x (y # ys) =
     (case lt x y of
        Inl p \<Rightarrow> Inl p
      | Inr b \<Rightarrow>
          (if b then (case insert_back lt x ys of Inl p \<Rightarrow> Inl p | Inr zs \<Rightarrow> Inr (y # zs))
           else Inr (x # y # ys)))"

fun sort_loop :: "'a less_fn \<Rightarrow> 'a list \<Rightarrow> 'a list \<Rightarrow> go_panic + 'a list" where
  "sort_loop lt rp [] = Inr (rev rp)"
| "sort_loop lt rp (x # xs) =
     (case insert_back lt x rp of Inl p \<Rightarrow> Inl p | Inr rp' \<Rightarrow> sort_loop lt rp' xs)"

definition sort_slice :: "'a less_fn \<Rightarrow> 'a list \<Rightarrow> go_panic + 'a list" where
  "sort_slice lt xs = sort_loop lt [] xs"

section \<open>The same algorithm for a comparator that cannot panic\<close>

fun insert_pure :: "('a \<Rightarrow> 'a \<Rightarrow> bool) \<Rightarrow> 'a \<Rightarrow> 'a list \<Rightarrow> 'a list" where
  "insert_pure lt x [] = [x]"
| "insert_pure lt x (y # ys) = (if lt x y then y # insert_pure lt x ys else x # y # ys)"

fun loop_pure :: "('a \<Rightarrow> 'a \<Rightarrow> bool) \<Rightarrow> 'a list \<Rightarrow> 'a list \<Rightarrow> 'a list" where
  "loop_pure lt rp [] = rev rp"
| "loop_pure lt rp (x # xs) = loop_pure lt (insert_pure lt x rp) xs"

definition sort_pure :: "('a \<Rightarrow> 'a \<Rightarrow> bool) \<Rightarrow> 'a list \<Rightarrow> 'a list" where
  "sort_pure lt xs = loop_pure lt [] xs"

lemma mset_insert_pure [simp]: "mset (insert_pure lt x ys) = add_mset x (mset ys)"
  by (induction ys) auto

lemma set_insert_pure [simp]: "set (insert_pure lt x ys) = insert x (set ys)"
  by (induction ys) auto

lemma mset_loop_pure: "mset (loop_pure lt rp xs) = mset rp + mset xs"
  by (induction xs arbitrary: rp) auto

lemma mset_sort_pure [simp]: "mset (sort_pure lt xs) = mset xs"
  by (simp add: sort_pure_def mset_loop_pure)

lemma set_sort_pure [simp]: "set (sort_pure lt xs) = set xs"
  by (rule mset_eq_setD) simp

lemma distinct_sort_pure [simp]: "distinct (sort_pure lt xs) = distinct xs"
  by (rule mset_eq_imp_distinct_iff) simp

lemma length_sort_pure [simp]: "length (sort_pure lt xs) = length xs"
  by (rule mset_eq_length) simp

lemma insert_back_pure:
  "(\<And>y. y \<in> set ys \<Longrightarrow> ltM x y = Inr (lt x y)) \<Longrightarrow>
   insert_back ltM x ys = Inr (insert_pure lt x ys)"
  by (induction ys) auto

lemma sort_loop_pure:
  "distinct (rp @ xs) \<Longrightarrow>
   (\<And>x y. x \<in> set (rp @ xs) \<Longrightarrow> y \<in> set (rp @ xs) \<Longrightarrow> x \<noteq> y \<Longrightarrow> ltM x y = Inr (lt x y)) \<Longrightarrow>
   sort_loop ltM rp xs = Inr (loop_pure lt rp xs)"
proof (induction xs arbitrary: rp)
  case (Cons x xs)
  have "insert_back ltM x rp = Inr (insert_pure lt x rp)"
    by (rule insert_back_pure) (use Cons.prems in auto)
  moreover have "sort_loop ltM (insert_pure lt x rp) xs =
      Inr (loop_pure lt (insert_pure lt x rp) xs)"
  proof (rule Cons.IH)
    have "mset (insert_pure lt x rp @ xs) = mset (rp @ x # xs)" by simp
    then show "distinct (insert_pure lt x rp @ xs)"
      using Cons.prems(1) mset_eq_imp_distinct_iff by metis
  qed (use Cons.prems(2) in auto)
  ultimately show ?case by simp
qed simp

text \<open>On distinct elements the sort needs the comparator on pairs of different elements only.\<close>

lemma sort_slice_pure:
  assumes "distinct xs"
    and "\<And>x y. x \<in> set xs \<Longrightarrow> y \<in> set xs \<Longrightarrow> x \<noteq> y \<Longrightarrow> ltM x y = Inr (lt x y)"
  shows "sort_slice ltM xs = Inr (sort_pure lt xs)"
  using sort_loop_pure [of "[]" xs ltM lt] assms by (simp add: sort_slice_def sort_pure_def)

section \<open>Contract of a comparator: strict weak order\<close>

locale less_order =
  fixes lt :: "'a \<Rightarrow> 'a \<Rightarrow> bool"
  assumes asym: "lt x y \<Longrightarrow> \<not> lt y x"
    and neg_trans: "\<not> lt x y \<Longrightarrow> \<not> lt y z \<Longrightarrow> \<not> lt x z"
begin

lemma insert_sorted:
  "sorted_wrt (\<lambda>a b. \<not> lt a b) ys \<Longrightarrow> sorted_wrt (\<lambda>a b. \<not> lt a b) (insert_pure lt x ys)"
  by (induction ys) (auto dest: asym neg_trans)

lemma loop_sorted:
  "sorted_wrt (\<lambda>a b. \<not> lt a b) rp \<Longrightarrow> sorted_wrt (\<lambda>a b. \<not> lt b a) (loop_pure lt rp xs)"
  by (induction xs arbitrary: rp) (auto simp: sorted_wrt_rev insert_sorted)

lemma sort_sorted: "sorted_wrt (\<lambda>a b. \<not> lt b a) (sort_pure lt xs)"
  by (simp add: sort_pure_def loop_sorted)

end

section \<open>Contract of a comparator: strict total order\<close>

locale total_less = less_order +
  assumes total: "x \<noteq> y \<Longrightarrow> lt x y \<or> lt y x"
begin

lemma not_less_antisym: "\<not> lt x y \<Longrightarrow> \<not> lt y x \<Longrightarrow> x = y"
  using total by blast

lemma sorted_strict:
  "sorted_wrt (\<lambda>a b. \<not> lt b a) xs \<Longrightarrow> distinct xs \<Longrightarrow> sorted_wrt lt xs"
proof (induction xs)
  case (Cons x xs)
  then have "lt x y" if "y \<in> set xs" for y
    using that total [of x y] by auto
  with Cons show ?case by simp
qed simp

lemma sort_strict: "distinct xs \<Longrightarrow> sorted_wrt lt (sort_pure lt xs)"
  by (rule sorted_strict) (simp_all add: sort_sorted)

lemma sorted_unique:
  "mset xs = mset ys \<Longrightarrow> sorted_wrt (\<lambda>a b. \<not> lt b a) xs \<Longrightarrow>
   sorted_wrt (\<lambda>a b. \<not> lt b a) ys \<Longrightarrow> xs = ys"
proof (induction xs arbitrary: ys)
  case (Cons x xs)
  from Cons.prems(1) obtain y ys' where ys: "ys = y # ys'" by (cases ys) auto
  have "x = y"
  proof (rule ccontr)
    assume ne: "x \<noteq> y"
    with Cons.prems(1) ys have "x \<in> set ys'" "y \<in> set xs"
      by (metis list.set_intros(1) mset_eq_setD set_ConsD)+
    with Cons.prems(2,3) ys not_less_antisym ne show False by auto
  qed
  with Cons ys show ?case by simp
qed simp

lemma sort_any_order: "mset xs = mset ys \<Longrightarrow> sort_pure lt xs = sort_pure lt ys"
  by (rule sorted_unique) (simp_all add: sort_sorted)

text \<open>Any algorithm that returns a sorted permutation returns this list.\<close>

lemma sort_only_result:
  "mset ys = mset xs \<Longrightarrow> sorted_wrt (\<lambda>a b. \<not> lt b a) ys \<Longrightarrow> ys = sort_pure lt xs"
  by (rule sorted_unique) (simp_all add: sort_sorted)

end

section \<open>Go's order on strings\<close>

interpretation str: total_less "(<) :: string \<Rightarrow> string \<Rightarrow> bool"
  by unfold_locales auto

text \<open>A comparator that compares keys is a strict weak order (used for servers by ID).\<close>

interpretation keyed: less_order "\<lambda>a b. f a < f b" for f :: "'a \<Rightarrow> 'b::linorder"
  by unfold_locales auto

lemma keyed_sort_unique:
  fixes f :: "'a \<Rightarrow> 'b::linorder"
  assumes "mset xs = mset ys" "distinct (map f xs)"
  shows "sort_pure (\<lambda>a b. f a < f b) xs = sort_pure (\<lambda>a b. f a < f b) ys"
proof (rule map_sorted_distinct_set_unique [where f = f])
  let ?s = "sort_pure (\<lambda>a b. f a < f b)"
  have sorted: "sorted (map f (?s zs))" for zs
    using keyed.sort_sorted [where f = f and xs = zs] by (simp add: sorted_map not_less)
  show "sorted (map f (?s xs))" "sorted (map f (?s ys))" by (fact sorted)+
  have "distinct (map f zs) = distinct (map f xs)" if "mset zs = mset xs" for zs
    using that by (metis mset_eq_imp_distinct_iff mset_map)
  then show "distinct (map f (?s xs))" "distinct (map f (?s ys))"
    using assms by simp_all
  show "inj_on f (set (?s xs) \<union> set (?s ys))"
    using assms mset_eq_setD [OF assms(1)] by (simp add: distinct_map)
  show "set (?s xs) = set (?s ys)"
    using mset_eq_setD [OF assms(1)] by simp
qed

end
