(* ===== verification/AP_GoStd.thy ===== *)
theory AP_GoStd
  imports AP_Prelude
begin

text \<open>
  The part of Go's standard library that the program computes with: fixed-width integers,
  \<open>time.Time\<close> and \<open>time.Duration\<close>, truncating division, and \<open>strconv.ParseUint\<close> in base 10
  at 64 bits (called by \<open>lastTerm\<close> in raft.go). A \<open>uint64\<close> (and the platform's \<open>uint\<close>) is a
  \<open>64 word\<close>, whose addition wraps. A Go \<open>int\<close> that counts servers is an \<open>int\<close>. A \<open>Duration\<close>
  is an \<open>int\<close> of nanoseconds, and \<open>Time.Sub\<close> clamps its result to the 64-bit range as the
  library documents. A \<open>Time\<close> is an \<open>int\<close> of nanoseconds since the zero time.
\<close>

section \<open>Integers\<close>

type_synonym uint64 = "64 word"

text \<open>The conversion \<open>int(x)\<close> of a \<open>uint\<close>: the bits are reinterpreted as two's complement.\<close>

definition int_of_uint :: "uint64 \<Rightarrow> int" where
  "int_of_uint w = sint w"

lemma int_of_uint_small:
  assumes "unat w < 2 ^ 63"
  shows "int_of_uint w = int (unat w)"
proof -
  have "int (unat w) < 2 ^ 63"
    using assms by (metis of_nat_less_iff of_nat_numeral of_nat_power)
  then have "uint w < 2 ^ 63" by simp
  moreover have "- (2 ^ 63) \<le> uint w"
    by (rule order_trans [of _ 0]) simp_all
  ultimately have "signed_take_bit 63 (uint w) = uint w"
    by (rule signed_take_bit_int_eq_self [rotated])
  then show ?thesis by (simp add: int_of_uint_def sint_uint)
qed

text \<open>Go's integer division truncates towards zero.\<close>

abbreviation go_div :: "int \<Rightarrow> int \<Rightarrow> int" where
  "go_div a b \<equiv> a sdiv b"

lemma go_div_two: "0 \<le> n \<Longrightarrow> go_div n 2 = n div 2"
  by (simp add: signed_divide_int_def sgn_if)

lemma go_div_minus_one: "go_div (- 1) 2 = 0"
  by (simp add: signed_divide_int_def)

section \<open>Time\<close>

type_synonym Time = int
type_synonym Duration = int

definition maxDuration :: Duration where
  "maxDuration = 2 ^ 63 - 1"

definition minDuration :: Duration where
  "minDuration = - (2 ^ 63)"

definition time_Sub :: "Time \<Rightarrow> Time \<Rightarrow> Duration" where
  "time_Sub t u =
     (let d = t - u
      in if maxDuration < d then maxDuration else if d < minDuration then minDuration else d)"

definition time_Add :: "Time \<Rightarrow> Duration \<Rightarrow> Time" where
  "time_Add t d = t + d"

definition time_Before :: "Time \<Rightarrow> Time \<Rightarrow> bool" where
  "time_Before t u \<longleftrightarrow> t < u"

definition time_IsZero :: "Time \<Rightarrow> bool" where
  "time_IsZero t \<longleftrightarrow> t = 0"

text \<open>Clamping does not disturb a comparison with a representable bound.\<close>

lemma time_Sub_less_iff:
  assumes "minDuration < d" "d \<le> maxDuration"
  shows "time_Sub t u < d \<longleftrightarrow> t - u < d"
  using assms by (auto simp: time_Sub_def Let_def maxDuration_def minDuration_def)

lemma time_Sub_greater_iff:
  assumes "minDuration \<le> d" "d < maxDuration"
  shows "d < time_Sub t u \<longleftrightarrow> d < t - u"
  using assms by (auto simp: time_Sub_def Let_def maxDuration_def minDuration_def)

section \<open>strconv.ParseUint, base 10, 64 bits\<close>

datatype parse_err = ErrSyntax | ErrRange

definition is_digit :: "char \<Rightarrow> bool" where
  "is_digit c \<longleftrightarrow> 48 \<le> (of_char c :: nat) \<and> (of_char c :: nat) \<le> 57"

definition digit_val :: "char \<Rightarrow> nat" where
  "digit_val c = of_char c - 48"

text \<open>
  The library's loop: a byte that is no digit is a syntax error; an accumulator that has
  reached the cutoff, or a sum that wrapped, is a range error.
\<close>

definition cutoff :: uint64 where
  "cutoff = 1844674407370955162"

fun parse_loop :: "uint64 \<Rightarrow> string \<Rightarrow> parse_err + uint64" where
  "parse_loop n [] = Inr n"
| "parse_loop n (c # cs) =
     (if \<not> is_digit c then Inl ErrSyntax
      else if cutoff \<le> n then Inl ErrRange
      else let m = n * 10; n1 = m + of_nat (digit_val c)
           in if n1 < m then Inl ErrRange else parse_loop n1 cs)"

definition ParseUint :: "string \<Rightarrow> parse_err + uint64" where
  "ParseUint s = (if s = [] then Inl ErrSyntax else parse_loop 0 s)"

text \<open>The number a digit string denotes.\<close>

fun decimal :: "nat \<Rightarrow> string \<Rightarrow> nat" where
  "decimal n [] = n"
| "decimal n (c # cs) = decimal (n * 10 + digit_val c) cs"

lemma decimal_mono: "n \<le> decimal n s"
proof (induction s arbitrary: n)
  case (Cons c cs)
  have "n \<le> n * 10 + digit_val c" by simp
  also have "\<dots> \<le> decimal (n * 10 + digit_val c) cs" by (rule Cons.IH)
  finally show ?case by simp
qed simp

lemma digit_val_bound: "is_digit c \<Longrightarrow> digit_val c < 10"
  unfolding is_digit_def digit_val_def by arith

lemma unat_times10:
  fixes n :: uint64
  assumes "\<not> cutoff \<le> n"
  shows "unat (n * 10) = unat n * 10"
proof -
  have "unat n < 1844674407370955162"
    using assms by (simp add: cutoff_def word_le_nat_alt)
  then show ?thesis by (simp add: unat_word_ariths)
qed

lemma sum_wraps_iff:
  fixes m :: uint64
  assumes "d < 10"
  shows "m + of_nat d < m \<longleftrightarrow> 2 ^ 64 \<le> unat m + d"
proof -
  have d: "unat (of_nat d :: uint64) = d"
    using assms by (simp add: unat_of_nat)
  have "unat (m + of_nat d) = (unat m + d) mod 2 ^ 64"
    by (simp add: unat_word_ariths d)
  moreover have "unat m < 2 ^ 64" using unsigned_less [of m, where ?'a = nat] by simp
  ultimately show ?thesis
    using assms by (cases "unat m + d < 2 ^ 64") (simp_all add: word_less_nat_alt le_mod_geq)
qed

lemma unat_add_digit:
  fixes m :: uint64
  assumes "d < 10" "\<not> m + of_nat d < m"
  shows "unat (m + of_nat d) = unat m + d"
proof -
  have "unat (of_nat d :: uint64) = d"
    using assms(1) by (simp add: unat_of_nat)
  moreover have "unat m + d < 2 ^ 64"
    using sum_wraps_iff [OF assms(1), of m] assms(2) by simp
  ultimately show ?thesis by (simp add: unat_word_ariths)
qed

lemma cutoff_overflow: "cutoff \<le> n \<Longrightarrow> 2 ^ 64 \<le> unat n * 10"
  by (simp add: cutoff_def word_le_nat_alt)

lemma parse_loop_Inr:
  "parse_loop n s = Inr v \<longleftrightarrow>
     (\<forall>c \<in> set s. is_digit c) \<and> decimal (unat n) s < 2 ^ 64 \<and> unat v = decimal (unat n) s"
proof (induction s arbitrary: n)
  case Nil
  show ?case using unsigned_less [of n, where ?'a = nat] by (auto simp: word_unat_eq_iff)
next
  case (Cons c cs)
  let ?d = "digit_val c" and ?m = "n * 10"
  let ?k = "decimal (unat n * 10 + ?d) cs"
  have big: ?case if ov: "2 ^ 64 \<le> unat n * 10 + ?d" and er: "\<exists>e. parse_loop n (c # cs) = Inl e"
  proof -
    have "unat n * 10 + ?d \<le> ?k" by (rule decimal_mono)
    with ov have "\<not> ?k < 2 ^ 64" by linarith
    with er show ?thesis by auto
  qed
  consider (nodigit) "\<not> is_digit c" | (cut) "is_digit c" "cutoff \<le> n"
    | (wrap) "is_digit c" "\<not> cutoff \<le> n" "?m + of_nat ?d < ?m"
    | (ok) "is_digit c" "\<not> cutoff \<le> n" "\<not> ?m + of_nat ?d < ?m" by blast
  then show ?case
  proof cases
    case nodigit
    then show ?thesis by simp
  next
    case cut
    from cutoff_overflow [OF cut(2)] have "2 ^ 64 \<le> unat n * 10 + ?d" by linarith
    then show ?thesis by (rule big) (simp add: cut)
  next
    case wrap
    then have "2 ^ 64 \<le> unat n * 10 + ?d"
      using sum_wraps_iff [OF digit_val_bound] unat_times10 by metis
    then show ?thesis by (rule big) (simp add: wrap Let_def)
  next
    case ok
    have "unat (?m + of_nat ?d) = unat n * 10 + ?d"
      using unat_add_digit [OF digit_val_bound] unat_times10 ok by metis
    then show ?thesis using ok Cons.IH by (simp add: Let_def)
  qed
qed

lemma ParseUint_Inr:
  "ParseUint s = Inr v \<longleftrightarrow>
     s \<noteq> [] \<and> (\<forall>c \<in> set s. is_digit c) \<and> decimal 0 s < 2 ^ 64 \<and> unat v = decimal 0 s"
  using parse_loop_Inr [of 0 s v] by (auto simp: ParseUint_def)

text \<open>The decimal notation of a number, as \<open>strconv.FormatUint\<close> writes it.\<close>

definition digit_char :: "nat \<Rightarrow> char" where
  "digit_char d = char_of (48 + d)"

fun FormatUint :: "nat \<Rightarrow> string" where
  "FormatUint n = (if n < 10 then [digit_char n] else FormatUint (n div 10) @ [digit_char (n mod 10)])"

declare FormatUint.simps [simp del]

lemma digit_char_val: "d < 10 \<Longrightarrow> is_digit (digit_char d) \<and> digit_val (digit_char d) = d"
  by (simp add: digit_char_def is_digit_def digit_val_def)

lemma decimal_snoc: "decimal n (s @ [c]) = decimal n s * 10 + digit_val c"
  by (induction n s rule: decimal.induct) simp_all

lemma FormatUint_digits: "FormatUint n \<noteq> [] \<and> (\<forall>c \<in> set (FormatUint n). is_digit c)"
proof (induction n rule: FormatUint.induct)
  case (1 n)
  then show ?case
    by (cases "n < 10") (simp_all add: FormatUint.simps [of n] digit_char_val)
qed

lemma decimal_FormatUint: "decimal 0 (FormatUint n) = n"
proof (induction n rule: FormatUint.induct)
  case (1 n)
  show ?case
  proof (cases "n < 10")
    case True
    then show ?thesis by (simp add: FormatUint.simps [of n] digit_char_val)
  next
    case False
    have "decimal 0 (FormatUint n) = decimal 0 (FormatUint (n div 10)) * 10 + n mod 10"
      using False by (simp add: FormatUint.simps [of n] decimal_snoc digit_char_val)
    also have "\<dots> = n" using 1 False by simp
    finally show ?thesis .
  qed
qed

lemma ParseUint_FormatUint: "n < 2 ^ 64 \<Longrightarrow> ParseUint (FormatUint n) = Inr (of_nat n)"
  using FormatUint_digits [of n]
  by (simp add: ParseUint_Inr decimal_FormatUint unat_of_nat)

end
