(* ===== verification/AP_Types.thy ===== *)
theory AP_Types
  imports AP_GoStd
begin

text \<open>
  The data of types.go and the methods that look at one value of it: \<open>RaftState\<close>,
  \<open>NodeStatus\<close>, \<open>NodeType\<close>, \<open>Config\<close>, \<open>Server\<close>, \<open>ServerState\<close>, \<open>ServerHealth\<close>,
  \<open>ServerStats\<close>, \<open>State\<close>, \<open>RaftChanges\<close>, \<open>FailedServers\<close>. Record fields carry a short
  prefix in front of the source's name. The string-valued enumerations are datatypes; where a
  value comes from the application, a constructor \<open>\<dots>Other\<close> stands for every string that is
  none of the named constants (the empty string included). \<open>Ext\<close> fields hold values of the
  uninterpreted type \<open>ext\<close>: the code copies them and compares them with nil only.
  The types \<open>Suffrage\<close>, \<open>raft_Server\<close> and \<open>raft_Configuration\<close> mirror what the code reads of
  the hashicorp/raft package.
\<close>

section \<open>Names from the raft package\<close>

type_synonym ServerID = string
type_synonym ServerAddress = string

datatype Suffrage = raft_Voter | raft_Nonvoter | raft_Staging | raft_SuffrageOther int

record raft_Server =
  rs_Suffrage :: Suffrage
  rs_ID :: ServerID
  rs_Address :: ServerAddress

record raft_Configuration =
  rc_Servers :: "raft_Server list"

section \<open>Enumerations\<close>

datatype RaftState = RaftNone | RaftLeader | RaftVoter | RaftNonVoter | RaftStaging

fun RaftState_IsPotentialVoter :: "RaftState \<Rightarrow> bool" where
  "RaftState_IsPotentialVoter RaftVoter = True"
| "RaftState_IsPotentialVoter RaftStaging = True"
| "RaftState_IsPotentialVoter RaftLeader = True"
| "RaftState_IsPotentialVoter _ = False"

datatype NodeStatus = NodeUnknown | NodeAlive | NodeFailed | NodeLeft | NodeStatusOther string

datatype NodeType = NodeVoter | NodeTypeOther string

typedecl ext

section \<open>Configuration and servers\<close>

record Config =
  cfg_CleanupDeadServers :: bool
  cfg_LastContactThreshold :: Duration
  cfg_MaxTrailingLogs :: uint64
  cfg_MinQuorum :: uint64
  cfg_ServerStabilizationTime :: Duration
  cfg_Ext :: "ext option"

record Server =
  srv_ID :: ServerID
  srv_Name :: string
  srv_Address :: ServerAddress
  srv_NodeStatus :: NodeStatus
  srv_Version :: string
  srv_Meta :: "(string, string) gomap"
  srv_RaftVersion :: int
  srv_IsLeader :: bool
  srv_NodeType :: NodeType
  srv_Ext :: "ext option"

record ServerStats =
  stat_LastContact :: Duration
  stat_LastTerm :: uint64
  stat_LastIndex :: uint64

record ServerHealth =
  sh_Healthy :: bool
  sh_StableSince :: Time

record ServerState =
  ss_Server :: Server
  ss_State :: RaftState
  ss_Stats :: ServerStats
  ss_Health :: ServerHealth

definition HasVotingRights :: "ServerState \<Rightarrow> bool" where
  "HasVotingRights s \<longleftrightarrow> ss_State s = RaftVoter \<or> ss_State s = RaftLeader"

definition isHealthy :: "ServerState \<Rightarrow> uint64 \<Rightarrow> uint64 \<Rightarrow> Config \<Rightarrow> bool" where
  "isHealthy s lastTerm leaderLastIndex conf =
     (if leaderLastIndex = 0 \<or> lastTerm = 0 then False
      else if srv_NodeStatus (ss_Server s) \<noteq> NodeAlive then False
      else if cfg_LastContactThreshold conf < stat_LastContact (ss_Stats s) \<or>
              stat_LastContact (ss_Stats s) < 0 then False
      else if stat_LastTerm (ss_Stats s) \<noteq> lastTerm then False
      else if stat_LastIndex (ss_Stats s) + cfg_MaxTrailingLogs conf < leaderLastIndex then False
      else True)"

text \<open>The receiver of \<open>IsStable\<close> is a pointer that may be nil.\<close>

definition IsStable :: "ServerHealth option \<Rightarrow> Time \<Rightarrow> Duration \<Rightarrow> bool" where
  "IsStable hp now minStableDuration =
     (case hp of
        None \<Rightarrow> False
      | Some h \<Rightarrow>
          if \<not> sh_Healthy h then False
          else if time_Sub now (sh_StableSince h) < minStableDuration then False
          else True)"

section \<open>State\<close>

record State =
  st_firstStateTime :: Time
  st_Healthy :: bool
  st_FailureTolerance :: int
  st_Servers :: "(ServerID, ServerState) gomap"
  st_Leader :: ServerID
  st_Voters :: "ServerID list"
  st_Ext :: "ext option"

text \<open>The zero value \<open>State{}\<close>.\<close>

definition zero_State :: State where
  "zero_State = \<lparr>st_firstStateTime = 0, st_Healthy = False, st_FailureTolerance = 0,
     st_Servers = [], st_Leader = '''', st_Voters = [], st_Ext = None\<rparr>"

text \<open>\<open>now\<close> is the clock reading that \<open>time.Since\<close> takes.\<close>

definition ServerStabilizationTime :: "Time \<Rightarrow> State \<Rightarrow> Config \<Rightarrow> Duration" where
  "ServerStabilizationTime now s c =
     (if cfg_ServerStabilizationTime c < time_Sub now (st_firstStateTime s)
      then cfg_ServerStabilizationTime c else 0)"

record RaftChanges =
  ch_Promotions :: "ServerID list"
  ch_Demotions :: "ServerID list"
  ch_Leader :: ServerID

record FailedServers =
  fs_StaleNonVoters :: "ServerID list"
  fs_StaleVoters :: "ServerID list"
  fs_FailedNonVoters :: "Server list"
  fs_FailedVoters :: "Server list"

text \<open>The two nested loops of \<open>getFailed\<close>: for each id, every server of the list with that id.\<close>

fun getFailed_inner :: "ServerID \<Rightarrow> Server list \<Rightarrow> Server list \<Rightarrow> Server list" where
  "getFailed_inner i [] result = result"
| "getFailed_inner i (srv # servers) result =
     getFailed_inner i servers (if srv_ID srv = i then result @ [srv] else result)"

fun getFailed_loop :: "ServerID list \<Rightarrow> Server list \<Rightarrow> Server list \<Rightarrow> Server list" where
  "getFailed_loop [] servers result = result"
| "getFailed_loop (i # ids) servers result =
     getFailed_loop ids servers (getFailed_inner i servers result)"

definition getFailed :: "FailedServers \<Rightarrow> ServerID list \<Rightarrow> bool \<Rightarrow> Server list" where
  "getFailed f ids isVoter =
     getFailed_loop ids (if isVoter then fs_FailedVoters f else fs_FailedNonVoters f) []"

lemma getFailed_inner_eq:
  "getFailed_inner i servers result = result @ filter (\<lambda>srv. srv_ID srv = i) servers"
  by (induction servers arbitrary: result) auto

lemma getFailed_loop_eq:
  "getFailed_loop ids servers result =
     result @ concat (map (\<lambda>i. filter (\<lambda>srv. srv_ID srv = i) servers) ids)"
  by (induction ids arbitrary: result) (auto simp: getFailed_inner_eq)

lemma getFailed_eq:
  "getFailed f ids isVoter =
     concat (map (\<lambda>i. filter (\<lambda>srv. srv_ID srv = i)
       (if isVoter then fs_FailedVoters f else fs_FailedNonVoters f)) ids)"
  by (simp add: getFailed_def getFailed_loop_eq)

lemma set_getFailed:
  "set (getFailed f ids isVoter) =
     {srv \<in> set (if isVoter then fs_FailedVoters f else fs_FailedNonVoters f). srv_ID srv \<in> set ids}"
  by (auto simp: getFailed_eq)

text \<open>The application keys its servers by their id.\<close>

definition keyed_by_id :: "(ServerID, Server) gomap \<Rightarrow> bool" where
  "keyed_by_id m \<longleftrightarrow> gomap_wf m \<and> (\<forall>(i, srv) \<in> set m. srv_ID srv = i)"

section \<open>Health and stability\<close>

lemma trailing_no_wrap:
  fixes a b n :: uint64
  assumes "unat a + unat b < 2 ^ 64"
  shows "a + b < n \<longleftrightarrow> \<not> int (unat n) - int (unat a) \<le> int (unat b)"
proof -
  have "a + b < n \<longleftrightarrow> unat a + unat b < unat n"
    using assms by (simp add: word_less_nat_alt unat_word_ariths)
  also have "\<dots> \<longleftrightarrow> \<not> int (unat n) - int (unat a) \<le> int (unat b)" by arith
  finally show ?thesis .
qed

lemma trailing_wrap:
  fixes a b n :: uint64
  assumes "2 ^ 64 \<le> unat a + unat b" "a \<le> n"
  shows "a + b < n"
proof -
  have "unat a < 2 ^ 64" "unat b < 2 ^ 64"
    using unsigned_less [of a, where ?'a = nat] unsigned_less [of b, where ?'a = nat] by simp_all
  then have "unat (a + b) < unat a"
    using assms(1) by (simp add: unat_word_ariths le_mod_geq)
  then show ?thesis using assms(2) by (simp add: word_less_nat_alt word_le_nat_alt)
qed

text \<open>
  C26: when adding the allowed trailing entries to a server's last index does not overflow 64
  bits, \<open>isHealthy\<close> holds exactly for a bootstrapped cluster and a server that the application
  reports alive, that was contacted within the threshold, that is on the leader's term and that
  trails the leader by at most \<open>MaxTrailingLogs\<close> entries.
\<close>

theorem isHealthy_iff:
  assumes "unat (stat_LastIndex (ss_Stats s)) + unat (cfg_MaxTrailingLogs conf) < 2 ^ 64"
  shows "isHealthy s lastTerm leaderIndex conf \<longleftrightarrow>
    lastTerm \<noteq> 0 \<and> leaderIndex \<noteq> 0 \<and> srv_NodeStatus (ss_Server s) = NodeAlive \<and>
    0 \<le> stat_LastContact (ss_Stats s) \<and>
    stat_LastContact (ss_Stats s) \<le> cfg_LastContactThreshold conf \<and>
    stat_LastTerm (ss_Stats s) = lastTerm \<and>
    int (unat leaderIndex) - int (unat (stat_LastIndex (ss_Stats s)))
      \<le> int (unat (cfg_MaxTrailingLogs conf))"
  unfolding isHealthy_def trailing_no_wrap [OF assms] by (auto simp: not_less)

text \<open>
  When that addition does overflow (a very large \<open>MaxTrailingLogs\<close>, meant to disable the
  check), no server that is at or behind the leader's index is ever healthy, not even one that
  trails by nothing.
\<close>

theorem isHealthy_overflow:
  assumes "2 ^ 64 \<le> unat (stat_LastIndex (ss_Stats s)) + unat (cfg_MaxTrailingLogs conf)"
    and "stat_LastIndex (ss_Stats s) \<le> leaderIndex"
  shows "\<not> isHealthy s lastTerm leaderIndex conf"
  using trailing_wrap [OF assms] by (simp add: isHealthy_def)

lemma IsStable_unhealthy: "\<not> sh_Healthy h \<Longrightarrow> \<not> IsStable (Some h) now d"
  by (simp add: IsStable_def)

text \<open>
  For a representable minimum duration, \<open>IsStable\<close> holds exactly for a server that is
  healthy with a \<open>StableSince\<close> at least that long ago; the clamping of \<open>Time.Sub\<close> does not
  show, and a nil receiver is not stable.
\<close>

lemma IsStable_bounded:
  assumes "minDuration < d" "d \<le> maxDuration"
  shows "IsStable hp now d \<longleftrightarrow> (\<exists>h. hp = Some h \<and> sh_Healthy h \<and> d \<le> now - sh_StableSince h)"
  using time_Sub_less_iff [OF assms] by (auto simp: IsStable_def split: option.splits)

text \<open>
  The stabilization time in force is the configured one once more than that time has passed
  since the first state was generated, and zero before, so that no server can fail a stability
  check for lack of observation time.
\<close>

theorem ServerStabilizationTime_cases:
  assumes "minDuration \<le> cfg_ServerStabilizationTime c" "cfg_ServerStabilizationTime c < maxDuration"
  shows "ServerStabilizationTime now s c =
    (if cfg_ServerStabilizationTime c < now - st_firstStateTime s
     then cfg_ServerStabilizationTime c else 0)"
  using time_Sub_greater_iff [OF assms] by (simp add: ServerStabilizationTime_def)

section \<open>Witnesses\<close>

definition sample_conf :: Config where
  "sample_conf = \<lparr>cfg_CleanupDeadServers = True, cfg_LastContactThreshold = 200,
     cfg_MaxTrailingLogs = 200, cfg_MinQuorum = 3, cfg_ServerStabilizationTime = 10, cfg_Ext = None\<rparr>"

definition sample_server :: "string \<Rightarrow> string \<Rightarrow> NodeStatus \<Rightarrow> Server" where
  "sample_server i a n = \<lparr>srv_ID = i, srv_Name = ''node'', srv_Address = a, srv_NodeStatus = n,
     srv_Version = ''1.9.0'', srv_Meta = [], srv_RaftVersion = 3, srv_IsLeader = False,
     srv_NodeType = NodeVoter, srv_Ext = None\<rparr>"

definition sample_ss :: "string \<Rightarrow> string \<Rightarrow> RaftState \<Rightarrow> bool \<Rightarrow> uint64 \<Rightarrow> ServerState" where
  "sample_ss i a r b idx = \<lparr>ss_Server = sample_server i a NodeAlive, ss_State = r,
     ss_Stats = \<lparr>stat_LastContact = 10, stat_LastTerm = 3, stat_LastIndex = idx\<rparr>,
     ss_Health = \<lparr>sh_Healthy = b, sh_StableSince = 100\<rparr>\<rparr>"

lemmas sample_defs = sample_conf_def sample_server_def sample_ss_def

theorem isHealthy_iff_witness:
  "isHealthy (sample_ss ''a'' ''x'' RaftVoter True 801) 3 1000 sample_conf \<and>
   \<not> isHealthy (sample_ss ''a'' ''x'' RaftVoter True 799) 3 1000 sample_conf"
  by (subst (1 2) isHealthy_iff) (simp_all add: sample_defs)

theorem isHealthy_overflow_witness:
  "\<not> isHealthy (sample_ss ''a'' ''x'' RaftVoter True 1000) 3 1000
       (sample_conf\<lparr>cfg_MaxTrailingLogs := 18446744073709551615\<rparr>)"
  by (rule isHealthy_overflow) (simp_all add: sample_defs)

theorem ServerStabilizationTime_cases_witness:
  "ServerStabilizationTime 111 (zero_State\<lparr>st_firstStateTime := 100\<rparr>) sample_conf = 10 \<and>
   ServerStabilizationTime 110 (zero_State\<lparr>st_firstStateTime := 100\<rparr>) sample_conf = 0"
  by (subst (1 2) ServerStabilizationTime_cases)
    (simp_all add: minDuration_def maxDuration_def sample_conf_def zero_State_def)

end
