(* ===== verification/AP_Order.thy ===== *)
theory AP_Order
  imports AP_Sort AP_Types "HOL-Library.Product_Lexorder"
begin

text \<open>
  \<open>ServerLessThan\<close> and \<open>SortServers\<close> of state.go. The comparator looks both ids up in the
  state's server map; for an id that is not there the map gives a nil pointer, and the code
  dereferences it. The abstract order behind the comparator is \<open>server_key\<close>: rank of the raft
  state, health, time of the last health change, id, compared lexicographically.
\<close>

definition ServerLessThan :: "ServerID \<Rightarrow> ServerID \<Rightarrow> State \<Rightarrow> go_panic + bool" where
  "ServerLessThan id1 id2 s =
     (case map_of (st_Servers s) id1 of
        None \<Rightarrow> Inl NilDeref
      | Some srvI \<Rightarrow>
          if ss_State srvI = RaftLeader then Inr True
          else
            (case map_of (st_Servers s) id2 of
               None \<Rightarrow> Inl NilDeref
             | Some srvJ \<Rightarrow>
                 if ss_State srvJ = RaftLeader then Inr False
                 else if ss_State srvI = RaftVoter \<and> ss_State srvJ \<noteq> RaftVoter then Inr True
                 else if ss_State srvI \<noteq> RaftVoter \<and> ss_State srvJ = RaftVoter then Inr False
                 else if sh_Healthy (ss_Health srvI) = sh_Healthy (ss_Health srvJ) then
                   if time_Before (sh_StableSince (ss_Health srvI)) (sh_StableSince (ss_Health srvJ))
                   then Inr (sh_Healthy (ss_Health srvI))
                   else if time_Before (sh_StableSince (ss_Health srvJ)) (sh_StableSince (ss_Health srvI))
                   then Inr (\<not> sh_Healthy (ss_Health srvI))
                   else Inr (id1 < id2)
                 else Inr (sh_Healthy (ss_Health srvI))))"

text \<open>\<open>SortServers\<close> sorts the slice in place; the model returns the sorted slice.\<close>

definition SortServers :: "ServerID list \<Rightarrow> State \<Rightarrow> go_panic + ServerID list" where
  "SortServers ids s = sort_slice (\<lambda>i j. ServerLessThan i j s) ids"

section \<open>The order behind the comparator\<close>

definition state_rank :: "RaftState \<Rightarrow> nat" where
  "state_rank r = (if r = RaftLeader then 0 else if r = RaftVoter then 1 else 2)"

definition server_key :: "State \<Rightarrow> ServerID \<Rightarrow> nat \<times> nat \<times> int \<times> ServerID" where
  "server_key s i =
     (case map_of (st_Servers s) i of
        None \<Rightarrow> (3, 0, 0, i)
      | Some v \<Rightarrow> (state_rank (ss_State v),
          if sh_Healthy (ss_Health v) then 0 else 1,
          if sh_Healthy (ss_Health v) then sh_StableSince (ss_Health v) else - sh_StableSince (ss_Health v),
          i))"

definition is_leader :: "State \<Rightarrow> ServerID \<Rightarrow> bool" where
  "is_leader s i \<longleftrightarrow> (\<exists>v. map_of (st_Servers s) i = Some v \<and> ss_State v = RaftLeader)"

definition known_id :: "State \<Rightarrow> ServerID \<Rightarrow> bool" where
  "known_id s i \<longleftrightarrow> map_of (st_Servers s) i \<noteq> None"

text \<open>What \<open>SortServers\<close> needs of its slice: different, known servers, at most one leader.\<close>

definition sortable :: "State \<Rightarrow> ServerID list \<Rightarrow> bool" where
  "sortable s ids \<longleftrightarrow> distinct ids \<and> (\<forall>i \<in> set ids. known_id s i) \<and>
     (\<forall>i \<in> set ids. \<forall>j \<in> set ids. is_leader s i \<longrightarrow> is_leader s j \<longrightarrow> i = j)"

lemma server_key_id: "snd (snd (snd (server_key s i))) = i"
  by (simp add: server_key_def split: option.split)

lemma server_key_inject: "server_key s i = server_key s j \<Longrightarrow> i = j"
  by (metis server_key_id)

interpretation srv_order: total_less "\<lambda>i j. server_key s i < server_key s j" for s
proof unfold_locales
  fix i j :: ServerID
  assume "i \<noteq> j"
  then have "server_key s i \<noteq> server_key s j" using server_key_inject by blast
  then show "server_key s i < server_key s j \<or> server_key s j < server_key s i" by (simp add: neq_iff)
qed

lemma ServerLessThan_key:
  assumes "known_id s i" "known_id s j" "i \<noteq> j" "\<not> (is_leader s i \<and> is_leader s j)"
  shows "ServerLessThan i j s = Inr (server_key s i < server_key s j)"
proof -
  obtain vi vj where v: "map_of (st_Servers s) i = Some vi" "map_of (st_Servers s) j = Some vj"
    using assms by (auto simp: known_id_def)
  then show ?thesis
    using assms(3,4)
    by (auto simp: ServerLessThan_def server_key_def state_rank_def is_leader_def time_Before_def
        less_prod_def)
qed

text \<open>
  C29: on two different servers of the state that are not both leaders, \<open>ServerLessThan\<close> does not
  panic and is the strict total order given by, in this order: leader before voter before the
  rest, healthy before unhealthy, then the time of the last health change (oldest first among
  healthy servers, newest first among unhealthy ones), then the id.
\<close>

theorem ServerLessThan_is_key_order:
  assumes "known_id s i" "known_id s j" "i \<noteq> j" "\<not> (is_leader s i \<and> is_leader s j)"
  shows "ServerLessThan i j s = Inr (server_key s i < server_key s j)"
  using assms by (rule ServerLessThan_key)

text \<open>
  Among two unhealthy servers of the same kind, the one whose health changed last comes
  first, although the list of criteria says that servers stable for longer come first.
\<close>

theorem ServerLessThan_unhealthy_reversed:
  assumes "map_of (st_Servers s) i = Some vi" "map_of (st_Servers s) j = Some vj"
    and "ss_State vi = ss_State vj" "ss_State vi \<noteq> RaftLeader"
    and "\<not> sh_Healthy (ss_Health vi)" "\<not> sh_Healthy (ss_Health vj)"
    and "sh_StableSince (ss_Health vi) < sh_StableSince (ss_Health vj)"
  shows "ServerLessThan i j s = Inr False \<and> ServerLessThan j i s = Inr True"
  using assms by (simp add: ServerLessThan_def time_Before_def)

lemma SortServers_pure:
  assumes "sortable s ids"
  shows "SortServers ids s = Inr (sort_pure (\<lambda>i j. server_key s i < server_key s j) ids)"
  unfolding SortServers_def
  by (rule sort_slice_pure)
    (use assms in \<open>auto simp: sortable_def intro!: ServerLessThan_key\<close>)

text \<open>
  C28: \<open>SortServers\<close> on different servers of the state with at most one leader never panics and
  returns the one permutation of its slice that is sorted by the order above; the initial order
  of the slice has no influence on the result, and neither has the sorting algorithm.
\<close>

theorem SortServers_deterministic:
  assumes "sortable s ids"
  shows "\<exists>ys. SortServers ids s = Inr ys \<and> mset ys = mset ids \<and>
    sorted_wrt (\<lambda>i j. server_key s i < server_key s j) ys \<and>
    (\<forall>ids'. mset ids' = mset ids \<longrightarrow> SortServers ids' s = Inr ys) \<and>
    (\<forall>zs. mset zs = mset ids \<longrightarrow> sorted_wrt (\<lambda>i j. \<not> server_key s j < server_key s i) zs \<longrightarrow> zs = ys)"
proof -
  let ?lt = "\<lambda>i j. server_key s i < server_key s j"
  let ?ys = "sort_pure ?lt ids"
  have same: "SortServers ids' s = Inr ?ys" if "mset ids' = mset ids" for ids'
  proof -
    have "sortable s ids'"
      using assms that mset_eq_setD [OF that] mset_eq_imp_distinct_iff [OF that]
      by (simp add: sortable_def)
    then show ?thesis
      using srv_order.sort_any_order [OF that] by (simp add: SortServers_pure)
  qed
  have "sorted_wrt ?lt ?ys"
    by (rule srv_order.sort_strict) (use assms in \<open>simp add: sortable_def\<close>)
  then show ?thesis
    using same srv_order.sort_only_result by (intro exI [of _ ?ys]) simp
qed

lemma sort_leader_first:
  assumes "sortable s ids" "l \<in> set ids" "is_leader s l"
  shows "\<exists>rest. sort_pure (\<lambda>i j. server_key s i < server_key s j) ids = l # rest"
proof -
  let ?lt = "\<lambda>i j. server_key s i < server_key s j"
  let ?ys = "sort_pure ?lt ids"
  have l: "l \<in> set ?ys" using assms(2) by simp
  then obtain y rest where ys: "?ys = y # rest" by (cases ?ys) auto
  have "?lt y l" if "y \<noteq> l"
    using srv_order.sort_strict [of ids s] assms(1) l that by (auto simp: ys sortable_def)
  moreover have "?lt l y" if "y \<noteq> l"
  proof -
    have "y \<in> set ?ys" by (simp add: ys)
    then have y: "y \<in> set ids" by simp
    then have "\<not> is_leader s y" "known_id s y"
      using assms that by (auto simp: sortable_def)
    then show ?thesis
      using assms(3) by (auto simp: is_leader_def known_id_def server_key_def state_rank_def
          less_prod_def split: if_splits)
  qed
  ultimately have "y = l" using less_asym by blast
  then show ?thesis using ys by simp
qed

text \<open>
  If the slice holds a leader of the state, \<open>SortServers\<close> puts it first.
\<close>

theorem SortServers_leader_first:
  assumes "sortable s ids" "l \<in> set ids" "is_leader s l"
  shows "\<exists>rest. SortServers ids s = Inr (l # rest)"
  using sort_leader_first [OF assms] SortServers_pure [OF assms(1)] by simp

section \<open>Witnesses\<close>

definition sample_state :: State where
  "sample_state = zero_State\<lparr>st_Servers :=
     [(''a'', sample_ss ''a'' ''x'' RaftVoter True 1000),
      (''b'', sample_ss ''b'' ''y'' RaftLeader True 1000),
      (''c'', sample_ss ''c'' ''z'' RaftVoter False 10),
      (''d'', (sample_ss ''d'' ''w'' RaftVoter False 10)
         \<lparr>ss_Health := \<lparr>sh_Healthy = False, sh_StableSince = 90\<rparr>\<rparr>)]\<rparr>"

lemma sample_sortable: "sortable sample_state [''c'', ''a'', ''b'', ''d'']"
  by (simp add: sortable_def known_id_def is_leader_def sample_state_def zero_State_def sample_ss_def)

theorem ServerLessThan_is_key_order_witness:
  "ServerLessThan ''a'' ''c'' sample_state =
     Inr (server_key sample_state ''a'' < server_key sample_state ''c'')"
  by (rule ServerLessThan_is_key_order)
    (simp_all add: known_id_def is_leader_def sample_state_def zero_State_def sample_ss_def)

theorem ServerLessThan_unhealthy_reversed_witness:
  "ServerLessThan ''d'' ''c'' sample_state = Inr False \<and> ServerLessThan ''c'' ''d'' sample_state = Inr True"
  by (rule ServerLessThan_unhealthy_reversed
      [where vi = "the (map_of (st_Servers sample_state) ''d'')"
         and vj = "the (map_of (st_Servers sample_state) ''c'')"])
    (simp_all add: sample_state_def zero_State_def sample_ss_def)

theorem SortServers_deterministic_witness:
  "\<exists>ys. SortServers [''c'', ''a'', ''b'', ''d''] sample_state = Inr ys \<and>
     SortServers [''d'', ''c'', ''b'', ''a''] sample_state = Inr ys"
  using SortServers_deterministic [OF sample_sortable] by (auto simp: add_mset_commute)

theorem SortServers_leader_first_witness:
  "\<exists>rest. SortServers [''c'', ''a'', ''b'', ''d''] sample_state = Inr (''b'' # rest)"
  by (rule SortServers_leader_first [OF sample_sortable])
    (simp_all add: is_leader_def sample_state_def zero_State_def sample_ss_def)

end
