(* ===== verification/AP_Registry.thy ===== *)
theory AP_Registry
  imports AP_Types
begin

text \<open>
  The voter registry of types.go: for every server of the raft configuration, whether it votes
  now and whether it could. The registry's map is an association list; the loops over it count,
  so the order in which the runtime enumerates it does not matter (\<open>potentialVoters_order\<close>).
\<close>

record voterEligibility =
  currentVoter :: bool
  potentialVoter :: bool

definition isCurrentVoter :: "voterEligibility \<Rightarrow> bool" where
  "isCurrentVoter v = currentVoter v"

definition isPotentialVoter :: "voterEligibility \<Rightarrow> bool" where
  "isPotentialVoter v = potentialVoter v"

definition setPotentialVoter :: "bool \<Rightarrow> voterEligibility \<Rightarrow> voterEligibility" where
  "setPotentialVoter isVoter v = v\<lparr>potentialVoter := isVoter\<rparr>"

record voterRegistry =
  eligibility :: "(ServerID, voterEligibility) gomap"

definition newVoterRegistry :: voterRegistry where
  "newVoterRegistry = \<lparr>eligibility = []\<rparr>"

fun potentialVoters_loop :: "int \<Rightarrow> (ServerID, voterEligibility) gomap \<Rightarrow> int" where
  "potentialVoters_loop n [] = n"
| "potentialVoters_loop n ((i, v) # es) =
     potentialVoters_loop (if isPotentialVoter v then n + 1 else n) es"

definition potentialVoters :: "voterRegistry \<Rightarrow> int" where
  "potentialVoters vr = potentialVoters_loop 0 (eligibility vr)"

fun registry_filter_loop :: "voterRegistry \<Rightarrow> Server list \<Rightarrow> ServerID list \<Rightarrow> ServerID list" where
  "registry_filter_loop vr [] result = result"
| "registry_filter_loop vr (srv # srvs) result =
     registry_filter_loop vr srvs
       (case map_of (eligibility vr) (srv_ID srv) of
          None \<Rightarrow> result | Some _ \<Rightarrow> result @ [srv_ID srv])"

definition registry_filter :: "voterRegistry \<Rightarrow> Server list \<Rightarrow> ServerID list" where
  "registry_filter vr ids = registry_filter_loop vr ids []"

fun registry_remove :: "voterRegistry \<Rightarrow> ServerID list \<Rightarrow> voterRegistry" where
  "registry_remove vr [] = vr"
| "registry_remove vr (i # ids) =
     registry_remove (vr\<lparr>eligibility := AList.delete i (eligibility vr)\<rparr>) ids"

section \<open>What the operations compute\<close>

abbreviation reg_ids :: "voterRegistry \<Rightarrow> ServerID set" where
  "reg_ids vr \<equiv> set (keys (eligibility vr))"

abbreviation reg_wf :: "voterRegistry \<Rightarrow> bool" where
  "reg_wf vr \<equiv> gomap_wf (eligibility vr)"

text \<open>The potential voters of a registry, as a set.\<close>

definition pot_set :: "voterRegistry \<Rightarrow> ServerID set" where
  "pot_set vr = {i. \<exists>v. map_of (eligibility vr) i = Some v \<and> potentialVoter v}"

lemma finite_pot_set [simp]: "finite (pot_set vr)"
  by (rule finite_subset [of _ "reg_ids vr"])
    (auto simp: pot_set_def dest!: map_of_SomeD intro: rev_image_eqI)

lemma potentialVoters_loop_eq:
  "potentialVoters_loop n es = n + int (length (filter (\<lambda>(i, v). potentialVoter v) es))"
  by (induction n es rule: potentialVoters_loop.induct) (auto simp: isPotentialVoter_def)

lemma potentialVoters_filter:
  "potentialVoters vr = int (length (filter (\<lambda>(i, v). potentialVoter v) (eligibility vr)))"
  by (simp add: potentialVoters_def potentialVoters_loop_eq)

lemma potentialVoters_order:
  "go_range rng \<Longrightarrow> potentialVoters_loop 0 (rng (eligibility vr)) = potentialVoters vr"
  by (simp add: potentialVoters_filter potentialVoters_loop_eq go_range_filter)

lemma pot_set_image:
  assumes "reg_wf vr"
  shows "pot_set vr = set (map fst (filter (\<lambda>(i, v). potentialVoter v) (eligibility vr)))"
  using map_of_mem [OF assms] by (force simp: pot_set_def)

lemma potentialVoters_card: "reg_wf vr \<Longrightarrow> potentialVoters vr = int (card (pot_set vr))"
  unfolding potentialVoters_filter
  by (subst pot_set_image, assumption, subst distinct_card)
    (simp_all add: distinct_map_filter)

lemma registry_filter_loop_eq:
  "registry_filter_loop vr srvs result =
     result @ filter (\<lambda>i. i \<in> reg_ids vr) (map srv_ID srvs)"
proof (induction srvs arbitrary: result)
  case (Cons srv srvs)
  show ?case
    by (cases "map_of (eligibility vr) (srv_ID srv)")
      (simp_all add: Cons.IH in_keys_iff)
qed simp

lemma registry_filter_eq:
  "registry_filter vr srvs = filter (\<lambda>i. i \<in> reg_ids vr) (map srv_ID srvs)"
  by (simp add: registry_filter_def registry_filter_loop_eq)

lemma map_of_registry_remove [gomap_simps]:
  "map_of (eligibility (registry_remove vr ids)) i =
     (if i \<in> set ids then None else map_of (eligibility vr) i)"
  by (induction vr ids rule: registry_remove.induct) (auto simp: gomap_simps)

lemma reg_ids_remove [gomap_simps]: "reg_ids (registry_remove vr ids) = reg_ids vr - set ids"
  by (induction vr ids rule: registry_remove.induct) (auto simp: keys_delete simp del: set_map)

lemma reg_wf_remove: "reg_wf vr \<Longrightarrow> reg_wf (registry_remove vr ids)"
  by (induction vr ids rule: registry_remove.induct) (simp_all add: wf_delete)

lemma pot_set_remove [gomap_simps]: "pot_set (registry_remove vr ids) = pot_set vr - set ids"
  by (auto simp: pot_set_def gomap_simps)

text \<open>
  Removing servers from the registry lowers the number of potential voters by exactly the
  number of different potential voters among them.
\<close>

theorem potentialVoters_remove:
  assumes "reg_wf vr"
  shows "potentialVoters (registry_remove vr ids) =
    potentialVoters vr - int (card (pot_set vr \<inter> set ids))"
proof -
  have "card (pot_set vr - set ids) = card (pot_set vr) - card (pot_set vr \<inter> set ids)"
    by (rule card_Diff_subset_Int) simp
  moreover have "card (pot_set vr \<inter> set ids) \<le> card (pot_set vr)"
    by (rule card_mono) simp_all
  ultimately show ?thesis
    using assms by (simp add: potentialVoters_card reg_wf_remove pot_set_remove)
qed

definition sample_registry :: voterRegistry where
  "sample_registry = \<lparr>eligibility = [(''a'', \<lparr>currentVoter = True, potentialVoter = True\<rparr>),
     (''b'', \<lparr>currentVoter = True, potentialVoter = True\<rparr>),
     (''c'', \<lparr>currentVoter = True, potentialVoter = True\<rparr>),
     (''d'', \<lparr>currentVoter = False, potentialVoter = True\<rparr>),
     (''e'', \<lparr>currentVoter = True, potentialVoter = False\<rparr>),
     (''f'', \<lparr>currentVoter = True, potentialVoter = False\<rparr>)]\<rparr>"

theorem potentialVoters_remove_witness:
  "potentialVoters (registry_remove sample_registry [''a'', ''e'', ''a'']) = 3"
proof -
  have "pot_set sample_registry = {''a'', ''b'', ''c'', ''d''}"
    by (subst pot_set_image) (simp_all add: sample_registry_def)
  then have "pot_set sample_registry \<inter> set [''a'', ''e'', ''a''] = {''a''}" by auto
  then show ?thesis
    using potentialVoters_remove [of sample_registry "[''a'', ''e'', ''a'']"]
    by (simp add: sample_registry_def potentialVoters_filter)
qed

end
