(* ===== verification/AP_Env.thy ===== *)
theory AP_Env
  imports AP_Registry
begin

text \<open>
  The interfaces the program calls through (types.go: \<open>Raft\<close>, \<open>ApplicationIntegration\<close>,
  \<open>Promoter\<close>, \<open>TimeProvider\<close>), its error values, and the \<open>Autopilot\<close> struct with its
  constructor, options and small accessors (autopilot.go).

  The world outside the program is an arbitrary function of the calls made to it so far: every
  interface method takes the history \<open>hist\<close> of earlier calls, and every operation of the model
  takes a history and returns it extended by the calls it made. Two calls of one method can thus
  have different answers, and which calls an operation makes, in which order, is part of what is
  proved about it (\<open>calls\<close>). Logging is left out. A future of the raft library is modelled by
  the result that waiting for it gives.
\<close>

section \<open>Errors\<close>

text \<open>
  \<open>ErrExternal\<close> is an error that raft, the context or the clock hands to the program. The other
  constructors are the messages the program builds; \<open>ErrAppend\<close> is the value that
  \<open>multierror.Append\<close> returns for its two arguments.
\<close>

datatype go_error =
    ErrExternal string
  | ErrNum parse_err
  | ErrNoConfig
  | ErrGetRaftConfig go_error
  | ErrLastTerm go_error
  | ErrNoState
  | ErrUnknownLeader ServerID
  | ErrPromote ServerID go_error
  | ErrDemote ServerID go_error
  | ErrTooManyRemovals
  | ErrDuplicateAddress ServerID ServerAddress go_error
  | ErrAppend "go_error option" go_error

section \<open>Calls to the outside\<close>

datatype call =
    CNow
  | CAutopilotConfig
  | CKnownServers
  | CFetchServerStats Time "(ServerID, Server) gomap"
  | CNotifyState State
  | CRemoveFailedServer Server
  | CGetConfiguration
  | CLeader
  | CLastIndex
  | CRaftState
  | CStats
  | CAddNonvoter ServerID ServerAddress uint64 Duration
  | CAddVoter ServerID ServerAddress uint64 Duration
  | CDemoteVoter ServerID uint64 Duration
  | CRemoveServer ServerID uint64 Duration
  | CLeadershipTransfer ServerID ServerAddress
  | CCtxErr
  | CGetServerExt Config ServerState
  | CGetStateExt Config State
  | CGetNodeTypes Config State
  | CCalculate Config State
  | CFilterFailed Config "State option" FailedServers

type_synonym hist = "call list"

text \<open>The calls an operation makes when it starts after history \<open>h\<close>.\<close>

definition calls :: "(hist \<Rightarrow> 'r \<times> hist) \<Rightarrow> hist \<Rightarrow> call list" where
  "calls f h = drop (length h) (snd (f h))"

text \<open>The contract that every operation of the model keeps: it only adds to the history.\<close>

locale logged =
  fixes f :: "hist \<Rightarrow> 'r \<times> hist"
  assumes extends: "prefix h (snd (f h))"
begin

lemma hist_split: "snd (f h) = h @ calls f h"
  using extends [of h] by (auto simp: calls_def prefix_def)

lemma earlier_calls_kept: "c \<in> set h \<Longrightarrow> c \<in> set (snd (f h))"
  by (simp add: hist_split)

end

section \<open>Interfaces\<close>

datatype raft_RaftState = raft_Leader | raft_OtherState string

record ConfigurationFuture =
  cf_Error :: "go_error option"
  cf_Configuration :: raft_Configuration

record Raft =
  r_AddNonvoter :: "hist \<Rightarrow> ServerID \<Rightarrow> ServerAddress \<Rightarrow> uint64 \<Rightarrow> Duration \<Rightarrow> go_error option"
  r_AddVoter :: "hist \<Rightarrow> ServerID \<Rightarrow> ServerAddress \<Rightarrow> uint64 \<Rightarrow> Duration \<Rightarrow> go_error option"
  r_DemoteVoter :: "hist \<Rightarrow> ServerID \<Rightarrow> uint64 \<Rightarrow> Duration \<Rightarrow> go_error option"
  r_LastIndex :: "hist \<Rightarrow> uint64"
  r_Leader :: "hist \<Rightarrow> ServerAddress"
  r_GetConfiguration :: "hist \<Rightarrow> ConfigurationFuture"
  r_RemoveServer :: "hist \<Rightarrow> ServerID \<Rightarrow> uint64 \<Rightarrow> Duration \<Rightarrow> go_error option"
  r_Stats :: "hist \<Rightarrow> (string, string) gomap"
  r_LeadershipTransferToServer :: "hist \<Rightarrow> ServerID \<Rightarrow> ServerAddress \<Rightarrow> go_error option"
  r_State :: "hist \<Rightarrow> raft_RaftState"

record ApplicationIntegration =
  d_AutopilotConfig :: "hist \<Rightarrow> Config option"
  d_FetchServerStats :: "hist \<Rightarrow> Time \<Rightarrow> (ServerID, Server) gomap \<Rightarrow> (ServerID, ServerStats) gomap"
  d_KnownServers :: "hist \<Rightarrow> (ServerID, Server) gomap"

text \<open>\<open>IsPotentialVoter\<close> is documented as a predicate on node types, so it has no history.\<close>

record Promoter =
  p_GetServerExt :: "hist \<Rightarrow> Config \<Rightarrow> ServerState \<Rightarrow> ext option"
  p_GetStateExt :: "hist \<Rightarrow> Config \<Rightarrow> State \<Rightarrow> ext option"
  p_GetNodeTypes :: "hist \<Rightarrow> Config \<Rightarrow> State \<Rightarrow> (ServerID, NodeType) gomap"
  p_CalculatePromotionsAndDemotions :: "hist \<Rightarrow> Config \<Rightarrow> State \<Rightarrow> RaftChanges"
  p_FilterFailedServerRemovals ::
    "hist \<Rightarrow> Config \<Rightarrow> State option \<Rightarrow> FailedServers \<Rightarrow> FailedServers option"
  p_IsPotentialVoter :: "NodeType \<Rightarrow> bool"

type_synonym TimeProvider = "hist \<Rightarrow> Time"

text \<open>The error of a context, asked for by \<open>ctx.Err()\<close>.\<close>

type_synonym Context = "hist \<Rightarrow> go_error option"

section \<open>The Autopilot struct\<close>

text \<open>
  \<open>ap_removeDeadCh\<close> is the number of tokens in the channel's buffer of size one. The locks and
  the execution record belong to the model of the background routines (AP_Run).
\<close>

record Autopilot =
  ap_delegate :: ApplicationIntegration
  ap_promoter :: Promoter
  ap_raft :: Raft
  ap_time :: TimeProvider
  ap_reconcileInterval :: Duration
  ap_updateInterval :: Duration
  ap_state :: "State option"
  ap_removeDeadCh :: nat
  ap_reconciliationEnabled :: bool

definition DefaultUpdateInterval :: Duration where
  "DefaultUpdateInterval = 2 * 1000000000"

definition DefaultReconcileInterval :: Duration where
  "DefaultReconcileInterval = 10 * 1000000000"

definition removeDeadCap :: nat where
  "removeDeadCap = 1"

definition RemoveDeadServers :: "Autopilot \<Rightarrow> Autopilot" where
  "RemoveDeadServers a =
     (if ap_removeDeadCh a < removeDeadCap then a\<lparr>ap_removeDeadCh := ap_removeDeadCh a + 1\<rparr> else a)"

definition GetState :: "Autopilot \<Rightarrow> State option" where
  "GetState a = ap_state a"

definition GetServerHealth :: "Autopilot \<Rightarrow> ServerID \<Rightarrow> go_panic + ServerHealth option" where
  "GetServerHealth a i =
     (case GetState a of
        None \<Rightarrow> Inl NilDeref
      | Some state \<Rightarrow>
          (case map_of (st_Servers state) i of
             Some srv \<Rightarrow> Inr (Some (ss_Health srv))
           | None \<Rightarrow> Inr None))"

definition EnableReconciliation :: "Autopilot \<Rightarrow> Autopilot" where
  "EnableReconciliation a =
     (if \<not> ap_reconciliationEnabled a then a\<lparr>ap_reconciliationEnabled := True\<rparr> else a)"

definition DisableReconciliation :: "Autopilot \<Rightarrow> Autopilot" where
  "DisableReconciliation a =
     (if ap_reconciliationEnabled a then a\<lparr>ap_reconciliationEnabled := False\<rparr> else a)"

definition ReconciliationEnabled :: "Autopilot \<Rightarrow> bool" where
  "ReconciliationEnabled a = ap_reconciliationEnabled a"

section \<open>Options and the constructor\<close>

type_synonym Option = "Autopilot \<Rightarrow> Autopilot"

definition WithUpdateInterval :: "Duration \<Rightarrow> Option" where
  "WithUpdateInterval t =
     (let t = (if t = 0 then DefaultUpdateInterval else t) in (\<lambda>a. a\<lparr>ap_updateInterval := t\<rparr>))"

definition WithReconcileInterval :: "Duration \<Rightarrow> Option" where
  "WithReconcileInterval t =
     (let t = (if t = 0 then DefaultReconcileInterval else t) in (\<lambda>a. a\<lparr>ap_reconcileInterval := t\<rparr>))"

definition WithTimeProvider :: "TimeProvider \<Rightarrow> Option" where
  "WithTimeProvider provider = (\<lambda>a. a\<lparr>ap_time := provider\<rparr>)"

text \<open>\<open>dflt\<close> is the value of \<open>DefaultPromoter()\<close>, which AP_Stable defines.\<close>

definition WithPromoter :: "Promoter \<Rightarrow> Promoter option \<Rightarrow> Option" where
  "WithPromoter dflt promoter =
     (let p = (case promoter of None \<Rightarrow> dflt | Some p \<Rightarrow> p) in (\<lambda>a. a\<lparr>ap_promoter := p\<rparr>))"

definition WithReconciliationDisabled :: Option where
  "WithReconciliationDisabled = (\<lambda>a. DisableReconciliation a)"

text \<open>\<open>clock\<close> is the wall clock behind \<open>runtimeTimeProvider\<close>.\<close>

definition New :: "Promoter \<Rightarrow> TimeProvider \<Rightarrow> Raft \<Rightarrow> ApplicationIntegration \<Rightarrow> Option list \<Rightarrow> Autopilot" where
  "New dflt clock raft delegate options =
     (let a = \<lparr>ap_delegate = delegate, ap_promoter = dflt, ap_raft = raft, ap_time = clock,
                ap_reconcileInterval = DefaultReconcileInterval,
                ap_updateInterval = DefaultUpdateInterval,
                ap_state = Some zero_State, ap_removeDeadCh = 0,
                ap_reconciliationEnabled = True\<rparr>
      in fold (\<lambda>opt a. opt a) options a)"

text \<open>The options that the package exports; its struct fields are private, so there are no others.\<close>

definition package_option :: "Promoter \<Rightarrow> Option \<Rightarrow> bool" where
  "package_option dflt opt \<longleftrightarrow>
     (\<exists>t. opt = WithUpdateInterval t) \<or> (\<exists>t. opt = WithReconcileInterval t) \<or>
     (\<exists>c. opt = WithTimeProvider c) \<or> (\<exists>p. opt = WithPromoter dflt p) \<or>
     opt = WithReconciliationDisabled"

lemmas option_defs = WithUpdateInterval_def WithReconcileInterval_def WithTimeProvider_def
  WithPromoter_def WithReconciliationDisabled_def DisableReconciliation_def
  DefaultUpdateInterval_def DefaultReconcileInterval_def

lemma fold_options_inv:
  "(\<And>opt a. opt \<in> set opts \<Longrightarrow> P a \<Longrightarrow> P (opt a)) \<Longrightarrow> P a \<Longrightarrow> P (fold (\<lambda>opt a. opt a) opts a)"
  by (induction opts arbitrary: a) auto

section \<open>A concrete environment for the witnesses\<close>

definition sample_raft :: "raft_Server list \<Rightarrow> Raft" where
  "sample_raft srvs = \<lparr>r_AddNonvoter = (\<lambda>_ _ _ _ _. None), r_AddVoter = (\<lambda>_ _ _ _ _. None),
     r_DemoteVoter = (\<lambda>_ _ _ _. None), r_LastIndex = (\<lambda>_. 1000), r_Leader = (\<lambda>_. ''x''),
     r_GetConfiguration = (\<lambda>_. \<lparr>cf_Error = None, cf_Configuration = \<lparr>rc_Servers = srvs\<rparr>\<rparr>),
     r_RemoveServer = (\<lambda>_ _ _ _. None), r_Stats = (\<lambda>_. [(''last_log_term'', ''3'')]),
     r_LeadershipTransferToServer = (\<lambda>_ _ _. None), r_State = (\<lambda>_. raft_Leader)\<rparr>"

definition sample_delegate :: "Config \<Rightarrow> (ServerID, Server) gomap \<Rightarrow> ApplicationIntegration" where
  "sample_delegate conf known = \<lparr>d_AutopilotConfig = (\<lambda>_. Some conf),
     d_FetchServerStats = (\<lambda>_ _ _. []), d_KnownServers = (\<lambda>_. known)\<rparr>"

definition sample_promoter :: "RaftChanges \<Rightarrow> Promoter" where
  "sample_promoter changes = \<lparr>p_GetServerExt = (\<lambda>_ _ _. None), p_GetStateExt = (\<lambda>_ _ _. None),
     p_GetNodeTypes = (\<lambda>_ _ _. []), p_CalculatePromotionsAndDemotions = (\<lambda>_ _ _. changes),
     p_FilterFailedServerRemovals = (\<lambda>_ _ _ f. Some f), p_IsPotentialVoter = (\<lambda>t. t = NodeVoter)\<rparr>"

definition no_changes :: RaftChanges where
  "no_changes = \<lparr>ch_Promotions = [], ch_Demotions = [], ch_Leader = []\<rparr>"

definition sample_autopilot :: "raft_Server list \<Rightarrow> (ServerID, Server) gomap \<Rightarrow> RaftChanges \<Rightarrow> Autopilot" where
  "sample_autopilot srvs known changes =
     New (sample_promoter changes) (\<lambda>_. 100) (sample_raft srvs) (sample_delegate sample_conf known) []"

lemmas sample_env_defs = sample_raft_def sample_delegate_def sample_promoter_def no_changes_def
  sample_autopilot_def New_def Let_def

section \<open>Properties\<close>

text \<open>
  Whatever options of the package a caller passes, in whatever order, a new Autopilot has
  non-zero intervals for its two tickers, holds the zero state (not a nil one), has an empty
  trigger channel, and talks to the raft and delegate it was given.
\<close>

theorem New_wellformed:
  assumes "\<forall>opt \<in> set options. package_option dflt opt"
  shows "ap_updateInterval (New dflt clock raft delegate options) \<noteq> 0 \<and>
    ap_reconcileInterval (New dflt clock raft delegate options) \<noteq> 0 \<and>
    ap_state (New dflt clock raft delegate options) = Some zero_State \<and>
    ap_removeDeadCh (New dflt clock raft delegate options) = 0 \<and>
    ap_raft (New dflt clock raft delegate options) = raft \<and>
    ap_delegate (New dflt clock raft delegate options) = delegate"
  unfolding New_def Let_def
  by (rule fold_options_inv)
    (use assms in \<open>auto simp: package_option_def option_defs Let_def split: if_splits\<close>)

theorem New_wellformed_witness:
  "ap_updateInterval (New (sample_promoter no_changes) (\<lambda>_. 100) (sample_raft [])
     (sample_delegate sample_conf []) [WithUpdateInterval 7, WithUpdateInterval 0]) \<noteq> 0"
  using New_wellformed [of "[WithUpdateInterval 7, WithUpdateInterval 0]"
    "sample_promoter no_changes" "\<lambda>_. 100" "sample_raft []" "sample_delegate sample_conf []"]
  by (auto simp: package_option_def)

text \<open>
  After any sequence of calls to \<open>RemoveDeadServers\<close> that is not empty, started with at most
  one pending trigger, exactly one trigger is pending: requests are coalesced, never lost and
  never queued up, and nothing else of the Autopilot changes.
\<close>

theorem RemoveDeadServers_coalesces:
  assumes "ap_removeDeadCh a \<le> removeDeadCap"
  shows "(RemoveDeadServers ^^ Suc n) a = a\<lparr>ap_removeDeadCh := 1\<rparr>"
proof (induction n)
  case 0
  then show ?case
    using assms by (cases "ap_removeDeadCh a") (auto simp: RemoveDeadServers_def removeDeadCap_def)
next
  case (Suc n)
  have "RemoveDeadServers ((RemoveDeadServers ^^ Suc n) a) = (RemoveDeadServers ^^ Suc n) a"
    unfolding Suc by (simp add: RemoveDeadServers_def removeDeadCap_def)
  with Suc show ?case by simp
qed

theorem RemoveDeadServers_coalesces_witness:
  "(RemoveDeadServers ^^ Suc 2) (sample_autopilot [] [] no_changes) =
     (sample_autopilot [] [] no_changes)\<lparr>ap_removeDeadCh := 1\<rparr>"
  by (rule RemoveDeadServers_coalesces) (simp add: sample_env_defs)

lemma ReconciliationEnabled_simps [simp]:
  "ReconciliationEnabled (EnableReconciliation a)"
  "\<not> ReconciliationEnabled (DisableReconciliation a)"
  by (simp_all add: ReconciliationEnabled_def EnableReconciliation_def DisableReconciliation_def)

end
