(* ===== verification/AP_Raft.thy ===== *)
theory AP_Raft
  imports AP_Env
begin

text \<open>
  The synchronous wrappers around the raft library (raft.go): \<open>requiredQuorum\<close>, \<open>NumVoters\<close>,
  \<open>AddServer\<close>, \<open>RemoveServer\<close>, \<open>addNonVoter\<close>, \<open>addVoter\<close>, \<open>demoteVoter\<close>, \<open>removeServer\<close>,
  \<open>getRaftConfiguration\<close>, \<open>lastTerm\<close>, \<open>leadershipTransfer\<close>. The lemmas give the calls each one
  makes and its result on every branch.
\<close>

definition requiredQuorum :: "int \<Rightarrow> int" where
  "requiredQuorum voters = go_div voters 2 + 1"

definition addNonVoter :: "Autopilot \<Rightarrow> ServerID \<Rightarrow> ServerAddress \<Rightarrow> hist \<Rightarrow> go_error option \<times> hist" where
  "addNonVoter a i addr h =
     (case r_AddNonvoter (ap_raft a) h i addr 0 0 of
        Some err \<Rightarrow> (Some err, h @ [CAddNonvoter i addr 0 0])
      | None \<Rightarrow> (None, h @ [CAddNonvoter i addr 0 0]))"

definition addVoter :: "Autopilot \<Rightarrow> ServerID \<Rightarrow> ServerAddress \<Rightarrow> hist \<Rightarrow> go_error option \<times> hist" where
  "addVoter a i addr h =
     (case r_AddVoter (ap_raft a) h i addr 0 0 of
        Some err \<Rightarrow> (Some err, h @ [CAddVoter i addr 0 0])
      | None \<Rightarrow> (None, h @ [CAddVoter i addr 0 0]))"

definition demoteVoter :: "Autopilot \<Rightarrow> ServerID \<Rightarrow> hist \<Rightarrow> go_error option \<times> hist" where
  "demoteVoter a i h =
     (case r_DemoteVoter (ap_raft a) h i 0 0 of
        Some err \<Rightarrow> (Some err, h @ [CDemoteVoter i 0 0])
      | None \<Rightarrow> (None, h @ [CDemoteVoter i 0 0]))"

definition removeServer :: "Autopilot \<Rightarrow> ServerID \<Rightarrow> hist \<Rightarrow> go_error option \<times> hist" where
  "removeServer a i h =
     (case r_RemoveServer (ap_raft a) h i 0 0 of
        Some err \<Rightarrow> (Some err, h @ [CRemoveServer i 0 0])
      | None \<Rightarrow> (None, h @ [CRemoveServer i 0 0]))"

definition getRaftConfiguration :: "Autopilot \<Rightarrow> hist \<Rightarrow> (go_error + raft_Configuration) \<times> hist" where
  "getRaftConfiguration a h =
     (let configFuture = r_GetConfiguration (ap_raft a) h; h = h @ [CGetConfiguration]
      in case cf_Error configFuture of
           Some err \<Rightarrow> (Inl err, h)
         | None \<Rightarrow> (Inr (cf_Configuration configFuture), h))"

text \<open>A missing key of the stats map reads as the empty string.\<close>

definition lastTerm :: "Autopilot \<Rightarrow> hist \<Rightarrow> (go_error + uint64) \<times> hist" where
  "lastTerm a h =
     (let stats = r_Stats (ap_raft a) h; h = h @ [CStats];
          s = (case map_of stats ''last_log_term'' of Some s \<Rightarrow> s | None \<Rightarrow> [])
      in case ParseUint s of Inl e \<Rightarrow> (Inl (ErrNum e), h) | Inr t \<Rightarrow> (Inr t, h))"

definition leadershipTransfer :: "Autopilot \<Rightarrow> ServerID \<Rightarrow> ServerAddress \<Rightarrow> hist \<Rightarrow> go_error option \<times> hist" where
  "leadershipTransfer a i address h =
     (r_LeadershipTransferToServer (ap_raft a) h i address, h @ [CLeadershipTransfer i address])"

fun numVoters_loop :: "int \<Rightarrow> raft_Server list \<Rightarrow> int" where
  "numVoters_loop n [] = n"
| "numVoters_loop n (server # servers) =
     numVoters_loop (if rs_Suffrage server = raft_Voter then n + 1 else n) servers"

definition NumVoters :: "Autopilot \<Rightarrow> hist \<Rightarrow> (int \<times> go_error option) \<times> hist" where
  "NumVoters a h =
     (case getRaftConfiguration a h of
        (Inl err, h) \<Rightarrow> ((0, Some err), h)
      | (Inr cfg, h) \<Rightarrow> ((numVoters_loop 0 (rc_Servers cfg), None), h))"

fun RemoveServer_loop :: "Autopilot \<Rightarrow> ServerID \<Rightarrow> raft_Server list \<Rightarrow> hist \<Rightarrow> go_error option \<times> hist" where
  "RemoveServer_loop a i [] h = (None, h)"
| "RemoveServer_loop a i (server # servers) h =
     (if rs_ID server = i then removeServer a (rs_ID server) h else RemoveServer_loop a i servers h)"

definition RemoveServer :: "Autopilot \<Rightarrow> ServerID \<Rightarrow> hist \<Rightarrow> go_error option \<times> hist" where
  "RemoveServer a i h =
     (case getRaftConfiguration a h of
        (Inl err, h) \<Rightarrow> (Some err, h)
      | (Inr cfg, h) \<Rightarrow> RemoveServer_loop a i (rc_Servers cfg) h)"

section \<open>AddServer\<close>

text \<open>The variables that the scan over the raft configuration fills in.\<close>

record add_scan =
  sc_existingVoter :: bool
  sc_voterRemovals :: "ServerID list"
  sc_nonVoterRemovals :: "ServerID list"
  sc_numVoters :: int

definition add_scan_zero :: add_scan where
  "add_scan_zero = \<lparr>sc_existingVoter = False, sc_voterRemovals = [], sc_nonVoterRemovals = [],
     sc_numVoters = 0\<rparr>"

text \<open>The scan; \<open>None\<close> is the early return for a server that is already there as it is.\<close>

fun AddServer_scan :: "Server \<Rightarrow> raft_Server list \<Rightarrow> add_scan \<Rightarrow> add_scan option" where
  "AddServer_scan s [] sc = Some sc"
| "AddServer_scan s (server # servers) sc =
     (let sc = (if rs_Suffrage server = raft_Voter
                then sc\<lparr>sc_numVoters := sc_numVoters sc + 1\<rparr> else sc)
      in if rs_Address server = srv_Address s \<and> rs_ID server = srv_ID s then None
         else if rs_ID server = srv_ID s then
           AddServer_scan s servers
             (if rs_Suffrage server = raft_Voter \<or> rs_Suffrage server = raft_Staging
              then sc\<lparr>sc_existingVoter := True\<rparr> else sc)
         else if rs_Address server = srv_Address s then
           AddServer_scan s servers
             (if rs_Suffrage server = raft_Voter
              then sc\<lparr>sc_voterRemovals := sc_voterRemovals sc @ [rs_ID server]\<rparr>
              else sc\<lparr>sc_nonVoterRemovals := sc_nonVoterRemovals sc @ [rs_ID server]\<rparr>)
         else AddServer_scan s servers sc)"

text \<open>The two loops that remove the servers with the new server's address.\<close>

fun removeDuplicates :: "Autopilot \<Rightarrow> ServerAddress \<Rightarrow> ServerID list \<Rightarrow> hist \<Rightarrow> go_error option \<times> hist" where
  "removeDuplicates a addr [] h = (None, h)"
| "removeDuplicates a addr (i # ids) h =
     (case removeServer a i h of
        (Some err, h) \<Rightarrow> (Some (ErrDuplicateAddress i addr err), h)
      | (None, h) \<Rightarrow> removeDuplicates a addr ids h)"

definition AddServer :: "Autopilot \<Rightarrow> Server \<Rightarrow> hist \<Rightarrow> (go_error option \<times> Autopilot) \<times> hist" where
  "AddServer a s h =
     (case getRaftConfiguration a h of
        (Inl err, h) \<Rightarrow> ((Some err, a), h)
      | (Inr cfg, h) \<Rightarrow>
          (case AddServer_scan s (rc_Servers cfg) add_scan_zero of
             None \<Rightarrow> ((None, a), h)
           | Some sc \<Rightarrow>
               let requiredVoters = requiredQuorum (sc_numVoters sc)
               in if sc_numVoters sc - requiredVoters < int (length (sc_voterRemovals sc))
                  then ((Some ErrTooManyRemovals, a), h)
                  else
                    (case removeDuplicates a (srv_Address s) (sc_voterRemovals sc) h of
                       (Some err, h) \<Rightarrow> ((Some err, a), h)
                     | (None, h) \<Rightarrow>
                         (case removeDuplicates a (srv_Address s) (sc_nonVoterRemovals sc) h of
                            (Some err, h) \<Rightarrow> ((Some err, a), h)
                          | (None, h) \<Rightarrow>
                              (case (if sc_existingVoter sc then addVoter a (srv_ID s) (srv_Address s) h
                                     else addNonVoter a (srv_ID s) (srv_Address s) h) of
                                 (Some err, h) \<Rightarrow> ((Some err, a), h)
                               | (None, h) \<Rightarrow> ((None, RemoveDeadServers a), h))))))"

section \<open>Calls and results of the wrappers\<close>

lemma wrapper_simps [simp]:
  "addNonVoter a i addr h = (r_AddNonvoter (ap_raft a) h i addr 0 0, h @ [CAddNonvoter i addr 0 0])"
  "addVoter a i addr h = (r_AddVoter (ap_raft a) h i addr 0 0, h @ [CAddVoter i addr 0 0])"
  "demoteVoter a i h = (r_DemoteVoter (ap_raft a) h i 0 0, h @ [CDemoteVoter i 0 0])"
  "removeServer a i h = (r_RemoveServer (ap_raft a) h i 0 0, h @ [CRemoveServer i 0 0])"
  by (simp_all add: addNonVoter_def addVoter_def demoteVoter_def removeServer_def split: option.split)

lemma getRaftConfiguration_cases:
  "getRaftConfiguration a h =
     (case cf_Error (r_GetConfiguration (ap_raft a) h) of
        Some err \<Rightarrow> Inl err | None \<Rightarrow> Inr (cf_Configuration (r_GetConfiguration (ap_raft a) h)),
      h @ [CGetConfiguration])"
  by (simp add: getRaftConfiguration_def Let_def split: option.split)

lemma snd_lastTerm [simp]: "snd (lastTerm a h) = h @ [CStats]"
  by (simp add: lastTerm_def Let_def split: sum.split)

lemma requiredQuorum_eq: "0 \<le> n \<Longrightarrow> requiredQuorum n = n div 2 + 1"
  by (simp add: requiredQuorum_def go_div_two)

text \<open>Two sets of at least \<open>requiredQuorum\<close> voters always meet, and no smaller number does.\<close>

lemma requiredQuorum_majority: "0 \<le> n \<Longrightarrow> n < 2 * requiredQuorum n"
  by (simp add: requiredQuorum_eq)

lemma requiredQuorum_least: "0 \<le> n \<Longrightarrow> n < 2 * q \<Longrightarrow> requiredQuorum n \<le> q"
  by (simp add: requiredQuorum_eq)

text \<open>The raft servers of the configuration that the next \<open>GetConfiguration\<close> returns.\<close>

abbreviation conf_of :: "Autopilot \<Rightarrow> hist \<Rightarrow> raft_Server list" where
  "conf_of a h \<equiv> rc_Servers (cf_Configuration (r_GetConfiguration (ap_raft a) h))"

abbreviation conf_ok :: "Autopilot \<Rightarrow> hist \<Rightarrow> bool" where
  "conf_ok a h \<equiv> cf_Error (r_GetConfiguration (ap_raft a) h) = None"

definition is_voter :: "raft_Server \<Rightarrow> bool" where
  "is_voter s \<longleftrightarrow> rs_Suffrage s = raft_Voter"

lemma numVoters_loop_eq: "numVoters_loop n srvs = n + int (length (filter is_voter srvs))"
  by (induction n srvs rule: numVoters_loop.induct) (auto simp: is_voter_def)

text \<open>
  \<open>NumVoters\<close> counts exactly the servers with voting suffrage in a freshly read raft
  configuration, ignoring any autopilot state, and hands an error of raft through unchanged.
\<close>

theorem NumVoters_counts:
  "NumVoters a h =
     (case cf_Error (r_GetConfiguration (ap_raft a) h) of
        Some err \<Rightarrow> (0, Some err)
      | None \<Rightarrow> (int (length (filter is_voter (conf_of a h))), None),
      h @ [CGetConfiguration])"
  by (simp add: NumVoters_def getRaftConfiguration_cases numVoters_loop_eq split: option.split)

lemma RemoveServer_loop_eq:
  "RemoveServer_loop a i srvs h =
     (if i \<in> rs_ID ` set srvs then removeServer a i h else (None, h))"
  by (induction srvs) auto

text \<open>
  \<open>RemoveServer\<close> asks raft to remove a server exactly when the freshly read configuration
  contains it, asks once, and returns raft's answer; for an unknown id it succeeds and changes
  nothing.
\<close>

theorem RemoveServer_iff_member:
  "RemoveServer a i h =
     (case cf_Error (r_GetConfiguration (ap_raft a) h) of
        Some err \<Rightarrow> (Some err, h @ [CGetConfiguration])
      | None \<Rightarrow>
          if i \<in> rs_ID ` set (conf_of a h)
          then (r_RemoveServer (ap_raft a) (h @ [CGetConfiguration]) i 0 0,
                h @ [CGetConfiguration, CRemoveServer i 0 0])
          else (None, h @ [CGetConfiguration]))"
  by (simp add: RemoveServer_def getRaftConfiguration_cases RemoveServer_loop_eq split: option.split)

section \<open>What AddServer does\<close>

definition same_server :: "Server \<Rightarrow> raft_Server \<Rightarrow> bool" where
  "same_server s r \<longleftrightarrow> rs_ID r = srv_ID s \<and> rs_Address r = srv_Address s"

definition address_clash :: "Server \<Rightarrow> raft_Server \<Rightarrow> bool" where
  "address_clash s r \<longleftrightarrow> rs_ID r \<noteq> srv_ID s \<and> rs_Address r = srv_Address s"

definition scan_result :: "Server \<Rightarrow> raft_Server list \<Rightarrow> add_scan \<Rightarrow> add_scan" where
  "scan_result s srvs sc =
     \<lparr>sc_existingVoter = (sc_existingVoter sc \<or>
        (\<exists>r \<in> set srvs. rs_ID r = srv_ID s \<and> rs_Suffrage r \<in> {raft_Voter, raft_Staging})),
      sc_voterRemovals = sc_voterRemovals sc @
        map rs_ID (filter (\<lambda>r. address_clash s r \<and> is_voter r) srvs),
      sc_nonVoterRemovals = sc_nonVoterRemovals sc @
        map rs_ID (filter (\<lambda>r. address_clash s r \<and> \<not> is_voter r) srvs),
      sc_numVoters = sc_numVoters sc + int (length (filter is_voter srvs))\<rparr>"

lemma AddServer_scan_eq:
  "AddServer_scan s srvs sc =
     (if \<exists>r \<in> set srvs. same_server s r then None else Some (scan_result s srvs sc))"
proof (induction srvs arbitrary: sc)
  case Nil
  then show ?case by (simp add: scan_result_def)
next
  case (Cons r srvs)
  show ?case
    by (simp add: Cons.IH Let_def)
      (auto simp: same_server_def scan_result_def address_clash_def is_voter_def)
qed

abbreviation rm_call :: "ServerID \<Rightarrow> call" where
  "rm_call i \<equiv> CRemoveServer i 0 0"

lemma removeDuplicates_calls:
  "\<exists>pre. prefix pre ids \<and> snd (removeDuplicates a addr ids h) = h @ map rm_call pre \<and>
     (fst (removeDuplicates a addr ids h) = None \<longrightarrow> pre = ids)"
proof (induction ids arbitrary: h)
  case (Cons i ids)
  show ?case
  proof (cases "r_RemoveServer (ap_raft a) h i 0 0")
    case None
    obtain pre where "prefix pre ids"
      "snd (removeDuplicates a addr ids (h @ [rm_call i])) = (h @ [rm_call i]) @ map rm_call pre"
      "fst (removeDuplicates a addr ids (h @ [rm_call i])) = None \<longrightarrow> pre = ids"
      using Cons.IH by blast
    with None show ?thesis by (intro exI [of _ "i # pre"]) simp
  next
    case (Some err)
    then show ?thesis by (intro exI [of _ "[i]"]) simp
  qed
qed simp


abbreviation voter_clashes :: "Server \<Rightarrow> raft_Server list \<Rightarrow> ServerID list" where
  "voter_clashes s srvs \<equiv> map rs_ID (filter (\<lambda>r. address_clash s r \<and> is_voter r) srvs)"

abbreviation nonvoter_clashes :: "Server \<Rightarrow> raft_Server list \<Rightarrow> ServerID list" where
  "nonvoter_clashes s srvs \<equiv> map rs_ID (filter (\<lambda>r. address_clash s r \<and> \<not> is_voter r) srvs)"

abbreviation voter_count :: "raft_Server list \<Rightarrow> int" where
  "voter_count srvs \<equiv> int (length (filter is_voter srvs))"

text \<open>The call that finally adds the server.\<close>

definition add_call :: "Server \<Rightarrow> raft_Server list \<Rightarrow> call" where
  "add_call s srvs =
     (if \<exists>r \<in> set srvs. rs_ID r = srv_ID s \<and> rs_Suffrage r \<in> {raft_Voter, raft_Staging}
      then CAddVoter (srv_ID s) (srv_Address s) 0 0 else CAddNonvoter (srv_ID s) (srv_Address s) 0 0)"

lemma AddServer_early:
  "cf_Error (r_GetConfiguration (ap_raft a) h) = Some err \<Longrightarrow>
     AddServer a s h = ((Some err, a), h @ [CGetConfiguration])"
  "conf_ok a h \<Longrightarrow> \<exists>r \<in> set (conf_of a h). same_server s r \<Longrightarrow>
     AddServer a s h = ((None, a), h @ [CGetConfiguration])"
  "conf_ok a h \<Longrightarrow> \<forall>r \<in> set (conf_of a h). \<not> same_server s r \<Longrightarrow>
     voter_count (conf_of a h) - requiredQuorum (voter_count (conf_of a h))
       < int (length (voter_clashes s (conf_of a h))) \<Longrightarrow>
     AddServer a s h = ((Some ErrTooManyRemovals, a), h @ [CGetConfiguration])"
  by (simp_all add: AddServer_def getRaftConfiguration_cases AddServer_scan_eq scan_result_def
      add_scan_zero_def)

text \<open>The rest of \<open>AddServer\<close>, once the scan has accepted the removals.\<close>

lemma removals_then_add:
  assumes add: "\<And>h. snd (add h) = h @ [c]"
  shows "\<exists>pre adds e.
    (case removeDuplicates a addr vs h of
       (Some err, h) \<Rightarrow> ((Some err, a), h)
     | (None, h) \<Rightarrow>
         (case removeDuplicates a addr ns h of
            (Some err, h) \<Rightarrow> ((Some err, a), h)
          | (None, h) \<Rightarrow>
              (case add h of (Some err, h) \<Rightarrow> ((Some err, a), h) | (None, h) \<Rightarrow> ((None, b), h)))) =
      ((e, if e = None then b else a), h @ map rm_call pre @ adds) \<and>
    prefix pre (vs @ ns) \<and> (adds = [] \<or> adds = [c] \<and> pre = vs @ ns) \<and> (e = None \<longrightarrow> adds \<noteq> [])"
proof -
  let ?rm = "removeDuplicates a addr"
  obtain e1 h2 where r1: "?rm vs h = (e1, h2)" by fastforce
  obtain e2 h3 where r2: "?rm ns h2 = (e2, h3)" by fastforce
  obtain e3 h4 where r3: "add h3 = (e3, h4)" by fastforce
  obtain p1 where p1: "prefix p1 vs" "h2 = h @ map rm_call p1" "e1 = None \<longrightarrow> p1 = vs"
    using removeDuplicates_calls [of vs a addr h] r1 by auto
  obtain p2 where p2: "prefix p2 ns" "h3 = h2 @ map rm_call p2" "e2 = None \<longrightarrow> p2 = ns"
    using removeDuplicates_calls [of ns a addr h2] r2 by auto
  have h4: "h4 = h3 @ [c]" using add [of h3] r3 by simp
  consider (first) err where "e1 = Some err" | (second) err where "e1 = None" "e2 = Some err"
    | (third) "e1 = None" "e2 = None" by (cases e1; cases e2) auto
  then show ?thesis
  proof cases
    case first
    then show ?thesis
      by (intro exI [of _ p1] exI [of _ "[]"] exI [of _ e1]) (simp add: r1 p1)
  next
    case second
    then have "?rm ns (h @ map rm_call vs) = (e2, h3)" using r2 p1 by simp
    with second show ?thesis
      by (intro exI [of _ "vs @ p2"] exI [of _ "[]"] exI [of _ e2]) (simp add: r1 p1 p2)
  next
    case third
    then have "?rm ns (h @ map rm_call vs) = (e2, h3)" "add (h @ map rm_call vs @ map rm_call ns) = (e3, h4)"
      using r2 r3 p1 p2 by simp_all
    with third show ?thesis
      by (intro exI [of _ "vs @ ns"] exI [of _ "[c]"] exI [of _ e3])
        (simp add: r1 p1 p2 h4 split: option.split)
  qed
qed

lemma AddServer_late:
  assumes "conf_ok a h" "\<forall>r \<in> set (conf_of a h). \<not> same_server s r"
    "int (length (voter_clashes s (conf_of a h)))
      \<le> voter_count (conf_of a h) - requiredQuorum (voter_count (conf_of a h))"
  shows "\<exists>pre adds e. AddServer a s h = ((e, if e = None then RemoveDeadServers a else a),
           (h @ [CGetConfiguration]) @ map rm_call pre @ adds) \<and>
         prefix pre (voter_clashes s (conf_of a h) @ nonvoter_clashes s (conf_of a h)) \<and>
         (adds = [] \<or> adds = [add_call s (conf_of a h)] \<and>
            pre = voter_clashes s (conf_of a h) @ nonvoter_clashes s (conf_of a h)) \<and>
         (e = None \<longrightarrow> adds \<noteq> [])"
proof -
  let ?sc = "scan_result s (conf_of a h) add_scan_zero"
  have scan: "AddServer_scan s (conf_of a h) add_scan_zero = Some ?sc"
    using assms by (simp add: AddServer_scan_eq)
  have guard: "\<not> sc_numVoters ?sc - requiredQuorum (sc_numVoters ?sc)
      < int (length (sc_voterRemovals ?sc))"
    using assms by (simp add: scan_result_def add_scan_zero_def)
  have lists: "voter_clashes s (conf_of a h) = sc_voterRemovals ?sc"
    "nonvoter_clashes s (conf_of a h) = sc_nonVoterRemovals ?sc"
    by (simp_all add: scan_result_def add_scan_zero_def)
  show ?thesis
    unfolding lists AddServer_def getRaftConfiguration_cases assms(1) option.case prod.case
      sum.case scan Let_def if_not_P [OF guard]
    by (rule removals_then_add) (simp add: scan_result_def add_scan_zero_def add_call_def)
qed

text \<open>All outcomes for a readable configuration that does not hold the server as it is.\<close>

lemma AddServer_outcome:
  assumes "conf_ok a h" "\<forall>r \<in> set (conf_of a h). \<not> same_server s r"
  shows "\<exists>pre adds e. AddServer a s h = ((e, if e = None then RemoveDeadServers a else a),
           (h @ [CGetConfiguration]) @ map rm_call pre @ adds) \<and>
         prefix pre (voter_clashes s (conf_of a h) @ nonvoter_clashes s (conf_of a h)) \<and>
         (adds = [] \<or> adds = [add_call s (conf_of a h)] \<and>
            pre = voter_clashes s (conf_of a h) @ nonvoter_clashes s (conf_of a h)) \<and>
         (e = None \<longrightarrow> adds \<noteq> []) \<and>
         (pre = [] \<and> adds = [] \<or> int (length (voter_clashes s (conf_of a h)))
            \<le> voter_count (conf_of a h) - requiredQuorum (voter_count (conf_of a h)))"
proof (cases "int (length (voter_clashes s (conf_of a h)))
      \<le> voter_count (conf_of a h) - requiredQuorum (voter_count (conf_of a h))")
  case True
  with AddServer_late [OF assms True] show ?thesis by blast
next
  case False
  then show ?thesis
    using AddServer_early(3) [OF assms]
    by (intro exI [of _ "[]"] exI [of _ "[]"] exI [of _ "Some ErrTooManyRemovals"]) simp
qed

interpretation getconf: logged "getRaftConfiguration a" for a
  by unfold_locales (simp add: getRaftConfiguration_cases)

interpretation numvoters: logged "NumVoters a" for a
  by unfold_locales (simp add: NumVoters_def getRaftConfiguration_cases split: option.split)

interpretation addserver: logged "AddServer a s" for a s
proof unfold_locales
  fix h
  consider (err) err where "cf_Error (r_GetConfiguration (ap_raft a) h) = Some err"
    | (there) "conf_ok a h" "\<exists>r \<in> set (conf_of a h). same_server s r"
    | (new) "conf_ok a h" "\<forall>r \<in> set (conf_of a h). \<not> same_server s r" by blast
  then show "prefix h (snd (AddServer a s h))"
  proof cases
    case new
    then show ?thesis using AddServer_outcome [OF new] by (auto simp del: append_assoc)
  qed (simp_all add: AddServer_early)
qed

lemma rm_call_in [simp]: "rm_call i \<in> rm_call ` A \<longleftrightarrow> i \<in> A"
  by auto

lemma add_call_neq_rm [simp]: "rm_call i \<noteq> add_call s srvs"
  by (simp add: add_call_def)

text \<open>
  Adding a server that raft already has with the same id and address does nothing: it
  succeeds, asks raft for no change and triggers no clean-up.
\<close>

theorem AddServer_already_there:
  assumes "conf_ok a h" "\<exists>r \<in> set (conf_of a h). same_server s r"
  shows "AddServer a s h = ((None, a), h @ [CGetConfiguration])"
  using AddServer_early(2) [OF assms] .

lemma AddServer_voters_left:
  assumes ok: "conf_ok a h" and ids: "distinct (map rs_ID (conf_of a h))"
    and new: "\<forall>r \<in> set (conf_of a h). \<not> same_server s r"
  shows "(\<forall>i. rm_call i \<notin> set (calls (AddServer a s) h)) \<or>
      requiredQuorum (voter_count (conf_of a h)) \<le>
        voter_count (filter (\<lambda>r. rm_call (rs_ID r) \<notin> set (calls (AddServer a s) h)) (conf_of a h))"
proof -
  let ?srvs = "conf_of a h" and ?cs = "calls (AddServer a s) h"
  let ?hit = "\<lambda>r. rm_call (rs_ID r) \<in> set ?cs"
  obtain pre adds e where out: "AddServer a s h = (e, (h @ [CGetConfiguration]) @ map rm_call pre @ adds)"
    and pre: "prefix pre (voter_clashes s ?srvs @ nonvoter_clashes s ?srvs)"
    and adds: "adds = [] \<or> adds = [add_call s ?srvs]"
    and cap: "pre = [] \<and> adds = [] \<or>
      int (length (voter_clashes s ?srvs)) \<le> voter_count ?srvs - requiredQuorum (voter_count ?srvs)"
    using AddServer_outcome [OF ok new] by (metis (no_types, lifting))
  have cs: "?cs = CGetConfiguration # map rm_call pre @ adds"
    by (simp add: calls_def out)
  have hit: "?hit r \<longleftrightarrow> rs_ID r \<in> set pre" for r
    using adds by (auto simp: cs)
  show ?thesis
  proof (cases "pre = []")
    case True
    then have "\<forall>i. rm_call i \<notin> set ?cs" using adds by (auto simp: cs)
    then show ?thesis by blast
  next
    case nonempty: False
    have sub: "set pre \<subseteq> rs_ID ` {r \<in> set ?srvs. address_clash s r}"
      using set_mono_prefix [OF pre] by auto
    have "filter (\<lambda>r. ?hit r \<and> is_voter r) ?srvs = filter (\<lambda>r. ?hit r \<and> is_voter r \<and> address_clash s r) ?srvs"
      using sub ids by (auto simp: hit distinct_map inj_on_def intro!: filter_cong)
    then have "length (filter (\<lambda>r. ?hit r \<and> is_voter r) ?srvs) \<le> length (voter_clashes s ?srvs)"
      by (simp add: conj_commute conj_left_commute flip: filter_filter)
    moreover have "length (filter is_voter ?srvs) =
        length (filter (\<lambda>r. ?hit r \<and> is_voter r) ?srvs) +
        length (filter is_voter (filter (\<lambda>r. \<not> ?hit r) ?srvs))"
      using sum_length_filter_compl [of ?hit "filter is_voter ?srvs"] by (simp add: conj_commute)
    ultimately have "requiredQuorum (voter_count ?srvs) \<le> voter_count (filter (\<lambda>r. \<not> ?hit r) ?srvs)"
      using cap nonempty by linarith
    then show ?thesis by blast
  qed
qed

text \<open>
  C1: \<open>AddServer\<close> never removes so many voters with the new server's address that the remaining
  voters of the configuration it read are fewer than a quorum of it. Where the voters that would
  have to go are more than the voters beyond a quorum, and the server is not there already as it
  is, it fails with an error, after reading the configuration and without any other call: it
  removes none of them and adds nothing.
\<close>

theorem AddServer_keeps_quorum:
  assumes ok: "conf_ok a h" and ids: "distinct (map rs_ID (conf_of a h))"
  shows "((\<forall>i. rm_call i \<notin> set (calls (AddServer a s) h)) \<or>
      requiredQuorum (voter_count (conf_of a h)) \<le>
        voter_count (filter (\<lambda>r. rm_call (rs_ID r) \<notin> set (calls (AddServer a s) h)) (conf_of a h))) \<and>
    ((\<forall>r \<in> set (conf_of a h). \<not> same_server s r) \<and>
       voter_count (conf_of a h) - requiredQuorum (voter_count (conf_of a h))
         < int (length (voter_clashes s (conf_of a h))) \<longrightarrow>
     AddServer a s h = ((Some ErrTooManyRemovals, a), h @ [CGetConfiguration]))"
proof (cases "\<exists>r \<in> set (conf_of a h). same_server s r")
  case True
  then have "\<forall>i. rm_call i \<notin> set (calls (AddServer a s) h)"
    using AddServer_early(2) [OF ok] by (simp add: calls_def)
  with True show ?thesis by blast
next
  case False
  then have new: "\<forall>r \<in> set (conf_of a h). \<not> same_server s r" by blast
  show ?thesis using AddServer_voters_left [OF ok ids new] AddServer_early(3) [OF ok new] by blast
qed

text \<open>
  C32: when \<open>AddServer\<close> succeeds for a server that was not there as it is, it has removed exactly
  the servers with a clashing address, voters first, then added the server with its new address,
  as a voter if the configuration had its id as a voter or staging server and as a non-voter
  otherwise, and has left one trigger for the removal of dead servers.
\<close>

theorem AddServer_success:
  assumes "conf_ok a h" "\<forall>r \<in> set (conf_of a h). \<not> same_server s r"
    and "fst (AddServer a s h) = (None, a')"
  shows "calls (AddServer a s) h =
      CGetConfiguration # map rm_call (voter_clashes s (conf_of a h) @ nonvoter_clashes s (conf_of a h))
        @ [add_call s (conf_of a h)] \<and> a' = RemoveDeadServers a"
  using AddServer_outcome [OF assms(1,2)] assms(3) by (auto simp: calls_def)

text \<open>
  An \<open>AddServer\<close> that fails leaves the Autopilot as it was; in particular it triggers no
  removal of dead servers.
\<close>

theorem AddServer_failure_no_trigger:
  assumes "fst (AddServer a s h) = (Some err, a')"
  shows "a' = a"
proof (cases "conf_ok a h \<and> (\<forall>r \<in> set (conf_of a h). \<not> same_server s r)")
  case True
  then show ?thesis using AddServer_outcome [of a h s] assms by auto
next
  case False
  then consider err where "cf_Error (r_GetConfiguration (ap_raft a) h) = Some err"
    | "conf_ok a h" "\<exists>r \<in> set (conf_of a h). same_server s r" by auto
  then show ?thesis using assms by cases (simp_all add: AddServer_early)
qed

text \<open>
  For a configuration without any voter, \<open>AddServer\<close> refuses every new server with the
  message that too many servers would have to be removed, although none would.
\<close>

theorem AddServer_no_voters:
  assumes "conf_ok a h" "\<forall>r \<in> set (conf_of a h). \<not> same_server s r"
    and "\<forall>r \<in> set (conf_of a h). \<not> is_voter r"
  shows "AddServer a s h = ((Some ErrTooManyRemovals, a), h @ [CGetConfiguration]) \<and>
    voter_clashes s (conf_of a h) = []"
proof -
  have none: "filter is_voter (conf_of a h) = []" "voter_clashes s (conf_of a h) = []"
    using assms(3) by (auto simp: filter_empty_conv)
  show ?thesis
    using AddServer_early(3) [OF assms(1,2)] by (simp add: none requiredQuorum_eq del: map_is_Nil_conv)
qed

section \<open>Witnesses\<close>

definition sample_srvs :: "raft_Server list" where
  "sample_srvs =
     [\<lparr>rs_Suffrage = raft_Voter, rs_ID = ''a'', rs_Address = ''x''\<rparr>,
      \<lparr>rs_Suffrage = raft_Voter, rs_ID = ''b'', rs_Address = ''y''\<rparr>,
      \<lparr>rs_Suffrage = raft_Voter, rs_ID = ''c'', rs_Address = ''z''\<rparr>,
      \<lparr>rs_Suffrage = raft_Nonvoter, rs_ID = ''d'', rs_Address = ''y''\<rparr>]"

abbreviation sample_ap :: Autopilot where
  "sample_ap \<equiv> sample_autopilot sample_srvs [] no_changes"

lemma sample_conf_of [simp]:
  "conf_ok (sample_autopilot srvs known changes) h"
  "conf_of (sample_autopilot srvs known changes) h = srvs"
  by (simp_all add: sample_env_defs)

lemmas sample_add_defs = sample_srvs_def sample_server_def same_server_def address_clash_def
  is_voter_def add_call_def

theorem AddServer_already_there_witness:
  "AddServer sample_ap (sample_server ''a'' ''x'' NodeAlive) [] = ((None, sample_ap), [CGetConfiguration])"
  using AddServer_already_there [of sample_ap "[]" "sample_server ''a'' ''x'' NodeAlive"]
  by (simp add: sample_add_defs)

theorem AddServer_keeps_quorum_witness:
  "((\<forall>i. rm_call i \<notin> set (calls (AddServer sample_ap (sample_server ''n'' ''y'' NodeAlive)) [])) \<or>
    requiredQuorum (voter_count sample_srvs) \<le>
      voter_count (filter (\<lambda>r. rm_call (rs_ID r) \<notin>
        set (calls (AddServer sample_ap (sample_server ''n'' ''y'' NodeAlive)) [])) sample_srvs)) \<and>
   AddServer (sample_autopilot [sample_srvs ! 0] [] no_changes) (sample_server ''n'' ''x'' NodeAlive) [] =
     ((Some ErrTooManyRemovals, sample_autopilot [sample_srvs ! 0] [] no_changes), [CGetConfiguration])"
proof -
  let ?a = "sample_autopilot [sample_srvs ! 0] [] no_changes"
  have "distinct (map rs_ID (conf_of sample_ap []))" "distinct (map rs_ID (conf_of ?a []))"
    by (simp_all add: sample_srvs_def)
  from conjunct1 [OF AddServer_keeps_quorum [OF sample_conf_of(1) this(1)]]
    conjunct2 [OF AddServer_keeps_quorum [OF sample_conf_of(1) this(2)], of "sample_server ''n'' ''x'' NodeAlive"]
  show ?thesis by (simp add: sample_add_defs requiredQuorum_eq)
qed

theorem AddServer_success_witness:
  "calls (AddServer sample_ap (sample_server ''n'' ''y'' NodeAlive)) [] =
     [CGetConfiguration, rm_call ''b'', rm_call ''d'', CAddNonvoter ''n'' ''y'' 0 0]"
proof -
  let ?s = "sample_server ''n'' ''y'' NodeAlive"
  have "fst (AddServer sample_ap ?s []) = (None, RemoveDeadServers sample_ap)"
    by (simp add: AddServer_def getRaftConfiguration_cases AddServer_scan_eq scan_result_def
        add_scan_zero_def sample_add_defs requiredQuorum_eq)
      (simp add: sample_env_defs)
  then show ?thesis
    using AddServer_success [of sample_ap "[]" ?s] by (simp add: sample_add_defs)
qed

theorem AddServer_failure_no_trigger_witness:
  "fst (AddServer (sample_autopilot [] [] no_changes) (sample_server ''n'' ''y'' NodeAlive) []) =
     (Some ErrTooManyRemovals, sample_autopilot [] [] no_changes)"
proof -
  let ?a = "sample_autopilot [] [] no_changes" and ?s = "sample_server ''n'' ''y'' NodeAlive"
  obtain a' where res: "fst (AddServer ?a ?s []) = (Some ErrTooManyRemovals, a')"
    using AddServer_early(3) [of ?a "[]" ?s] by (simp add: requiredQuorum_eq)
  from AddServer_failure_no_trigger [OF res] res show ?thesis by simp
qed

theorem AddServer_no_voters_witness:
  "fst (fst (AddServer (sample_autopilot [sample_srvs ! 3] [] no_changes)
     (sample_server ''n'' ''w'' NodeAlive) [])) = Some ErrTooManyRemovals"
  using AddServer_no_voters [of "sample_autopilot [sample_srvs ! 3] [] no_changes" "[]"
      "sample_server ''n'' ''w'' NodeAlive"]
  by (simp add: sample_add_defs)

section \<open>Reading the last term\<close>

text \<open>
  C37: \<open>lastTerm\<close> reads back the term that raft reports: for every 64-bit number in decimal
  notation under the key \<open>last_log_term\<close> it returns that number. It returns a term only for a
  non-empty string of digits that denotes a 64-bit number, so that a missing key, a sign, another
  character and an overflow are all errors, and it always makes the one call for the statistics.
\<close>

theorem lastTerm_roundtrip:
  assumes "n < 2 ^ 64"
  shows "(map_of (r_Stats (ap_raft a) h) ''last_log_term'' = Some (FormatUint n) \<longrightarrow>
      lastTerm a h = (Inr (of_nat n), h @ [CStats])) \<and>
    (fst (lastTerm a h) = Inr t \<longleftrightarrow>
      (\<exists>s. map_of (r_Stats (ap_raft a) h) ''last_log_term'' = Some s \<and> s \<noteq> [] \<and>
        (\<forall>c \<in> set s. is_digit c) \<and> decimal 0 s < 2 ^ 64 \<and> unat t = decimal 0 s))"
proof
  show "map_of (r_Stats (ap_raft a) h) ''last_log_term'' = Some (FormatUint n) \<longrightarrow>
      lastTerm a h = (Inr (of_nat n), h @ [CStats])"
    using ParseUint_FormatUint [OF assms] by (simp add: lastTerm_def Let_def)
  let ?s = "case map_of (r_Stats (ap_raft a) h) ''last_log_term'' of Some s \<Rightarrow> s | None \<Rightarrow> []"
  have "fst (lastTerm a h) = Inr t \<longleftrightarrow> ParseUint ?s = Inr t"
    unfolding lastTerm_def Let_def by (cases "ParseUint ?s") simp_all
  then show "fst (lastTerm a h) = Inr t \<longleftrightarrow>
      (\<exists>s. map_of (r_Stats (ap_raft a) h) ''last_log_term'' = Some s \<and> s \<noteq> [] \<and>
        (\<forall>c \<in> set s. is_digit c) \<and> decimal 0 s < 2 ^ 64 \<and> unat t = decimal 0 s)"
    unfolding ParseUint_Inr by (cases "map_of (r_Stats (ap_raft a) h) ''last_log_term''") simp_all
qed

theorem lastTerm_roundtrip_witness:
  "lastTerm (sample_ap\<lparr>ap_raft := (ap_raft sample_ap)\<lparr>r_Stats := (\<lambda>_. [(''last_log_term'', FormatUint 812)])\<rparr>\<rparr>) [] =
     (Inr 812, [CStats])"
  using conjunct1 [OF lastTerm_roundtrip [of 812]] by simp

end
