(* ===== verification/AP_Build.thy ===== *)
theory AP_Build
  imports AP_Order AP_Raft
begin

text \<open>
  State building (state.go): \<open>aliveServers\<close>, \<open>getCurrentServerState\<close>, \<open>buildServerState\<close>,
  \<open>nextServers\<close>, \<open>nextStateWithInputs\<close>. The local variable \<open>previousHealthy\<close> of
  \<open>buildServerState\<close> is a pointer to a field of the state being built, so the model keeps the
  pointer and dereferences it against the state at the time of the comparison. Loops over the
  map of new servers visit its entries in the order that \<open>rng\<close> picks.
\<close>

section \<open>Inputs\<close>

record nextStateInputs =
  in_Now :: Time
  in_FirstStateTime :: Time
  in_Config :: Config
  in_RaftConfig :: raft_Configuration
  in_KnownServers :: "(ServerID, Server) gomap"
  in_LatestIndex :: uint64
  in_LastTerm :: uint64
  in_FetchedStats :: "(ServerID, ServerStats) gomap"
  in_LeaderID :: ServerID
  in_IsLeader :: bool
  in_CurrentState :: "State option"

definition getCurrentServerState :: "nextStateInputs \<Rightarrow> ServerID \<Rightarrow> ServerState option" where
  "getCurrentServerState i sid =
     (case in_CurrentState i of
        None \<Rightarrow> None
      | Some cur \<Rightarrow> if st_Servers cur = [] then None else map_of (st_Servers cur) sid)"

fun aliveServers_loop :: "(ServerID, Server) gomap \<Rightarrow> (ServerID, Server) gomap \<Rightarrow> (ServerID, Server) gomap" where
  "aliveServers_loop [] serverMap = serverMap"
| "aliveServers_loop ((i, server) # es) serverMap =
     (if srv_NodeStatus server = NodeLeft then aliveServers_loop es serverMap
      else aliveServers_loop es (AList.update (srv_ID server) server serverMap))"

definition aliveServers :: "(ServerID, Server) gomap \<Rightarrow> (ServerID, Server) gomap" where
  "aliveServers servers = aliveServers_loop servers []"

section \<open>Building one server\<close>

definition zero_Server :: Server where
  "zero_Server = \<lparr>srv_ID = [], srv_Name = [], srv_Address = [], srv_NodeStatus = NodeStatusOther [],
     srv_Version = [], srv_Meta = [], srv_RaftVersion = 0, srv_IsLeader = False,
     srv_NodeType = NodeTypeOther [], srv_Ext = None\<rparr>"

fun suffrage_state :: "Suffrage \<Rightarrow> RaftState" where
  "suffrage_state raft_Voter = RaftVoter"
| "suffrage_state raft_Nonvoter = RaftNonVoter"
| "suffrage_state raft_Staging = RaftStaging"
| "suffrage_state (raft_SuffrageOther _) = RaftNone"

definition base_state :: "raft_Server \<Rightarrow> ServerState" where
  "base_state srv =
     \<lparr>ss_Server = zero_Server\<lparr>srv_ID := rs_ID srv, srv_Address := rs_Address srv\<rparr>,
      ss_State = suffrage_state (rs_Suffrage srv),
      ss_Stats = \<lparr>stat_LastContact = 0, stat_LastTerm = 0, stat_LastIndex = 0\<rparr>,
      ss_Health = \<lparr>sh_Healthy = False, sh_StableSince = 0\<rparr>\<rparr>"

text \<open>The values of \<open>previousHealthy\<close>: nil, or the address of \<open>state.Health.Healthy\<close>.\<close>

datatype healthy_ptr = NilPtr | AddrOfHealthy

fun deref_healthy :: "healthy_ptr \<Rightarrow> ServerState \<Rightarrow> bool option" where
  "deref_healthy NilPtr state = None"
| "deref_healthy AddrOfHealthy state = Some (sh_Healthy (ss_Health state))"

definition take_existing :: "nextStateInputs \<Rightarrow> raft_Server \<Rightarrow> ServerState \<Rightarrow> ServerState \<times> healthy_ptr" where
  "take_existing inputs srv state =
     (case getCurrentServerState inputs (rs_ID srv) of
        None \<Rightarrow> (state, NilPtr)
      | Some existing \<Rightarrow>
          (state\<lparr>ss_Stats := ss_Stats existing, ss_Health := ss_Health existing,
                 ss_Server := (ss_Server existing)\<lparr>srv_Address := rs_Address srv\<rparr>\<rparr>,
           AddrOfHealthy))"

definition take_known :: "nextStateInputs \<Rightarrow> raft_Server \<Rightarrow> ServerState \<Rightarrow> ServerState" where
  "take_known inputs srv state =
     (case map_of (in_KnownServers inputs) (rs_ID srv) of
        Some known \<Rightarrow> state\<lparr>ss_Server := known\<lparr>srv_Address := rs_Address srv\<rparr>\<rparr>
      | None \<Rightarrow> state\<lparr>ss_Server := (ss_Server state)\<lparr>srv_NodeStatus := NodeLeft\<rparr>\<rparr>)"

definition take_leader :: "nextStateInputs \<Rightarrow> raft_Server \<Rightarrow> ServerState \<Rightarrow> ServerState" where
  "take_leader inputs srv state =
     (if rs_ID srv = in_LeaderID inputs
      then state\<lparr>ss_State := RaftLeader, ss_Server := (ss_Server state)\<lparr>srv_IsLeader := True\<rparr>\<rparr>
      else state)"

definition take_stats :: "nextStateInputs \<Rightarrow> raft_Server \<Rightarrow> ServerState \<Rightarrow> ServerState" where
  "take_stats inputs srv state =
     (case map_of (in_FetchedStats inputs) (rs_ID srv) of
        Some stats \<Rightarrow> state\<lparr>ss_Stats := stats\<rparr>
      | None \<Rightarrow> state)"

text \<open>The leader's last term and last index, both 0 when there is no leader to compare with.\<close>

definition leader_position :: "nextStateInputs \<Rightarrow> uint64 \<times> uint64" where
  "leader_position inputs =
     (if in_IsLeader inputs then (in_LastTerm inputs, in_LatestIndex inputs)
      else
        (case map_of (in_FetchedStats inputs) (in_LeaderID inputs) of
           Some leader \<Rightarrow> (stat_LastTerm leader, stat_LastIndex leader)
         | None \<Rightarrow> (0, 0)))"

definition buildServerState :: "nextStateInputs \<Rightarrow> raft_Server \<Rightarrow> ServerState" where
  "buildServerState inputs srv =
     (let state = base_state srv;
          (state, previousHealthy) = take_existing inputs srv state;
          state = take_known inputs srv state;
          state = take_leader inputs srv state;
          state = take_stats inputs srv state;
          (leaderLastTerm, leaderLastIndex) = leader_position inputs;
          state = state\<lparr>ss_Health := (ss_Health state)
            \<lparr>sh_Healthy := isHealthy state leaderLastTerm leaderLastIndex (in_Config inputs)\<rparr>\<rparr>
      in if previousHealthy = NilPtr \<or>
            deref_healthy previousHealthy state \<noteq> Some (sh_Healthy (ss_Health state))
         then state\<lparr>ss_Health := (ss_Health state)\<lparr>sh_StableSince := in_Now inputs\<rparr>\<rparr>
         else state)"

section \<open>Building the state\<close>

fun nextServers_loop :: "Autopilot \<Rightarrow> nextStateInputs \<Rightarrow> raft_Server list \<Rightarrow>
    (ServerID, ServerState) gomap \<Rightarrow> hist \<Rightarrow> (ServerID, ServerState) gomap \<times> hist" where
  "nextServers_loop a inputs [] newServers h = (newServers, h)"
| "nextServers_loop a inputs (srv # srvs) newServers h =
     (let state = buildServerState inputs srv;
          newExt = p_GetServerExt (ap_promoter a) h (in_Config inputs) state;
          h = h @ [CGetServerExt (in_Config inputs) state];
          state = (case newExt of
                     Some e \<Rightarrow> state\<lparr>ss_Server := (ss_Server state)\<lparr>srv_Ext := Some e\<rparr>\<rparr>
                   | None \<Rightarrow> state)
      in nextServers_loop a inputs srvs (AList.update (rs_ID srv) state newServers) h)"

definition nextServers :: "Autopilot \<Rightarrow> nextStateInputs \<Rightarrow> hist \<Rightarrow> (ServerID, ServerState) gomap \<times> hist" where
  "nextServers a inputs h = nextServers_loop a inputs (rc_Servers (in_RaftConfig inputs)) [] h"

text \<open>The loop over the new servers: overall health, leader, voters, and the two counters.\<close>

fun summary_loop :: "(ServerID, ServerState) gomap \<Rightarrow> State \<Rightarrow> int \<Rightarrow> int \<Rightarrow> State \<times> int \<times> int" where
  "summary_loop [] newState voterCount healthyVoters = (newState, voterCount, healthyVoters)"
| "summary_loop ((i, srv) # es) newState voterCount healthyVoters =
     (let newState = (if \<not> sh_Healthy (ss_Health srv) then newState\<lparr>st_Healthy := False\<rparr> else newState);
          newState = (if ss_State srv = RaftLeader then newState\<lparr>st_Leader := i\<rparr> else newState)
      in if ss_State srv = RaftLeader \<or> ss_State srv = RaftVoter
         then summary_loop es (newState\<lparr>st_Voters := st_Voters newState @ [i]\<rparr>) (voterCount + 1)
                (if sh_Healthy (ss_Health srv) then healthyVoters + 1 else healthyVoters)
         else summary_loop es newState voterCount healthyVoters)"

fun nodeTypes_loop :: "(ServerID, NodeType) gomap \<Rightarrow> (ServerID, ServerState) gomap \<Rightarrow> (ServerID, ServerState) gomap" where
  "nodeTypes_loop [] servers = servers"
| "nodeTypes_loop ((i, typ) # es) servers =
     nodeTypes_loop es
       (case map_of servers i of
          Some srv \<Rightarrow>
            AList.map_entry i (\<lambda>srv. srv\<lparr>ss_Server := (ss_Server srv)\<lparr>srv_NodeType := typ\<rparr>\<rparr>) servers
        | None \<Rightarrow> servers)"

definition nextStateWithInputs :: "(ServerID, ServerState) ranger \<Rightarrow> Autopilot \<Rightarrow> nextStateInputs \<Rightarrow>
    hist \<Rightarrow> (go_panic + State) \<times> hist" where
  "nextStateWithInputs rng a inputs h =
     (let (servers, h) = nextServers a inputs h;
          newState = zero_State\<lparr>st_firstStateTime := in_FirstStateTime inputs, st_Healthy := True,
                                st_Servers := servers\<rparr>;
          (newState, voterCount, healthyVoters) = summary_loop (rng servers) newState 0 0;
          required = requiredQuorum voterCount;
          newState = (if required < healthyVoters
                      then newState\<lparr>st_FailureTolerance := healthyVoters - required\<rparr> else newState);
          newExt = p_GetStateExt (ap_promoter a) h (in_Config inputs) newState;
          h = h @ [CGetStateExt (in_Config inputs) newState];
          newState = (case newExt of Some e \<Rightarrow> newState\<lparr>st_Ext := Some e\<rparr> | None \<Rightarrow> newState);
          types = p_GetNodeTypes (ap_promoter a) h (in_Config inputs) newState;
          h = h @ [CGetNodeTypes (in_Config inputs) newState];
          newState = newState\<lparr>st_Servers := nodeTypes_loop types (st_Servers newState)\<rparr>
      in case SortServers (st_Voters newState) newState of
           Inl p \<Rightarrow> (Inl p, h)
         | Inr voters \<Rightarrow> (Inr (newState\<lparr>st_Voters := voters\<rparr>), h))"

section \<open>One server: what the construction gives\<close>

lemmas build_defs = buildServerState_def base_state_def take_existing_def take_known_def
  take_leader_def take_stats_def zero_Server_def Let_def

lemma isHealthy_cong:
  "srv_NodeStatus (ss_Server s) = srv_NodeStatus (ss_Server t) \<Longrightarrow> ss_Stats s = ss_Stats t \<Longrightarrow>
   isHealthy s x y c = isHealthy t x y c"
  by (simp add: isHealthy_def)

text \<open>The statistics a server is judged by: fetched ones, else those of the last state, else none.\<close>

definition stats_of :: "nextStateInputs \<Rightarrow> ServerID \<Rightarrow> ServerStats" where
  "stats_of inputs i =
     (case map_of (in_FetchedStats inputs) i of
        Some stats \<Rightarrow> stats
      | None \<Rightarrow>
          (case getCurrentServerState inputs i of
             Some existing \<Rightarrow> ss_Stats existing
           | None \<Rightarrow> \<lparr>stat_LastContact = 0, stat_LastTerm = 0, stat_LastIndex = 0\<rparr>))"

lemma build_fields:
  fixes inputs srv
  defines "b \<equiv> buildServerState inputs srv"
  shows "srv_Address (ss_Server b) = rs_Address srv \<and>
    ss_State b = (if rs_ID srv = in_LeaderID inputs then RaftLeader
                  else suffrage_state (rs_Suffrage srv)) \<and>
    srv_NodeStatus (ss_Server b) =
      (case map_of (in_KnownServers inputs) (rs_ID srv) of
         Some known \<Rightarrow> srv_NodeStatus known | None \<Rightarrow> NodeLeft) \<and>
    ss_Stats b = stats_of inputs (rs_ID srv) \<and>
    sh_Healthy (ss_Health b) =
      isHealthy b (fst (leader_position inputs)) (snd (leader_position inputs)) (in_Config inputs)"
  unfolding b_def
  by (simp add: build_defs stats_of_def split: option.split prod.split)
    (auto simp: isHealthy_def)

text \<open>
  A server state is built from its sources in their order of precedence. The address is
  always raft's. The raft state is the suffrage of the raft configuration, except that the leader
  is marked as such. Details come from the application where it knows the server; a server that
  it does not know has node status left. Statistics come from the fetch, else from the previous
  state. The health flag is \<open>isHealthy\<close> of exactly this result against the leader's position.
\<close>

theorem buildServerState_fields:
  fixes inputs srv
  defines "b \<equiv> buildServerState inputs srv"
  shows "srv_Address (ss_Server b) = rs_Address srv \<and>
    ss_State b = (if rs_ID srv = in_LeaderID inputs then RaftLeader
                  else suffrage_state (rs_Suffrage srv)) \<and>
    srv_NodeStatus (ss_Server b) =
      (case map_of (in_KnownServers inputs) (rs_ID srv) of
         Some known \<Rightarrow> srv_NodeStatus known | None \<Rightarrow> NodeLeft) \<and>
    ss_Stats b = stats_of inputs (rs_ID srv) \<and>
    sh_Healthy (ss_Health b) =
      isHealthy b (fst (leader_position inputs)) (snd (leader_position inputs)) (in_Config inputs)"
  unfolding b_def by (rule build_fields)

lemma build_state:
  "ss_State (buildServerState inputs srv) =
     (if rs_ID srv = in_LeaderID inputs then RaftLeader else suffrage_state (rs_Suffrage srv))"
  by (simp add: build_defs split: option.split prod.split)

lemma build_StableSince:
  "sh_StableSince (ss_Health (buildServerState inputs srv)) =
     (case getCurrentServerState inputs (rs_ID srv) of
        Some existing \<Rightarrow> sh_StableSince (ss_Health existing)
      | None \<Rightarrow> in_Now inputs)"
  by (simp add: build_defs split: option.split prod.split)

text \<open>
  C25: the time stamp \<open>StableSince\<close> of a server that the previous state already holds is never
  renewed, not even in the round in which its health flag changes; only a new server gets the
  current time. The comparison meant to detect a change of health reads the new flag through the
  pointer \<open>previousHealthy\<close> into the state under construction, and so compares it with itself.
\<close>

theorem StableSince_never_renewed:
  "sh_StableSince (ss_Health (buildServerState inputs srv)) =
     (case getCurrentServerState inputs (rs_ID srv) of
        Some existing \<Rightarrow> sh_StableSince (ss_Health existing)
      | None \<Rightarrow> in_Now inputs)"
  by (rule build_StableSince)

text \<open>
  As a consequence, a server that was unhealthy until now and turns healthy in this round
  counts as stable at once, whatever minimum duration is asked for, as long as it was first seen
  that long ago.
\<close>

theorem recovered_server_stable_at_once:
  assumes "getCurrentServerState inputs (rs_ID srv) = Some old"
    and "\<not> sh_Healthy (ss_Health old)"
    and "sh_Healthy (ss_Health (buildServerState inputs srv))"
    and "minDuration < d" "d \<le> maxDuration"
    and "d \<le> in_Now inputs - sh_StableSince (ss_Health old)"
  shows "IsStable (Some (ss_Health (buildServerState inputs srv))) (in_Now inputs) d"
  using assms by (simp add: IsStable_bounded build_StableSince)

section \<open>All servers\<close>

text \<open>A server state without the two fields that the promoter fills in.\<close>

definition core :: "ServerState \<Rightarrow> ServerState" where
  "core v = v\<lparr>ss_Server := (ss_Server v)\<lparr>srv_NodeType := NodeVoter, srv_Ext := None\<rparr>\<rparr>"

lemma core_fields:
  assumes "core v = core w"
  shows "ss_State v = ss_State w" "ss_Health v = ss_Health w" "ss_Stats v = ss_Stats w"
    "srv_Address (ss_Server v) = srv_Address (ss_Server w)" "srv_ID (ss_Server v) = srv_ID (ss_Server w)"
  using arg_cong [OF assms, of ss_State] arg_cong [OF assms, of ss_Health]
    arg_cong [OF assms, of ss_Stats] arg_cong [OF assms, of "\<lambda>v. srv_Address (ss_Server v)"]
    arg_cong [OF assms, of "\<lambda>v. srv_ID (ss_Server v)"]
  by (simp_all add: core_def)

definition cores :: "(ServerID, ServerState) gomap \<Rightarrow> (ServerID, ServerState) gomap" where
  "cores m = map (\<lambda>(i, v). (i, core v)) m"

lemma keys_cores [simp]: "keys (cores m) = keys m"
  by (simp add: cores_def comp_def case_prod_unfold)

lemma map_of_cores: "map_of (cores m) i = map_option core (map_of m i)"
  by (simp add: cores_def map_of_map)

lemma cores_map_of: "cores m = cores m' \<Longrightarrow> map_option core (map_of m i) = map_option core (map_of m' i)"
  by (metis map_of_cores)

lemma cores_lookup:
  assumes "cores m = cores m'" "map_of m i = Some v"
  obtains w where "map_of m' i = Some w" "core v = core w"
proof -
  from cores_map_of [OF assms(1), of i] assms(2) have "Some (core v) = map_option core (map_of m' i)"
    by simp
  then show thesis by (cases "map_of m' i") (auto intro: that)
qed

text \<open>A property of server states that does not look at the promoter's fields.\<close>

lemma cores_lookup_imp:
  assumes "cores m = cores m'" "\<And>v w. core v = core w \<Longrightarrow> P v = P w"
    and "map_of m i = Some v" "P v"
  shows "\<exists>w. map_of m' i = Some w \<and> P w"
proof -
  obtain w where "map_of m' i = Some w" "core v = core w"
    using cores_lookup [OF assms(1,3)] .
  with assms(2) [of v w] assms(4) show ?thesis by blast
qed

lemma cores_lookup_iff:
  assumes "cores m = cores m'" "\<And>v w. core v = core w \<Longrightarrow> P v = P w"
  shows "(\<exists>v. map_of m i = Some v \<and> P v) \<longleftrightarrow> (\<exists>v. map_of m' i = Some v \<and> P v)"
  using cores_lookup_imp [of m m' P, OF assms] cores_lookup_imp [of m' m P, OF assms(1) [symmetric] assms(2)]
  by blast

lemma cores_lookup_all:
  assumes "cores m = cores m'" "\<And>v w. core v = core w \<Longrightarrow> P v = P w"
  shows "(\<forall>i v. map_of m i = Some v \<longrightarrow> P v) \<longleftrightarrow> (\<forall>i v. map_of m' i = Some v \<longrightarrow> P v)"
proof -
  have neg: "(\<not> P v) = (\<not> P w)" if "core v = core w" for v w
    using assms(2) [OF that] by simp
  show ?thesis
    using cores_lookup_iff [where P = "\<lambda>v. \<not> P v", OF assms(1) neg] by blast
qed

lemma core_rights: "core v = core w \<Longrightarrow> HasVotingRights v = HasVotingRights w"
  using core_fields(1) [of v w] by (simp add: HasVotingRights_def)

lemma core_health: "core v = core w \<Longrightarrow> sh_Healthy (ss_Health v) = sh_Healthy (ss_Health w)"
  using core_fields(2) [of v w] by simp

lemma nodeTypes_loop_cores: "cores (nodeTypes_loop types m) = cores m"
proof (induction types m rule: nodeTypes_loop.induct)
  case (2 i ty es servers)
  have "cores (AList.map_entry i (\<lambda>srv. srv\<lparr>ss_Server := (ss_Server srv)\<lparr>srv_NodeType := ty\<rparr>\<rparr>) m) = cores m" for m
    by (induction m) (auto simp: cores_def core_def)
  with 2 show ?case by (simp split: option.split)
qed simp

text \<open>An entry of the new server map: built from a raft server with that id.\<close>

definition built :: "nextStateInputs \<Rightarrow> raft_Server list \<Rightarrow> ServerID \<Rightarrow> ServerState \<Rightarrow> bool" where
  "built inputs srvs i v \<longleftrightarrow> (\<exists>r \<in> set srvs. rs_ID r = i \<and> core v = core (buildServerState inputs r))"

lemma nextServers_loop_built:
  assumes "\<And>i v. map_of m i = Some v \<Longrightarrow> built inputs all i v" "set srvs \<subseteq> set all" "gomap_wf m"
    and "nextServers_loop a inputs srvs m h = (m', h')"
  shows "(\<forall>i v. map_of m' i = Some v \<longrightarrow> built inputs all i v) \<and> gomap_wf m' \<and>
    set (keys m') = set (keys m) \<union> rs_ID ` set srvs \<and> prefix h h'"
  using assms
proof (induction a inputs srvs m h rule: nextServers_loop.induct)
  case (2 a inputs srv srvs newServers h)
  let ?b = "buildServerState inputs srv"
  let ?e = "p_GetServerExt (ap_promoter a) h (in_Config inputs) ?b"
  let ?st = "case ?e of Some e \<Rightarrow> ?b\<lparr>ss_Server := (ss_Server ?b)\<lparr>srv_Ext := Some e\<rparr>\<rparr> | None \<Rightarrow> ?b"
  have core: "core ?st = core ?b" by (simp add: core_def split: option.split)
  have "(\<forall>i v. map_of m' i = Some v \<longrightarrow> built inputs all i v) \<and> gomap_wf m' \<and>
    set (keys m') = set (keys (AList.update (rs_ID srv) ?st newServers)) \<union> rs_ID ` set srvs \<and>
    prefix (h @ [CGetServerExt (in_Config inputs) ?b]) h'"
  proof (rule "2.IH")
    show "built inputs all i v" if "map_of (AList.update (rs_ID srv) ?st newServers) i = Some v" for i v
      using that "2.prems"(1,2) core by (auto simp: map_of_update built_def split: if_splits)
  qed (use "2.prems" in \<open>simp_all add: wf_update Let_def del: set_map\<close>)
  then show ?case by (auto simp: keys_update simp del: set_map dest: append_prefixD)
qed auto

lemma nextServers_built:
  assumes "nextServers a inputs h = (m, h')"
  shows "map_of m i = Some v \<Longrightarrow> built inputs (rc_Servers (in_RaftConfig inputs)) i v"
    "gomap_wf m" "set (keys m) = rs_ID ` set (rc_Servers (in_RaftConfig inputs))" "prefix h h'"
proof -
  let ?all = "rc_Servers (in_RaftConfig inputs)"
  have "(\<forall>i v. map_of m i = Some v \<longrightarrow> built inputs ?all i v) \<and> gomap_wf m \<and>
    set (keys m) = set (keys ([] :: (ServerID, ServerState) gomap)) \<union> rs_ID ` set ?all \<and> prefix h h'"
    by (rule nextServers_loop_built) (use assms in \<open>simp_all add: nextServers_def\<close>)
  then show "map_of m i = Some v \<Longrightarrow> built inputs ?all i v"
    "gomap_wf m" "set (keys m) = rs_ID ` set ?all" "prefix h h'" by simp_all
qed

lemma built_state:
  assumes "built inputs srvs i v"
  shows "ss_State v = RaftLeader \<longleftrightarrow> i = in_LeaderID inputs"
proof -
  obtain r where r: "rs_ID r = i" "core v = core (buildServerState inputs r)"
    using assms by (auto simp: built_def)
  have "suffrage_state s \<noteq> RaftLeader" for s by (cases s) auto
  then show ?thesis
    using r(1) core_fields(1) [OF r(2)] build_state [of inputs r] by simp
qed

section \<open>The summary of the state\<close>

abbreviation voting :: "ServerID \<times> ServerState \<Rightarrow> bool" where
  "voting \<equiv> \<lambda>(i, v). HasVotingRights v"

abbreviation healthy :: "ServerID \<times> ServerState \<Rightarrow> bool" where
  "healthy \<equiv> \<lambda>(i, v). sh_Healthy (ss_Health v)"

lemma summary_loop_eq:
  "summary_loop es st vc hv =
     (st\<lparr>st_Healthy := st_Healthy st \<and> list_all healthy es,
         st_Leader := foldl (\<lambda>l (i, v). if ss_State v = RaftLeader then i else l) (st_Leader st) es,
         st_Voters := st_Voters st @ map fst (filter voting es)\<rparr>,
      vc + int (length (filter voting es)),
      hv + int (length (filter (\<lambda>e. voting e \<and> healthy e) es)))"
  by (induction es st vc hv rule: summary_loop.induct) (auto simp: Let_def HasVotingRights_def)

lemma leader_fold:
  "(\<And>i v. (i, v) \<in> set es \<Longrightarrow> ss_State v = RaftLeader \<longleftrightarrow> i = L) \<Longrightarrow>
   foldl (\<lambda>l (i, v). if ss_State v = RaftLeader then i else l) l es =
     (if L \<in> fst ` set es then L else l)"
proof (induction es arbitrary: l)
  case (Cons e es)
  obtain i v where e: "e = (i, v)" by fastforce
  have "ss_State v = RaftLeader \<longleftrightarrow> i = L" using Cons.prems e by simp
  with Cons e show ?case by auto
qed simp

text \<open>Servers and voters that differ in the promoter's fields only are sorted alike.\<close>

lemma server_key_cores:
  assumes "cores (st_Servers s) = cores (st_Servers t)"
  shows "server_key s = server_key t"
proof
  fix i
  show "server_key s i = server_key t i"
  proof (cases "map_of (st_Servers s) i")
    case None
    then have "map_of (st_Servers t) i = None"
      using cores_map_of [OF assms, of i] by simp
    with None show ?thesis by (simp add: server_key_def)
  next
    case (Some v)
    then obtain w where "map_of (st_Servers t) i = Some w" "core v = core w"
      using cores_lookup [OF assms] by blast
    with Some show ?thesis by (simp add: server_key_def core_fields [of v w])
  qed
qed

lemma is_leader_cores:
  assumes "cores (st_Servers s) = cores (st_Servers t)"
  shows "is_leader s i = is_leader t i"
proof -
  have "is_leader s i" if "is_leader t i" "cores (st_Servers s) = cores (st_Servers t)" for s t i
    using that cores_lookup [of "st_Servers t" "st_Servers s" i]
    by (metis core_fields(1) is_leader_def)
  with assms show ?thesis by metis
qed

lemma sortable_cores:
  assumes "cores (st_Servers s) = cores (st_Servers t)"
  shows "sortable s ids = sortable t ids"
proof -
  have "is_leader s i = is_leader t i" for i
    using assms by (rule is_leader_cores)
  moreover have "known_id s i = known_id t i" for i
    using cores_map_of [OF assms, of i]
    by (cases "map_of (st_Servers s) i"; cases "map_of (st_Servers t) i") (auto simp: known_id_def)
  ultimately show ?thesis by (simp add: sortable_def)
qed

text \<open>The state over a server map, as far as sorting looks at it.\<close>

definition over :: "(ServerID, ServerState) gomap \<Rightarrow> State" where
  "over m = zero_State\<lparr>st_Servers := m\<rparr>"

lemma st_Servers_over [simp]: "st_Servers (over m) = m"
  by (simp add: over_def)

lemma SortServers_cores:
  assumes "cores (st_Servers s) = cores m" "sortable (over m) ids"
  shows "SortServers ids s = Inr (sort_pure (\<lambda>i j. server_key (over m) i < server_key (over m) j) ids)"
  using assms SortServers_pure [of s ids] server_key_cores [of s "over m"] sortable_cores [of s "over m"]
  by simp

lemma voters_sortable:
  assumes "nextServers a inputs h = (m, h')" "mset es = mset m"
  shows "sortable (over m) (map fst (filter voting es))"
proof -
  note wf = nextServers_built(2) [OF assms(1)]
  have "distinct (map fst es)"
    using wf assms(2) by (metis mset_eq_imp_distinct_iff mset_map)
  then have "distinct (map fst (filter voting es))" by (rule distinct_map_filter)
  moreover have "known_id (over m) i" if "i \<in> set (map fst (filter voting es))" for i
    using that mset_eq_setD [OF assms(2)] by (auto simp: known_id_def dest: weak_map_of_SomeI)
  moreover have "i = in_LeaderID inputs" if "is_leader (over m) i" for i
    using that nextServers_built(1) [OF assms(1)] built_state
    unfolding is_leader_def st_Servers_over by blast
  ultimately show ?thesis unfolding sortable_def by blast
qed

definition failure_tolerance :: "(ServerID, ServerState) gomap \<Rightarrow> int" where
  "failure_tolerance m =
     max 0 (int (length (filter (\<lambda>e. voting e \<and> healthy e) m)) - requiredQuorum (int (length (filter voting m))))"

text \<open>Everything of the next state that does not come from the promoter.\<close>

lemma nextState_result:
  assumes "go_range rng" "nextServers a inputs h = (m, h1)"
  shows "\<exists>st cs. nextStateWithInputs rng a inputs h = (Inr st, h1 @ cs) \<and>
    cores (st_Servers st) = cores m \<and>
    st_firstStateTime st = in_FirstStateTime inputs \<and>
    st_Healthy st = list_all healthy m \<and>
    st_FailureTolerance st = failure_tolerance m \<and>
    st_Leader st = (if in_LeaderID inputs \<in> fst ` set m then in_LeaderID inputs else []) \<and>
    st_Voters st = sort_pure (\<lambda>i j. server_key (over m) i < server_key (over m) j)
      (map fst (filter voting m))"
proof -
  let ?es = "rng m"
  have es: "mset ?es = mset m" "set ?es = set m" using go_rangeD [OF assms(1)] by auto
  have lead: "foldl (\<lambda>l (i, v). if ss_State v = RaftLeader then i else l) [] ?es =
      (if in_LeaderID inputs \<in> fst ` set m then in_LeaderID inputs else [])"
    unfolding es(2) [symmetric]
  proof (rule leader_fold)
    fix i v assume "(i, v) \<in> set ?es"
    then have "map_of m i = Some v"
      using map_of_mem [OF nextServers_built(2) [OF assms(2)]] es(2) by simp
    then show "ss_State v = RaftLeader \<longleftrightarrow> i = in_LeaderID inputs"
      using nextServers_built(1) [OF assms(2)] built_state by blast
  qed
  have counts: "length (filter P ?es) = length (filter P m)" for P
    using es(1) by (metis mset_filter size_mset)
  have all: "list_all healthy ?es = list_all healthy m"
    using es(2) by (simp add: list_all_iff)
  have sorted: "sort_pure (\<lambda>i j. server_key (over m) i < server_key (over m) j) (map fst (filter voting ?es)) =
      sort_pure (\<lambda>i j. server_key (over m) i < server_key (over m) j) (map fst (filter voting m))"
    by (rule srv_order.sort_any_order) (simp add: es(1))
  have sort: "SortServers (map fst (filter voting ?es)) s =
      Inr (sort_pure (\<lambda>i j. server_key (over m) i < server_key (over m) j) (map fst (filter voting m)))"
    if "cores (st_Servers s) = cores m" for s
    using SortServers_cores [OF that voters_sortable [OF assms(2) es(1)]] sorted by simp
  show ?thesis
    unfolding nextStateWithInputs_def assms(2) Let_def prod.case summary_loop_eq
    by (simp add: sort nodeTypes_loop_cores lead counts all failure_tolerance_def zero_State_def
        split: option.split)
qed

section \<open>Properties of the next state\<close>

text \<open>The voters of a state that are healthy in it.\<close>

definition healthy_voters :: "State \<Rightarrow> ServerID list" where
  "healthy_voters st = filter (\<lambda>i. \<exists>v. map_of (st_Servers st) i = Some v \<and> sh_Healthy (ss_Health v)) (st_Voters st)"

text \<open>What the properties below need, with the server map hidden.\<close>

lemma nextState_summary:
  assumes "go_range rng"
  obtains st h' m where "nextStateWithInputs rng a inputs h = (Inr st, h')" "prefix h h'"
    "gomap_wf m" "cores (st_Servers st) = cores m"
    "\<And>i v. map_of m i = Some v \<Longrightarrow> built inputs (rc_Servers (in_RaftConfig inputs)) i v"
    "set (keys m) = rs_ID ` set (rc_Servers (in_RaftConfig inputs))"
    "st_firstStateTime st = in_FirstStateTime inputs"
    "st_Healthy st = list_all healthy m" "st_FailureTolerance st = failure_tolerance m"
    "st_Leader st = (if in_LeaderID inputs \<in> fst ` set m then in_LeaderID inputs else [])"
    "st_Voters st = sort_pure (\<lambda>i j. server_key (over m) i < server_key (over m) j) (map fst (filter voting m))"
    "sortable (over m) (map fst (filter voting m))"
proof -
  obtain m h1 where m: "nextServers a inputs h = (m, h1)" by fastforce
  obtain st cs where st: "nextStateWithInputs rng a inputs h = (Inr st, h1 @ cs)"
    "cores (st_Servers st) = cores m" "st_firstStateTime st = in_FirstStateTime inputs"
    "st_Healthy st = list_all healthy m" "st_FailureTolerance st = failure_tolerance m"
    "st_Leader st = (if in_LeaderID inputs \<in> fst ` set m then in_LeaderID inputs else [])"
    "st_Voters st = sort_pure (\<lambda>i j. server_key (over m) i < server_key (over m) j) (map fst (filter voting m))"
    using nextState_result [OF assms m] by blast
  have "sortable (over m) (map fst (filter voting m))"
    by (rule voters_sortable [OF m refl])
  moreover have "prefix h (h1 @ cs)"
    using nextServers_built(4) [OF m] by (rule prefix_prefix)
  ultimately show thesis
    using that [OF st(1) _ _ st(2)] nextServers_built [OF m] st(3-7) by blast
qed

lemma voting_ids:
  assumes "cores m' = cores m" "gomap_wf m"
  shows "i \<in> set (map fst (filter voting m)) \<longleftrightarrow> (\<exists>v. map_of m' i = Some v \<and> HasVotingRights v)"
proof -
  have "i \<in> set (map fst (filter voting m)) \<longleftrightarrow> (\<exists>v. map_of m i = Some v \<and> HasVotingRights v)"
    using map_of_mem [OF assms(2)] by force
  also have "\<dots> \<longleftrightarrow> (\<exists>v. map_of m' i = Some v \<and> HasVotingRights v)"
    using assms(1) [symmetric] core_rights by (rule cores_lookup_iff)
  finally show ?thesis .
qed

lemma healthy_voters_count:
  assumes "cores (st_Servers st) = cores m" "gomap_wf m"
    and "mset (st_Voters st) = mset (map fst (filter voting m))"
  shows "length (healthy_voters st) = length (filter (\<lambda>e. voting e \<and> healthy e) m)"
proof -
  let ?Q = "\<lambda>i. \<exists>v. map_of (st_Servers st) i = Some v \<and> sh_Healthy (ss_Health v)"
  have Q: "?Q (fst e) \<longleftrightarrow> healthy e" if "e \<in> set m" for e
  proof -
    obtain i v where e: "e = (i, v)" by fastforce
    then have "map_of m i = Some v" using map_of_mem [OF assms(2)] that by simp
    then obtain w where "map_of (st_Servers st) i = Some w" "core v = core w"
      using cores_lookup [OF assms(1) [symmetric]] by blast
    then show ?thesis using e core_fields(2) [of v w] by simp
  qed
  have "mset (healthy_voters st) = mset (filter ?Q (map fst (filter voting m)))"
    unfolding healthy_voters_def mset_filter assms(3) ..
  then have "length (healthy_voters st) = length (filter ?Q (map fst (filter voting m)))"
    by (rule mset_eq_length)
  also have "\<dots> = length (filter (\<lambda>e. ?Q (fst e) \<and> voting e) m)"
    by (simp add: filter_map comp_def conj_commute)
  also have "filter (\<lambda>e. ?Q (fst e) \<and> voting e) m = filter (\<lambda>e. voting e \<and> healthy e) m"
    using Q by (intro filter_cong) auto
  finally show ?thesis .
qed

text \<open>
  C5: building the state never panics, and its contents are those of the raft configuration: it
  has exactly one entry per server id, its voters are exactly the entries with voting rights,
  each once, and its leader is the leader of the inputs if the configuration has that server and
  no one otherwise; if there is a leader, it comes first among the voters.
\<close>

theorem nextState_contents:
  assumes "go_range rng"
  shows "\<exists>st h'. nextStateWithInputs rng a inputs h = (Inr st, h') \<and>
    gomap_wf (st_Servers st) \<and>
    set (keys (st_Servers st)) = rs_ID ` set (rc_Servers (in_RaftConfig inputs)) \<and>
    distinct (st_Voters st) \<and>
    set (st_Voters st) = {i. \<exists>v. map_of (st_Servers st) i = Some v \<and> HasVotingRights v} \<and>
    (if in_LeaderID inputs \<in> rs_ID ` set (rc_Servers (in_RaftConfig inputs))
     then st_Leader st = in_LeaderID inputs \<and> (\<exists>rest. st_Voters st = in_LeaderID inputs # rest)
     else st_Leader st = [])"
proof -
  obtain st h' m where st: "nextStateWithInputs rng a inputs h = (Inr st, h')"
    "gomap_wf m" "cores (st_Servers st) = cores m"
    "\<And>i v. map_of m i = Some v \<Longrightarrow> built inputs (rc_Servers (in_RaftConfig inputs)) i v"
    "set (keys m) = rs_ID ` set (rc_Servers (in_RaftConfig inputs))"
    "st_Leader st = (if in_LeaderID inputs \<in> fst ` set m then in_LeaderID inputs else [])"
    "st_Voters st = sort_pure (\<lambda>i j. server_key (over m) i < server_key (over m) j) (map fst (filter voting m))"
    "sortable (over m) (map fst (filter voting m))"
    using nextState_summary [OF assms, of a inputs h] by metis
  have keys: "keys (st_Servers st) = keys m"
    using arg_cong [OF st(3), of keys] by simp
  have lead: "\<exists>rest. st_Voters st = in_LeaderID inputs # rest" if "in_LeaderID inputs \<in> fst ` set m"
  proof -
    from that obtain v where v: "map_of m (in_LeaderID inputs) = Some v"
      by (auto simp: in_keys_iff)
    with st(4) built_state have "ss_State v = RaftLeader" by blast
    with v have "is_leader (over m) (in_LeaderID inputs)" "HasVotingRights v"
      by (auto simp: is_leader_def HasVotingRights_def)
    moreover from this v have "in_LeaderID inputs \<in> set (map fst (filter voting m))"
      using voting_ids [OF refl st(2)] by blast
    ultimately show ?thesis using sort_leader_first [OF st(8)] st(7) by simp
  qed
  have "distinct (st_Voters st)" using st(7,8) by (simp add: sortable_def)
  moreover have "set (st_Voters st) = {i. \<exists>v. map_of (st_Servers st) i = Some v \<and> HasVotingRights v}"
    unfolding st(7) set_sort_pure set_eq_iff mem_Collect_eq using voting_ids [OF st(3,2)] by blast
  ultimately show ?thesis
    using st(1,2,5,6) keys lead by (intro exI [of _ st] exI [of _ h']) simp
qed

text \<open>
  C6: the built state is healthy exactly when each of its servers is, and its failure tolerance
  says how many healthy voters may fail: for a positive number of failures, the healthy voters
  that are left still reach a quorum of all voters exactly when that number is at most the
  failure tolerance. The tolerance is never negative.
\<close>

theorem nextState_failure_tolerance:
  assumes "go_range rng" "nextStateWithInputs rng a inputs h = (Inr st, h')"
  shows "(st_Healthy st \<longleftrightarrow>
      (\<forall>i v. map_of (st_Servers st) i = Some v \<longrightarrow> sh_Healthy (ss_Health v))) \<and>
    0 \<le> st_FailureTolerance st \<and>
    (\<forall>k > 0. k \<le> st_FailureTolerance st \<longleftrightarrow>
      requiredQuorum (int (length (st_Voters st))) \<le> int (length (healthy_voters st)) - k)"
proof -
  obtain m h0 where m: "nextServers a inputs h = (m, h0)" by fastforce
  have st: "gomap_wf m" "cores (st_Servers st) = cores m"
    "st_Healthy st = list_all healthy m" "st_FailureTolerance st = failure_tolerance m"
    "st_Voters st = sort_pure (\<lambda>i j. server_key (over m) i < server_key (over m) j) (map fst (filter voting m))"
    using nextServers_built(2) [OF m] nextState_result [OF assms(1) m] assms(2) by auto
  have "mset (st_Voters st) = mset (map fst (filter voting m))" by (simp add: st(5))
  note hv = healthy_voters_count [OF st(2,1) this]
  have "list_all healthy m \<longleftrightarrow> (\<forall>i v. map_of m i = Some v \<longrightarrow> sh_Healthy (ss_Health v))"
    by (auto simp: list_all_iff Ball_def map_of_mem [OF st(1)])
  also have "\<dots> \<longleftrightarrow> (\<forall>i v. map_of (st_Servers st) i = Some v \<longrightarrow> sh_Healthy (ss_Health v))"
    using st(2) [symmetric] core_health by (rule cores_lookup_all)
  finally show ?thesis
    using st(3,4) by (auto simp: failure_tolerance_def hv st(5))
qed

text \<open>
  C30: the order in which the Go runtime enumerates the map of servers has no influence on the
  overall health, the failure tolerance, the leader or the sorted list of voters.
\<close>

theorem nextState_range_independent:
  assumes "go_range rng" "go_range rng'"
    and "nextStateWithInputs rng a inputs h = (Inr st, h1)"
    and "nextStateWithInputs rng' a inputs h = (Inr st', h2)"
  shows "st_Healthy st = st_Healthy st' \<and> st_FailureTolerance st = st_FailureTolerance st' \<and>
    st_Leader st = st_Leader st' \<and> st_Voters st = st_Voters st' \<and>
    cores (st_Servers st) = cores (st_Servers st')"
proof -
  obtain m h0 where m: "nextServers a inputs h = (m, h0)" by fastforce
  show ?thesis
    using nextState_result [OF assms(1) m] nextState_result [OF assms(2) m] assms(3,4) by auto
qed

text \<open>
  For a raft configuration with different ids, the built state holds for each of its servers
  what \<open>buildServerState\<close> gives for it, up to the two fields that the promoter fills in.
\<close>

theorem nextState_servers:
  assumes "go_range rng" "distinct (map rs_ID (rc_Servers (in_RaftConfig inputs)))"
    and "r \<in> set (rc_Servers (in_RaftConfig inputs))"
  shows "\<exists>st h' v. nextStateWithInputs rng a inputs h = (Inr st, h') \<and>
    map_of (st_Servers st) (rs_ID r) = Some v \<and> core v = core (buildServerState inputs r)"
proof -
  obtain st h' m where st: "nextStateWithInputs rng a inputs h = (Inr st, h')"
    "cores (st_Servers st) = cores m"
    "\<And>i v. map_of m i = Some v \<Longrightarrow> built inputs (rc_Servers (in_RaftConfig inputs)) i v"
    "set (keys m) = rs_ID ` set (rc_Servers (in_RaftConfig inputs))"
    using nextState_summary [OF assms(1), of a inputs h] by metis
  have "rs_ID r \<in> fst ` set m" using st(4) assms(3) by simp
  then obtain v where v: "map_of m (rs_ID r) = Some v" by (auto simp: in_keys_iff)
  obtain r' where r': "r' \<in> set (rc_Servers (in_RaftConfig inputs))" "rs_ID r' = rs_ID r"
    "core v = core (buildServerState inputs r')"
    using st(3) [OF v] by (auto simp: built_def)
  have "r' = r" using r' assms by (auto simp: distinct_map inj_on_def)
  moreover obtain w where "map_of (st_Servers st) (rs_ID r) = Some w" "core v = core w"
    using cores_lookup [OF st(2) [symmetric] v] by blast
  ultimately show ?thesis using st(1) r'(3) by (intro exI [of _ st] exI [of _ h'] exI [of _ w]) simp
qed

section \<open>Well-formed states\<close>

text \<open>
  What every state that the package stores satisfies, as a check that can be evaluated: server ids
  are unique, the voters are the servers with voting rights, sorted by the documented order, only
  the leader has the leader's raft state and it comes first among the voters, the failure
  tolerance is that of the servers, and a state that says it is healthy has only healthy servers.
\<close>

definition State_wf :: "State \<Rightarrow> bool" where
  "State_wf st \<longleftrightarrow>
     gomap_wf (st_Servers st) \<and>
     mset (st_Voters st) = mset (map fst (filter voting (st_Servers st))) \<and>
     sorted_wrt (\<lambda>i j. server_key st i < server_key st j) (st_Voters st) \<and>
     list_all (\<lambda>(i, v). ss_State v = RaftLeader \<longrightarrow> i = st_Leader st) (st_Servers st) \<and>
     (st_Leader st \<noteq> [] \<longrightarrow> is_leader st (st_Leader st) \<and> take 1 (st_Voters st) = [st_Leader st]) \<and>
     st_FailureTolerance st = failure_tolerance (st_Servers st) \<and>
     (st_Healthy st \<longrightarrow> list_all healthy (st_Servers st))"

lemma zero_State_wf: "State_wf zero_State"
  by (simp add: State_wf_def zero_State_def failure_tolerance_def requiredQuorum_eq)

lemma core_simps [simp]:
  "HasVotingRights (core v) = HasVotingRights v" "sh_Healthy (ss_Health (core v)) = sh_Healthy (ss_Health v)"
  by (simp_all add: core_def HasVotingRights_def)

lemma cores_summary:
  "map fst (filter voting (cores m)) = map fst (filter voting m)"
  "length (filter voting (cores m)) = length (filter voting m)"
  "length (filter (\<lambda>e. voting e \<and> healthy e) (cores m)) = length (filter (\<lambda>e. voting e \<and> healthy e) m)"
  "list_all healthy (cores m) = list_all healthy m"
  by (induction m) (auto simp: cores_def)

lemma failure_tolerance_cores: "failure_tolerance (cores m) = failure_tolerance m"
  by (simp add: failure_tolerance_def cores_summary)

lemma same_cores:
  assumes "cores m = cores m'"
  shows "keys m = keys m'" "map fst (filter voting m) = map fst (filter voting m')"
    "list_all healthy m = list_all healthy m'" "failure_tolerance m = failure_tolerance m'"
  using arg_cong [OF assms, of keys] arg_cong [OF assms, of "\<lambda>m. map fst (filter voting m)"]
    arg_cong [OF assms, of "list_all healthy"] arg_cong [OF assms, of failure_tolerance]
  by (simp_all only: cores_summary failure_tolerance_cores keys_cores)

lemma next_State_wf:
  assumes "go_range rng" "nextStateWithInputs rng a inputs h = (Inr st, h')"
  shows "State_wf st"
proof -
  obtain st' h1 m where "nextStateWithInputs rng a inputs h = (Inr st', h1)"
    and m: "gomap_wf m" "cores (st_Servers st') = cores m"
      "\<And>i v. map_of m i = Some v \<Longrightarrow> built inputs (rc_Servers (in_RaftConfig inputs)) i v"
      "st_Healthy st' = list_all healthy m" "st_FailureTolerance st' = failure_tolerance m"
      "st_Leader st' = (if in_LeaderID inputs \<in> fst ` set m then in_LeaderID inputs else [])"
      "st_Voters st' = sort_pure (\<lambda>i j. server_key (over m) i < server_key (over m) j) (map fst (filter voting m))"
      "sortable (over m) (map fst (filter voting m))"
    using nextState_summary [OF assms(1), of a inputs h] by metis
  with assms(2) have [simp]: "st' = st" by simp
  note m = m [unfolded \<open>st' = st\<close>]
  note same = same_cores [OF m(2)]
  have key: "server_key st = server_key (over m)" using m(2) by (intro server_key_cores) simp
  have wf: "gomap_wf (st_Servers st)" using m(1) same(1) by simp
  have same_leader: "is_leader st i = is_leader (over m) i" for i
    using m(2) by (intro is_leader_cores) simp
  have "is_leader (over m) i \<longleftrightarrow> i = in_LeaderID inputs \<and> i \<in> fst ` set m" for i
    using m(3) [of i] built_state [of inputs _ i] in_keys_iff [of i m] by (auto simp: is_leader_def)
  then have leader: "is_leader st i \<longleftrightarrow> i = in_LeaderID inputs \<and> i \<in> fst ` set m" for i
    by (simp add: same_leader)
  have "ss_State v = RaftLeader \<longrightarrow> i = st_Leader st" if "(i, v) \<in> set (st_Servers st)" for i v
    using leader [of i] that map_of_mem [OF wf] m(6) by (auto simp: is_leader_def)
  moreover have "take 1 (st_Voters st) = [st_Leader st]" if "st_Leader st \<noteq> []"
  proof -
    have L: "is_leader (over m) (st_Leader st)"
      using that leader m(6) by (simp add: same_leader [symmetric] split: if_splits)
    then have "st_Leader st \<in> set (map fst (filter voting m))"
      using voting_ids [OF refl m(1)] by (auto simp: is_leader_def HasVotingRights_def)
    from sort_leader_first [OF m(8) this L] show ?thesis using m(7) by auto
  qed
  moreover have "sorted_wrt (\<lambda>i j. server_key st i < server_key st j) (st_Voters st)"
    unfolding key m(7) using m(8) by (intro srv_order.sort_strict) (simp add: sortable_def)
  ultimately show ?thesis
    using wf m(4-7) same leader [of "st_Leader st"]
    by (auto simp: State_wf_def list_all_iff split: if_splits)
qed

section \<open>Witnesses\<close>

definition sample_stats :: ServerStats where
  "sample_stats = \<lparr>stat_LastContact = 10, stat_LastTerm = 3, stat_LastIndex = 1000\<rparr>"

definition sample_known :: "(ServerID, Server) gomap" where
  "sample_known = [(''a'', sample_server ''a'' ''x'' NodeAlive), (''b'', sample_server ''b'' ''y'' NodeAlive),
     (''c'', sample_server ''c'' ''z'' NodeFailed)]"

definition sample_inputs :: nextStateInputs where
  "sample_inputs = \<lparr>in_Now = 500, in_FirstStateTime = 100, in_Config = sample_conf,
     in_RaftConfig = \<lparr>rc_Servers = sample_srvs\<rparr>, in_KnownServers = sample_known,
     in_LatestIndex = 1000, in_LastTerm = 3, in_FetchedStats = [(''a'', sample_stats), (''b'', sample_stats)],
     in_LeaderID = ''b'', in_IsLeader = True,
     in_CurrentState = Some (over [(''a'', sample_ss ''a'' ''x'' RaftVoter False 10)])\<rparr>"

lemmas sample_build_defs = sample_stats_def sample_known_def sample_inputs_def sample_srvs_def
  sample_server_def sample_ss_def sample_conf_def getCurrentServerState_def leader_position_def

theorem recovered_server_stable_at_once_witness:
  "IsStable (Some (ss_Health (buildServerState sample_inputs (hd sample_srvs)))) 500 400"
proof -
  have "in_Now sample_inputs = 500" by (simp add: sample_inputs_def)
  moreover have "IsStable (Some (ss_Health (buildServerState sample_inputs (hd sample_srvs))))
      (in_Now sample_inputs) 400"
    by (rule recovered_server_stable_at_once [where old = "sample_ss ''a'' ''x'' RaftVoter False 10"])
      (simp_all add: build_defs sample_build_defs isHealthy_def minDuration_def maxDuration_def)
  ultimately show ?thesis by simp
qed

theorem nextState_contents_witness:
  "\<exists>st h'. nextStateWithInputs rev sample_ap sample_inputs [] = (Inr st, h') \<and> st_Leader st = ''b'' \<and>
     (\<exists>rest. st_Voters st = ''b'' # rest)"
  using nextState_contents [OF go_range_rev, of sample_ap sample_inputs "[]"]
  by (auto simp: sample_build_defs)

theorem nextState_failure_tolerance_witness:
  "\<exists>st h'. nextStateWithInputs rev sample_ap sample_inputs [] = (Inr st, h') \<and>
     0 \<le> st_FailureTolerance st"
proof -
  obtain st h' m where "nextStateWithInputs rev sample_ap sample_inputs [] = (Inr st, h')"
    by (rule nextState_summary [OF go_range_rev])
  with nextState_failure_tolerance [OF go_range_rev this] show ?thesis by blast
qed

theorem nextState_range_independent_witness:
  "\<exists>st h1 st' h2. nextStateWithInputs rev sample_ap sample_inputs [] = (Inr st, h1) \<and>
     nextStateWithInputs (\<lambda>m. m) sample_ap sample_inputs [] = (Inr st', h2) \<and>
     st_Voters st = st_Voters st'"
proof -
  obtain st h1 m where 1: "nextStateWithInputs rev sample_ap sample_inputs [] = (Inr st, h1)"
    by (rule nextState_summary [OF go_range_rev])
  obtain st' h2 m' where 2: "nextStateWithInputs (\<lambda>m. m) sample_ap sample_inputs [] = (Inr st', h2)"
    by (rule nextState_summary [OF go_range_id])
  from 1 2 nextState_range_independent [OF go_range_rev go_range_id 1 2] show ?thesis by blast
qed

theorem nextState_servers_witness:
  "\<exists>st h' v. nextStateWithInputs rev sample_ap sample_inputs [] = (Inr st, h') \<and>
     map_of (st_Servers st) ''c'' = Some v \<and> core v = core (buildServerState sample_inputs (sample_srvs ! 2))"
  using nextState_servers [OF go_range_rev, of sample_inputs "sample_srvs ! 2" sample_ap "[]"]
  by (simp add: sample_build_defs)

end
