(* ===== verification/AP_Gather.thy ===== *)
theory AP_Gather
  imports AP_Build
begin

text \<open>
  Input gathering and the state update (state.go): \<open>gatherNextStateInputs\<close>, \<open>nextState\<close>,
  \<open>ComputeState\<close>, \<open>updateState\<close>. \<open>gatherNextStateInputs\<close> reads the field \<open>a.state\<close> twice, once
  under its lock (\<open>GetState\<close>) and once without it, so a concurrent writer can come between; the
  second read is the argument \<open>reread\<close>, which equals \<open>ap_state a\<close> when nobody interferes. A
  context keeps its first non-nil error, as the context package documents, so a check and the
  return of the checked error are one call here. \<open>KnownServers\<close> arrives in the order in which the
  runtime enumerates it.
\<close>

fun delegate_leader :: "(ServerID, Server) gomap \<Rightarrow> ServerID" where
  "delegate_leader [] = []"
| "delegate_leader ((i, srv) # es) = (if srv_IsLeader srv then i else delegate_leader es)"

fun address_leader :: "ServerAddress \<Rightarrow> raft_Server list \<Rightarrow> ServerID" where
  "address_leader leader [] = []"
| "address_leader leader (s # srvs) =
     (if rs_Address s = leader then rs_ID s else address_leader leader srvs)"

text \<open>The leader's id: the delegate's, else the server at raft's leader address.\<close>

definition find_leader :: "Autopilot \<Rightarrow> (ServerID, Server) gomap \<Rightarrow> raft_Configuration \<Rightarrow> hist \<Rightarrow> ServerID \<times> hist" where
  "find_leader a known raftConfig h =
     (if delegate_leader known = []
      then (address_leader (r_Leader (ap_raft a) h) (rc_Servers raftConfig), h @ [CLeader])
      else (delegate_leader known, h))"

text \<open>\<open>return nil, ctx.Err()\<close> after a failed check.\<close>

definition ctx_abort :: "Context \<Rightarrow> hist \<Rightarrow> (go_panic + (go_error + nextStateInputs option)) \<times> hist" where
  "ctx_abort ctx h =
     (case ctx h of Some err \<Rightarrow> Inr (Inl err) | None \<Rightarrow> Inr (Inr None), h @ [CCtxErr])"

text \<open>The end of \<open>gatherNextStateInputs\<close>, from the call to \<open>lastTerm\<close> on, for the inputs so far.\<close>

definition gather_fetch :: "Context \<Rightarrow> Autopilot \<Rightarrow> nextStateInputs \<Rightarrow> hist \<Rightarrow>
    (go_panic + (go_error + nextStateInputs option)) \<times> hist" where
  "gather_fetch ctx a inputs h =
     (case lastTerm a h of
        (Inl err, h) \<Rightarrow> (Inr (Inl (ErrLastTerm err)), h)
      | (Inr tm, h) \<Rightarrow>
          let inputs = inputs\<lparr>in_LastTerm := tm\<rparr>
          in if ctx h \<noteq> None then ctx_abort ctx (h @ [CCtxErr])
             else let h = h @ [CCtxErr]
          in if ctx h \<noteq> None then ctx_abort ctx (h @ [CCtxErr])
             else let h = h @ [CCtxErr];
                      d = time_Add (in_Now inputs) (go_div (ap_updateInterval a) 2);
                      alive = aliveServers (in_KnownServers inputs);
                      inputs = inputs\<lparr>in_FetchedStats := d_FetchServerStats (ap_delegate a) h d alive\<rparr>;
                      h = h @ [CFetchServerStats d alive]
          in case ctx h of
               Some err \<Rightarrow> (Inr (Inl err), h @ [CCtxErr])
             | None \<Rightarrow> (Inr (Inr (Some inputs)), h @ [CCtxErr]))"

text \<open>The time of the first state: zero, or what the state says when \<open>GetState\<close> finds one.\<close>

definition first_state_time :: "Autopilot \<Rightarrow> State option \<Rightarrow> go_panic + Time" where
  "first_state_time a reread =
     (case GetState a of
        None \<Rightarrow> Inr 0
      | Some _ \<Rightarrow> (case reread of None \<Rightarrow> Inl NilDeref | Some s \<Rightarrow> Inr (st_firstStateTime s)))"

definition gatherNextStateInputs :: "Context \<Rightarrow> Autopilot \<Rightarrow> State option \<Rightarrow> hist \<Rightarrow>
    (go_panic + (go_error + nextStateInputs option)) \<times> hist" where
  "gatherNextStateInputs ctx a reread h =
     (let now = ap_time a h; h = h @ [CNow]
      in case first_state_time a reread of
           Inl p \<Rightarrow> (Inl p, h)
         | Inr firstStateTime \<Rightarrow>
      let firstStateTime = (if time_IsZero firstStateTime then now else firstStateTime);
          conf = d_AutopilotConfig (ap_delegate a) h; h = h @ [CAutopilotConfig]
      in case conf of
           None \<Rightarrow> (Inr (Inl ErrNoConfig), h)
         | Some conf \<Rightarrow>
      (case getRaftConfiguration a h of
           (Inl err, h) \<Rightarrow> (Inr (Inl (ErrGetRaftConfig err)), h)
         | (Inr raftConfig, h) \<Rightarrow>
      let known = d_KnownServers (ap_delegate a) h; h = h @ [CKnownServers];
          (leaderID, h) = find_leader a known raftConfig h;
          latestIndex = r_LastIndex (ap_raft a) h; h = h @ [CLastIndex];
          isLeader = (r_State (ap_raft a) h = raft_Leader); h = h @ [CRaftState]
      in gather_fetch ctx a
           \<lparr>in_Now = now, in_FirstStateTime = firstStateTime, in_Config = conf,
            in_RaftConfig = raftConfig, in_KnownServers = known, in_LatestIndex = latestIndex,
            in_LastTerm = 0, in_FetchedStats = [], in_LeaderID = leaderID,
            in_IsLeader = isLeader, in_CurrentState = GetState a\<rparr> h))"

definition nextState :: "(ServerID, ServerState) ranger \<Rightarrow> Context \<Rightarrow> Autopilot \<Rightarrow> State option \<Rightarrow> hist \<Rightarrow>
    (go_panic + (go_error + State)) \<times> hist" where
  "nextState rng ctx a reread h =
     (case gatherNextStateInputs ctx a reread h of
        (Inl p, h) \<Rightarrow> (Inl p, h)
      | (Inr (Inl err), h) \<Rightarrow> (Inr (Inl err), h)
      | (Inr (Inr None), h) \<Rightarrow> (Inl NilDeref, h)
      | (Inr (Inr (Some inputs)), h) \<Rightarrow>
          (case nextStateWithInputs rng a inputs h of
             (Inl p, h) \<Rightarrow> (Inl p, h)
           | (Inr state, h) \<Rightarrow> (Inr (Inr state), h)))"

definition ComputeState :: "(ServerID, ServerState) ranger \<Rightarrow> Context \<Rightarrow> Autopilot \<Rightarrow> State option \<Rightarrow> hist \<Rightarrow>
    (go_panic + (go_error + State)) \<times> hist" where
  "ComputeState rng ctx a reread h = nextState rng ctx a reread h"

definition updateState :: "(ServerID, ServerState) ranger \<Rightarrow> Context \<Rightarrow> Autopilot \<Rightarrow> State option \<Rightarrow> hist \<Rightarrow>
    (go_panic + Autopilot) \<times> hist" where
  "updateState rng ctx a reread h =
     (case nextState rng ctx a reread h of
        (Inl p, h) \<Rightarrow> (Inl p, h)
      | (Inr (Inl err), h) \<Rightarrow> (Inr a, h)
      | (Inr (Inr newState), h) \<Rightarrow> (Inr (a\<lparr>ap_state := Some newState\<rparr>), h @ [CNotifyState newState]))"

section \<open>Which servers are asked for statistics\<close>

lemma aliveServers_loop_lookup:
  assumes "\<forall>(i, srv) \<in> set es. srv_ID srv = i" "distinct (map fst es)"
  shows "map_of (aliveServers_loop es m) i =
    (case map_of es i of
       Some srv \<Rightarrow> if srv_NodeStatus srv = NodeLeft then map_of m i else Some srv
     | None \<Rightarrow> map_of m i)"
  using assms
proof (induction es m rule: aliveServers_loop.induct)
  case (2 j server es serverMap)
  show ?case
  proof (cases "i = j")
    case True
    then have "map_of es i = None" using "2.prems" by (auto simp: map_of_eq_None_iff)
    with True 2 show ?thesis by (auto simp: map_of_update)
  next
    case False
    with 2 show ?thesis by (auto simp: map_of_update split: option.split)
  qed
qed simp

text \<open>
  Statistics are requested for exactly the known servers that the application does not
  report as left. In particular servers reported failed or unknown are asked, although the
  documentation of the state computation says that only servers reported alive are.
\<close>

theorem aliveServers_lookup:
  assumes "keyed_by_id m"
  shows "map_of (aliveServers m) i = Some srv \<longleftrightarrow>
    map_of m i = Some srv \<and> srv_NodeStatus srv \<noteq> NodeLeft"
proof -
  have "map_of (aliveServers m) i =
      (case map_of m i of Some srv \<Rightarrow> if srv_NodeStatus srv = NodeLeft then None else Some srv
       | None \<Rightarrow> None)"
    using assms aliveServers_loop_lookup [of m "[]" i]
    by (auto simp: keyed_by_id_def aliveServers_def split: option.split)
  then show ?thesis by (auto split: option.splits if_splits)
qed

theorem aliveServers_lookup_witness:
  "map_of (aliveServers [(''a'', sample_server ''a'' ''x'' NodeFailed)]) ''a'' =
     Some (sample_server ''a'' ''x'' NodeFailed)"
  by (subst aliveServers_lookup) (simp_all add: keyed_by_id_def sample_server_def)

section \<open>The order of the calls\<close>

lemma snd_find_leader:
  "snd (find_leader a known cfg h) = h @ (if delegate_leader known = [] then [CLeader] else [])"
  by (simp add: find_leader_def)

lemma delegate_leader_spec:
  assumes "keyed_by_id m" "\<forall>(i, srv) \<in> set m. i \<noteq> []"
  shows "delegate_leader m = [] \<longleftrightarrow> (\<forall>(i, srv) \<in> set m. \<not> srv_IsLeader srv)"
    "delegate_leader m \<noteq> [] \<Longrightarrow> \<exists>srv. map_of m (delegate_leader m) = Some srv \<and> srv_IsLeader srv"
proof -
  have "delegate_leader m = [] \<longleftrightarrow> (\<forall>(i, srv) \<in> set m. \<not> srv_IsLeader srv)"
    if "\<forall>(i, srv) \<in> set m. i \<noteq> []" for m
    using that by (induction m rule: delegate_leader.induct) auto
  then show "delegate_leader m = [] \<longleftrightarrow> (\<forall>(i, srv) \<in> set m. \<not> srv_IsLeader srv)"
    using assms(2) by blast
  have "\<exists>srv. (delegate_leader m, srv) \<in> set m \<and> srv_IsLeader srv" if "delegate_leader m \<noteq> []" for m
    using that by (induction m rule: delegate_leader.induct) auto
  then show "delegate_leader m \<noteq> [] \<Longrightarrow> \<exists>srv. map_of m (delegate_leader m) = Some srv \<and> srv_IsLeader srv"
    using assms(1) map_of_mem [of m] by (auto simp: keyed_by_id_def)
qed

text \<open>
  The calls of the gathering phase in their order, and the part of a history that the checks of
  the context do not make.
\<close>

definition gather_calls :: "bool \<Rightarrow> Time \<Rightarrow> (ServerID, Server) gomap \<Rightarrow> call list" where
  "gather_calls ask d servers =
     [CNow, CAutopilotConfig, CGetConfiguration, CKnownServers] @ (if ask then [CLeader] else []) @
     [CLastIndex, CRaftState, CStats, CFetchServerStats d servers]"

abbreviation asked :: "call list \<Rightarrow> call list" where
  "asked \<equiv> List.filter (\<lambda>c. c \<noteq> CCtxErr)"

text \<open>
  What a gathering phase asks that begins at a history: raft's leader if the delegate flags no
  known server as the leader (or one with an empty id), and statistics of the known servers that
  have not left, until half an update interval after the start.
\<close>

definition known_for :: "Autopilot \<Rightarrow> hist \<Rightarrow> (ServerID, Server) gomap" where
  "known_for a h = d_KnownServers (ap_delegate a) (h @ [CNow, CAutopilotConfig, CGetConfiguration])"

definition wanted :: "Autopilot \<Rightarrow> hist \<Rightarrow> call list" where
  "wanted a h = gather_calls
     (case List.find (\<lambda>(i, srv). srv_IsLeader srv) (known_for a h) of None \<Rightarrow> True | Some (i, srv) \<Rightarrow> i = [])
     (time_Add (ap_time a h) (go_div (ap_updateInterval a) 2)) (aliveServers (known_for a h))"

lemma delegate_leader_find:
  "delegate_leader m = [] \<longleftrightarrow>
     (case List.find (\<lambda>(i, srv). srv_IsLeader srv) m of None \<Rightarrow> True | Some (i, srv) \<Rightarrow> i = [])"
  by (induction m rule: delegate_leader.induct) simp_all

lemma wanted_eq:
  "wanted a h = gather_calls (delegate_leader (known_for a h) = [])
     (time_Add (ap_time a h) (go_div (ap_updateInterval a) 2)) (aliveServers (known_for a h))"
  by (simp add: wanted_def delegate_leader_find)

definition gather_ok :: "Autopilot \<Rightarrow> hist \<Rightarrow> call list \<Rightarrow> bool \<Rightarrow> bool" where
  "gather_ok a h cs complete \<longleftrightarrow> prefix (asked cs) (wanted a h) \<and> (complete \<longrightarrow> asked cs = wanted a h)"

lemma gather_ok_early:
  "gather_ok a h [CNow] False"
  "gather_ok a h [CNow, CAutopilotConfig] False"
  "gather_ok a h [CNow, CAutopilotConfig, CGetConfiguration] False"
  by (simp_all add: gather_ok_def wanted_def gather_calls_def)

definition gather_done :: "(go_panic + (go_error + nextStateInputs option)) \<times> hist \<Rightarrow> bool" where
  "gather_done r \<longleftrightarrow> (\<exists>inputs. fst r = Inr (Inr (Some inputs)))"

lemma gather_done_simps [simp]:
  "\<not> gather_done (Inl p, h)" "\<not> gather_done (Inr (Inl e), h)" "\<not> gather_done (Inr (Inr None), h)"
  "gather_done (Inr (Inr (Some i)), h)"
  by (simp_all add: gather_done_def)

lemma snd_ctx_abort [simp]: "snd (ctx_abort ctx h) = h @ [CCtxErr]"
  and ctx_abort_not_done [simp]: "\<not> gather_done (ctx_abort ctx h)"
  by (auto simp: ctx_abort_def gather_done_def split: option.splits)

lemma gather_fetch_calls:
  "\<exists>ds. snd (gather_fetch ctx a inputs h) = h @ ds \<and>
     (asked ds = [CStats] \<and> \<not> gather_done (gather_fetch ctx a inputs h) \<or>
      asked ds = [CStats, CFetchServerStats (time_Add (in_Now inputs) (go_div (ap_updateInterval a) 2))
        (aliveServers (in_KnownServers inputs))])"
  unfolding gather_fetch_def Let_def
  apply (cases "lastTerm a h")
  using snd_lastTerm [of a h]
  apply (auto split: sum.splits option.splits)
  done

lemma gather_fetch_after:
  assumes "asked cs = [CNow, CAutopilotConfig, CGetConfiguration, CKnownServers] @
      (if delegate_leader (known_for a h) = [] then [CLeader] else []) @ [CLastIndex, CRaftState]"
    and "in_Now inputs = ap_time a h" "in_KnownServers inputs = known_for a h"
  shows "\<exists>cs'. snd (gather_fetch ctx a inputs (h @ cs)) = h @ cs' \<and>
    gather_ok a h cs' (gather_done (gather_fetch ctx a inputs (h @ cs)))"
proof -
  obtain ds where ds: "snd (gather_fetch ctx a inputs (h @ cs)) = (h @ cs) @ ds"
    "asked ds = [CStats] \<and> \<not> gather_done (gather_fetch ctx a inputs (h @ cs)) \<or>
     asked ds = [CStats, CFetchServerStats (time_Add (ap_time a h) (go_div (ap_updateInterval a) 2))
       (aliveServers (known_for a h))]"
    using gather_fetch_calls [of ctx a inputs "h @ cs"] unfolding assms(2,3) by blast
  have "gather_ok a h (cs @ ds) (gather_done (gather_fetch ctx a inputs (h @ cs)))"
    using ds(2) unfolding gather_ok_def wanted_eq gather_calls_def filter_append assms(1) by fastforce
  with ds(1) show ?thesis by (intro exI [of _ "cs @ ds"]) simp
qed

lemma gather_calls_prefix:
  "\<exists>cs. snd (gatherNextStateInputs ctx a reread h) = h @ cs \<and>
     gather_ok a h cs (gather_done (gatherNextStateInputs ctx a reread h))"
proof -
  let ?h = "h @ [CNow, CAutopilotConfig, CGetConfiguration, CKnownServers]"
  have *: "\<exists>cs. snd (case find_leader a (known_for a h) cfg ?h of
        (leaderID, hb) \<Rightarrow> gather_fetch ctx a (F leaderID hb) (hb @ [CLastIndex, CRaftState])) = h @ cs \<and>
      gather_ok a h cs (gather_done
       (case find_leader a (known_for a h) cfg ?h of
        (leaderID, hb) \<Rightarrow> gather_fetch ctx a (F leaderID hb) (hb @ [CLastIndex, CRaftState])))"
    if "\<And>l hb. in_Now (F l hb) = ap_time a h" "\<And>l hb. in_KnownServers (F l hb) = known_for a h" for cfg F
  proof (cases "delegate_leader (known_for a h) = []")
    case True
    with that show ?thesis
      using gather_fetch_after [of "[CNow, CAutopilotConfig, CGetConfiguration, CKnownServers, CLeader,
        CLastIndex, CRaftState]" a h]
      by (simp add: find_leader_def)
  next
    case False
    with that show ?thesis
      using gather_fetch_after [of "[CNow, CAutopilotConfig, CGetConfiguration, CKnownServers,
        CLastIndex, CRaftState]" a h]
      by (simp add: find_leader_def)
  qed
  have known: "d_KnownServers (ap_delegate a) (h @ [CNow, CAutopilotConfig, CGetConfiguration]) = known_for a h"
    by (simp add: known_for_def)
  show ?thesis
    unfolding gatherNextStateInputs_def Let_def getRaftConfiguration_cases
    apply (split sum.split)
    apply (intro conjI allI impI)
     apply (simp add: gather_ok_early)
    apply (split option.split)
    apply (intro conjI allI impI)
     apply (simp add: gather_ok_early)
    apply (simp add: gather_ok_early * known split: option.split)
    done
qed

text \<open>
  C22: gathering the inputs asks its sources in a fixed order: the clock, the autopilot
  configuration, the raft configuration, the known servers, raft's leader exactly when the
  delegate named none among them, the last index, raft's role and its last term, and only then the
  statistics, namely those of the known servers that have not left, to be fetched until half an
  update interval after the start. A run that ends early (nil configuration, error of raft,
  cancelled context) has asked a prefix of this sequence and nothing else; a run that succeeds has
  asked all of it. The checks of the context in between are left out of the sequence.
\<close>

theorem gather_call_order:
  "prefix (asked (calls (gatherNextStateInputs ctx a reread) h)) (wanted a h) \<and>
   (\<forall>inputs. fst (gatherNextStateInputs ctx a reread h) = Inr (Inr (Some inputs)) \<longrightarrow>
      asked (calls (gatherNextStateInputs ctx a reread) h) = wanted a h)"
proof -
  obtain cs where "snd (gatherNextStateInputs ctx a reread h) = h @ cs"
    "prefix (asked cs) (wanted a h)"
    "gather_done (gatherNextStateInputs ctx a reread h) \<longrightarrow> asked cs = wanted a h"
    using gather_calls_prefix [of ctx a reread h] unfolding gather_ok_def by blast
  then show ?thesis by (auto simp: calls_def gather_done_def)
qed

text \<open>What a run of \<open>gather_fetch\<close> that succeeds returns, and the same for the whole phase.\<close>

lemma gather_fetch_result:
  assumes "fst (gather_fetch ctx a i h) = Inr (Inr (Some inputs))"
  shows "\<exists>tm fetched. inputs = i\<lparr>in_LastTerm := tm, in_FetchedStats := fetched\<rparr> \<and>
     fst (lastTerm a h) = Inr tm \<and>
     fetched = d_FetchServerStats (ap_delegate a) (h @ [CStats, CCtxErr, CCtxErr])
       (time_Add (in_Now i) (go_div (ap_updateInterval a) 2)) (aliveServers (in_KnownServers i))"
proof (cases "lastTerm a h")
  case (Pair r h')
  have h': "h' = h @ [CStats]" using snd_lastTerm [of a h] Pair by simp
  show ?thesis
    using assms Pair unfolding gather_fetch_def Let_def h'
    by (auto simp: ctx_abort_def split: sum.splits option.splits if_splits)
qed

lemma gather_result:
  assumes "fst (gatherNextStateInputs ctx a reread h) = Inr (Inr (Some inputs))"
  shows "in_Now inputs = ap_time a h \<and>
    in_CurrentState inputs = ap_state a \<and>
    (\<exists>t. first_state_time a reread = Inr t \<and>
       in_FirstStateTime inputs = (if time_IsZero t then ap_time a h else t)) \<and>
    d_AutopilotConfig (ap_delegate a) (h @ [CNow]) = Some (in_Config inputs) \<and>
    cf_Error (r_GetConfiguration (ap_raft a) (h @ [CNow, CAutopilotConfig])) = None \<and>
    in_RaftConfig inputs = cf_Configuration (r_GetConfiguration (ap_raft a) (h @ [CNow, CAutopilotConfig])) \<and>
    in_KnownServers inputs =
      d_KnownServers (ap_delegate a) (h @ [CNow, CAutopilotConfig, CGetConfiguration]) \<and>
    in_LeaderID inputs = fst (find_leader a (in_KnownServers inputs) (in_RaftConfig inputs)
      (h @ [CNow, CAutopilotConfig, CGetConfiguration, CKnownServers]))"
  using assms
  unfolding gatherNextStateInputs_def Let_def getRaftConfiguration_cases
  by (auto simp: GetState_def split: sum.splits option.splits prod.splits dest!: gather_fetch_result)

definition sample_gather :: Autopilot where
  "sample_gather = sample_autopilot sample_srvs sample_known no_changes"

lemmas sample_gather_defs = sample_gather_def sample_env_defs gatherNextStateInputs_def
  gather_fetch_def getRaftConfiguration_def find_leader_def lastTerm_def first_state_time_def
  GetState_def zero_State_def sample_known_def sample_srvs_def sample_server_def ParseUint_def
  is_digit_def digit_val_def cutoff_def

lemma sample_gather_succeeds:
  "\<exists>inputs. fst (gatherNextStateInputs (\<lambda>_. None) sample_gather (Some zero_State) []) =
      Inr (Inr (Some inputs)) \<and> in_Now inputs = 100"
  by (simp add: sample_gather_defs)

theorem gather_call_order_witness:
  "asked (calls (gatherNextStateInputs (\<lambda>_. None) sample_gather (Some zero_State)) []) =
     [CNow, CAutopilotConfig, CGetConfiguration, CKnownServers, CLeader, CLastIndex, CRaftState, CStats,
      CFetchServerStats (time_Add 100 (go_div (ap_updateInterval sample_gather) 2)) (aliveServers sample_known)]"
proof -
  have "known_for sample_gather [] = sample_known" "ap_time sample_gather [] = 100"
    by (simp_all add: known_for_def sample_gather_def sample_env_defs)
  moreover have "List.find (\<lambda>(i, srv). srv_IsLeader srv) sample_known = None"
    by (simp add: sample_known_def sample_server_def)
  ultimately have "wanted sample_gather [] =
     [CNow, CAutopilotConfig, CGetConfiguration, CKnownServers, CLeader, CLastIndex, CRaftState, CStats,
      CFetchServerStats (time_Add 100 (go_div (ap_updateInterval sample_gather) 2)) (aliveServers sample_known)]"
    by (simp add: wanted_def gather_calls_def)
  then show ?thesis
    using gather_call_order [of "\<lambda>_. None" sample_gather "Some zero_State" "[]"] sample_gather_succeeds
    by (metis (no_types, lifting))
qed

section \<open>The contents of the inputs\<close>

lemma address_leader_eq:
  "address_leader addr srvs =
     (case List.find (\<lambda>r. rs_Address r = addr) srvs of Some r \<Rightarrow> rs_ID r | None \<Rightarrow> [])"
  by (induction addr srvs rule: address_leader.induct) auto

lemma find_leader_eq:
  assumes "keyed_by_id known" "\<forall>(i, srv) \<in> set known. i \<noteq> []"
  shows "if \<exists>(i, srv) \<in> set known. srv_IsLeader srv
    then \<exists>srv. map_of known (fst (find_leader a known cfg h)) = Some srv \<and> srv_IsLeader srv
    else fst (find_leader a known cfg h) =
      (case List.find (\<lambda>r. rs_Address r = r_Leader (ap_raft a) h) (rc_Servers cfg) of
         Some r \<Rightarrow> rs_ID r | None \<Rightarrow> [])"
  using delegate_leader_spec [OF assms]
  by (auto simp: find_leader_def address_leader_eq)

text \<open>
  C23: inputs that were gathered without interference carry the clock reading of the start, the
  state that was current, the first-state time of that state or, where that is still zero, the
  clock reading, a configuration that is not nil, and a leader: a server that the application
  flags as leader if it flags one, otherwise the first server of the raft configuration at the
  address that raft names, and no one if there is none.
\<close>

theorem gather_contents:
  assumes "fst (gatherNextStateInputs ctx a (ap_state a) h) = Inr (Inr (Some inputs))"
    and "keyed_by_id (in_KnownServers inputs)" "\<forall>(i, srv) \<in> set (in_KnownServers inputs). i \<noteq> []"
  shows "in_Now inputs = ap_time a h \<and> in_CurrentState inputs = ap_state a \<and>
    in_FirstStateTime inputs =
      (case ap_state a of
         Some s \<Rightarrow> if st_firstStateTime s = 0 then ap_time a h else st_firstStateTime s
       | None \<Rightarrow> ap_time a h) \<and>
    (if \<exists>(i, srv) \<in> set (in_KnownServers inputs). srv_IsLeader srv
     then \<exists>srv. map_of (in_KnownServers inputs) (in_LeaderID inputs) = Some srv \<and> srv_IsLeader srv
     else \<exists>h'. in_LeaderID inputs =
       (case List.find (\<lambda>r. rs_Address r = r_Leader (ap_raft a) h') (rc_Servers (in_RaftConfig inputs)) of
          Some r \<Rightarrow> rs_ID r | None \<Rightarrow> []))"
proof -
  note g = gather_result [OF assms(1)]
  let ?h = "h @ [CNow, CAutopilotConfig, CGetConfiguration, CKnownServers]"
  have "in_FirstStateTime inputs =
      (case ap_state a of
         Some s \<Rightarrow> if st_firstStateTime s = 0 then ap_time a h else st_firstStateTime s
       | None \<Rightarrow> ap_time a h)"
    using g by (auto simp: first_state_time_def GetState_def time_IsZero_def split: option.splits)
  moreover have "if \<exists>(i, srv) \<in> set (in_KnownServers inputs). srv_IsLeader srv
     then \<exists>srv. map_of (in_KnownServers inputs) (in_LeaderID inputs) = Some srv \<and> srv_IsLeader srv
     else \<exists>h'. in_LeaderID inputs =
       (case List.find (\<lambda>r. rs_Address r = r_Leader (ap_raft a) h') (rc_Servers (in_RaftConfig inputs)) of
          Some r \<Rightarrow> rs_ID r | None \<Rightarrow> [])"
    using find_leader_eq [OF assms(2,3), of a "in_RaftConfig inputs" ?h] g by (auto split: if_splits)
  ultimately show ?thesis using g by blast
qed

theorem gather_contents_witness:
  "\<exists>inputs. fst (gatherNextStateInputs (\<lambda>_. None) sample_gather (ap_state sample_gather) []) =
      Inr (Inr (Some inputs)) \<and> in_FirstStateTime inputs = 100"
proof -
  obtain inputs where run: "fst (gatherNextStateInputs (\<lambda>_. None) sample_gather (ap_state sample_gather) []) =
      Inr (Inr (Some inputs))" "in_KnownServers inputs = sample_known"
    by (simp add: sample_gather_defs)
  have "in_FirstStateTime inputs = 100"
    using gather_contents [OF run(1)] run(2)
    by (simp add: keyed_by_id_def) (simp add: sample_gather_defs)
  with run(1) show ?thesis by blast
qed

section \<open>The update of the state\<close>

text \<open>The calls to the promoter that build a state.\<close>

fun building_call :: "call \<Rightarrow> bool" where
  "building_call (CGetServerExt _ _) = True"
| "building_call (CGetStateExt _ _) = True"
| "building_call (CGetNodeTypes _ _) = True"
| "building_call _ = False"

lemma nextServers_loop_calls:
  "\<exists>cs. snd (nextServers_loop a inputs srvs m h) = h @ cs \<and> list_all building_call cs"
  by (induction a inputs srvs m h rule: nextServers_loop.induct) (fastforce simp: Let_def)+

lemma nextState_build_calls:
  "\<exists>cs. snd (nextStateWithInputs rng a inputs h) = h @ cs \<and> list_all building_call cs"
proof -
  obtain m h1 where m: "nextServers a inputs h = (m, h1)" by fastforce
  then obtain cs where "h1 = h @ cs" "list_all building_call cs"
    using nextServers_loop_calls [of a inputs "rc_Servers (in_RaftConfig inputs)" "[]" h]
    by (auto simp: nextServers_def)
  then show ?thesis
    unfolding nextStateWithInputs_def m Let_def prod.case
    by (simp split: prod.split sum.split)
qed

lemma gather_no_notify: "gather_ok a h cs c \<Longrightarrow> CNotifyState s \<notin> set cs"
proof
  assume "gather_ok a h cs c" "CNotifyState s \<in> set cs"
  then have "prefix (asked cs) (wanted a h)" "CNotifyState s \<in> set (asked cs)" by (auto simp: gather_ok_def)
  then have "CNotifyState s \<in> set (wanted a h)"
    using set_mono_prefix subsetD by metis
  then show False by (auto simp: wanted_def gather_calls_def split: if_splits)
qed

lemma nextState_calls:
  "\<exists>cs. snd (nextState rng ctx a reread h) = h @ cs \<and> (\<forall>s. CNotifyState s \<notin> set cs)"
proof -
  obtain r h1 where g: "gatherNextStateInputs ctx a reread h = (r, h1)" by fastforce
  then obtain cs where cs: "h1 = h @ cs" "\<forall>s. CNotifyState s \<notin> set cs"
    using gather_calls_prefix [of ctx a reread h] gather_no_notify by auto
  have b: "\<exists>ds. snd (nextStateWithInputs rng a inputs h1) = h @ ds \<and> (\<forall>s. CNotifyState s \<notin> set ds)" for inputs
  proof -
    obtain ds where "snd (nextStateWithInputs rng a inputs h1) = h1 @ ds" "list_all building_call ds"
      using nextState_build_calls [of rng a inputs h1] by blast
    moreover from this(2) have "CNotifyState s \<notin> set ds" for s
      using building_call.simps by (auto simp: list_all_iff)
    ultimately show ?thesis using cs by (intro exI [of _ "cs @ ds"]) simp
  qed
  have "snd (nextState rng ctx a reread h) =
    (case r of Inr (Inr (Some inputs)) \<Rightarrow> snd (nextStateWithInputs rng a inputs h1) | _ \<Rightarrow> h1)"
    by (simp add: nextState_def g split: sum.split option.split prod.split)
  then show ?thesis using b cs by (auto split: sum.split option.split)
qed

text \<open>
  C19: an update of the state is all or nothing. Either the next state could not be computed, and
  then the Autopilot is unchanged and the delegate is not notified; or the computed state is
  stored and the delegate is notified exactly once, with the very state that was stored, as the
  last thing the update does.
\<close>

theorem updateState_outcome:
  assumes "fst (updateState rng ctx a reread h) = Inr a'"
  shows "(a' = a \<and> (\<exists>err. fst (nextState rng ctx a reread h) = Inr (Inl err)) \<and>
      (\<forall>s. CNotifyState s \<notin> set (calls (updateState rng ctx a reread) h))) \<or>
    (\<exists>s cs. fst (nextState rng ctx a reread h) = Inr (Inr s) \<and> a' = a\<lparr>ap_state := Some s\<rparr> \<and>
      calls (updateState rng ctx a reread) h = cs @ [CNotifyState s] \<and>
      (\<forall>s. CNotifyState s \<notin> set cs))"
  using assms nextState_calls [of rng ctx a reread h]
  by (auto simp: updateState_def calls_def split: prod.splits sum.splits)

lemma updateState_state:
  assumes "fst (updateState rng ctx a reread h) = Inr a'" "a' \<noteq> a"
  obtains inputs h1 st h2 where "gatherNextStateInputs ctx a reread h = (Inr (Inr (Some inputs)), h1)"
    "nextStateWithInputs rng a inputs h1 = (Inr st, h2)" "a' = a\<lparr>ap_state := Some st\<rparr>"
  using assms
  by (auto simp: updateState_def nextState_def split: prod.splits sum.splits option.splits)

lemma nextState_time:
  assumes "go_range rng" "ap_state a = Some s"
    and "fst (nextState rng ctx a (ap_state a) h) = Inr (Inr s')"
  shows "st_firstStateTime s' = (if st_firstStateTime s \<noteq> 0 then st_firstStateTime s else ap_time a h)"
proof -
  obtain inputs h1 h2 where g: "gatherNextStateInputs ctx a (ap_state a) h = (Inr (Inr (Some inputs)), h1)"
    and n: "nextStateWithInputs rng a inputs h1 = (Inr s', h2)"
    using assms(3) by (auto simp: nextState_def split: prod.splits sum.splits option.splits)
  obtain m h0 where m: "nextServers a inputs h1 = (m, h0)" by fastforce
  have "st_firstStateTime s' = in_FirstStateTime inputs"
    using nextState_result [OF assms(1) m] n by auto
  then show ?thesis
    using gather_result [of ctx a "ap_state a" h inputs] g assms(2)
    by (auto simp: first_state_time_def GetState_def time_IsZero_def)
qed

text \<open>
  C20: the time of the first state is set once. Starting from a state that has it, an update
  that nobody interferes with keeps it; starting from one that has not, the update leaves the
  Autopilot alone or sets it to the clock reading.
\<close>

theorem updateState_firstStateTime:
  assumes "go_range rng" "ap_state a = Some s"
    and "fst (updateState rng ctx a (ap_state a) h) = Inr a'"
  shows "\<exists>s'. ap_state a' = Some s' \<and>
    (a' = a \<or> st_firstStateTime s' =
      (if st_firstStateTime s \<noteq> 0 then st_firstStateTime s else ap_time a h))"
proof -
  consider "a' = a" | s' where "a' = a\<lparr>ap_state := Some s'\<rparr>" "fst (nextState rng ctx a (ap_state a) h) = Inr (Inr s')"
    using assms(3) by (auto simp: updateState_def split: prod.splits sum.splits)
  then show ?thesis
  proof cases
    case (2 s')
    with nextState_time [OF assms(1,2), of ctx h s'] show ?thesis by simp
  qed (use assms(2) in simp)
qed

text \<open>The context package's promise: a context that has an error keeps having one.\<close>

definition sticky_context :: "Context \<Rightarrow> bool" where
  "sticky_context ctx \<longleftrightarrow> (\<forall>h c. ctx h \<noteq> None \<longrightarrow> ctx (h @ [c]) \<noteq> None)"

definition gather_fine :: "(go_panic + (go_error + nextStateInputs option)) \<times> hist \<Rightarrow> bool" where
  "gather_fine r \<longleftrightarrow> (\<exists>e. fst r = Inr (Inl e)) \<or> (\<exists>i. fst r = Inr (Inr (Some i)))"

lemma gather_fine_simps [simp]:
  "gather_fine (Inr (Inl e), h)" "gather_fine (Inr (Inr (Some i)), h)"
  by (simp_all add: gather_fine_def)

lemma ctx_abort_fine:
  assumes "sticky_context ctx" "ctx h \<noteq> None"
  shows "gather_fine (ctx_abort ctx (h @ [c]))"
  using assms by (auto simp: ctx_abort_def sticky_context_def gather_fine_def split: option.split)

lemma gather_fetch_fine:
  assumes "sticky_context ctx"
  shows "gather_fine (gather_fetch ctx a i h)"
proof -
  have "gather_fine (ctx_abort ctx (h @ [c, c']))" if "ctx (h @ [c]) = Some y" for h c c' y
    using ctx_abort_fine [OF assms, of "h @ [c]" c'] that by simp
  then show ?thesis
    using ctx_abort_fine [OF assms] unfolding gather_fetch_def Let_def
    by (auto split: prod.split sum.split option.split)
qed

lemma gather_no_panic:
  assumes "sticky_context ctx" "ap_state a \<noteq> None \<longrightarrow> reread \<noteq> None"
  shows "gather_fine (gatherNextStateInputs ctx a reread h)"
proof -
  have "\<exists>t. first_state_time a reread = Inr t"
    using assms(2) by (auto simp: first_state_time_def GetState_def split: option.split)
  then show ?thesis
    unfolding gatherNextStateInputs_def Let_def getRaftConfiguration_cases
    by (auto simp: gather_fetch_fine [OF assms(1)] split: option.split prod.split)
qed

lemma update_returns:
  assumes "go_range rng" "sticky_context ctx" "ap_state a \<noteq> None \<longrightarrow> reread \<noteq> None"
  shows "(\<exists>r. fst (ComputeState rng ctx a reread h) = Inr r) \<and>
    (\<exists>a'. fst (updateState rng ctx a reread h) = Inr a')"
proof -
  have b: "\<exists>s h2. nextStateWithInputs rng a inputs h' = (Inr s, h2)" for inputs h'
    by (rule nextState_summary [OF assms(1), of a inputs h']) simp
  obtain r h1 where g: "gatherNextStateInputs ctx a reread h = (r, h1)" by fastforce
  have "(\<exists>e. r = Inr (Inl e)) \<or> (\<exists>i. r = Inr (Inr (Some i)))"
    using gather_no_panic [OF assms(2,3), of h] by (simp add: gather_fine_def g)
  then have "\<exists>r. fst (nextState rng ctx a reread h) = Inr r"
  proof
    assume "\<exists>i. r = Inr (Inr (Some i))"
    then obtain i where i: "r = Inr (Inr (Some i))" ..
    obtain s h2 where "nextStateWithInputs rng a i h1 = (Inr s, h2)" using b by blast
    with g i show ?thesis by (simp add: nextState_def)
  qed (auto simp: nextState_def g)
  then show ?thesis
    by (cases "nextState rng ctx a reread h")
      (auto simp: ComputeState_def updateState_def split: sum.split)
qed

lemma nextState_returns:
  assumes "go_range rng" "sticky_context ctx" "ap_state a \<noteq> None \<longrightarrow> reread \<noteq> None"
  obtains r where "fst (nextState rng ctx a reread h) = Inr r"
  using update_returns [OF assms, of h] by (auto simp: ComputeState_def)

lemma nextState_wf:
  assumes "go_range rng" "fst (nextState rng ctx a reread h) = Inr (Inr st)"
  shows "State_wf st"
  using assms next_State_wf [OF assms(1)]
  by (auto simp: nextState_def split: prod.splits sum.splits option.splits)

text \<open>
  Computing or updating the state never panics, whatever raft, the delegate and the promoter
  answer, as long as no one replaces a non-nil state by a nil one in between (nothing in the
  package ever stores nil) and the context behaves as documented.
\<close>

theorem updateState_no_panic:
  assumes "go_range rng" "sticky_context ctx" "ap_state a \<noteq> None \<longrightarrow> reread \<noteq> None"
  shows "(\<exists>r. fst (ComputeState rng ctx a reread h) = Inr r) \<and>
    (\<exists>a'. fst (updateState rng ctx a reread h) = Inr a')"
  using assms by (rule update_returns)

section \<open>Witnesses\<close>

lemma sample_update:
  "\<exists>s h'. updateState rev (\<lambda>_. None) sample_gather (Some zero_State) [] =
     (Inr (sample_gather\<lparr>ap_state := Some s\<rparr>), h') \<and> fst (nextState rev (\<lambda>_. None) sample_gather (Some zero_State) []) = Inr (Inr s)"
proof -
  obtain inputs h1 where g: "gatherNextStateInputs (\<lambda>_. None) sample_gather (Some zero_State) [] =
      (Inr (Inr (Some inputs)), h1)"
    using sample_gather_succeeds by (metis fst_conv surj_pair)
  obtain s h' m where "nextStateWithInputs rev sample_gather inputs h1 = (Inr s, h')"
    by (rule nextState_summary [OF go_range_rev])
  with g show ?thesis by (simp add: updateState_def nextState_def)
qed

lemma sample_gather_state: "ap_state sample_gather = Some zero_State"
  by (simp add: sample_gather_def sample_env_defs)

theorem updateState_outcome_witness:
  "\<exists>s cs. calls (updateState rev (\<lambda>_. None) sample_gather (Some zero_State)) [] = cs @ [CNotifyState s]"
proof -
  obtain s h' where u: "updateState rev (\<lambda>_. None) sample_gather (Some zero_State) [] =
     (Inr (sample_gather\<lparr>ap_state := Some s\<rparr>), h')"
    "fst (nextState rev (\<lambda>_. None) sample_gather (Some zero_State) []) = Inr (Inr s)"
    using sample_update by blast
  have "fst (updateState rev (\<lambda>_. None) sample_gather (Some zero_State) []) =
      Inr (sample_gather\<lparr>ap_state := Some s\<rparr>)" using u(1) by simp
  from updateState_outcome [OF this] u(2) show ?thesis by auto
qed

theorem updateState_firstStateTime_witness:
  "\<exists>a' s'. fst (updateState rev (\<lambda>_. None) sample_gather (Some zero_State) []) = Inr a' \<and>
     ap_state a' = Some s' \<and> (a' = sample_gather \<or> st_firstStateTime s' = 100)"
proof -
  obtain s h' where u: "fst (updateState rev (\<lambda>_. None) sample_gather (ap_state sample_gather) []) =
      Inr (sample_gather\<lparr>ap_state := Some s\<rparr>)"
    using sample_update sample_gather_state by fastforce
  from updateState_firstStateTime [OF go_range_rev sample_gather_state u] u sample_gather_state
  show ?thesis by (auto simp: zero_State_def) (simp add: sample_gather_def sample_env_defs)
qed

theorem updateState_no_panic_witness:
  "\<exists>a'. fst (updateState rev (\<lambda>_. None) sample_gather (Some zero_State) []) = Inr a'"
  using updateState_no_panic [OF go_range_rev, of "\<lambda>_. None" sample_gather "Some zero_State" "[]"]
  by (simp add: sticky_context_def)

section \<open>The history contract\<close>

interpretation gather: logged "gatherNextStateInputs ctx a reread" for ctx a reread
proof
  show "prefix h (snd (gatherNextStateInputs ctx a reread h))" for h
    using gather_calls_prefix [of ctx a reread h] by auto
qed

interpretation update: logged "updateState rng ctx a reread" for rng ctx a reread
proof
  fix h
  obtain cs where "snd (nextState rng ctx a reread h) = h @ cs"
    using nextState_calls [of rng ctx a reread h] by blast
  then show "prefix h (snd (updateState rng ctx a reread h))"
    by (auto simp: updateState_def split: prod.split sum.split)
qed

end
