(* ===== verification/AP_Stable.thy ===== *)
theory AP_Stable
  imports AP_Env
begin

text \<open>
  The default promoter (stable_promoter.go) and the contracts of promoters that the clients in
  AP_Reconcile and AP_Prune rest on. \<open>CalculatePromotionsAndDemotions\<close> reads the wall clock
  twice, by \<open>time.Now\<close> and, inside \<open>ServerStabilizationTime\<close>, by \<open>time.Since\<close>; the readings are
  the functions \<open>wall\<close> and \<open>since\<close> of the history. The two loops over the server map visit it in
  the order that \<open>rng\<close> picks.
\<close>

fun stable_types_loop :: "(ServerID, ServerState) gomap \<Rightarrow> (ServerID, NodeType) gomap \<Rightarrow> (ServerID, NodeType) gomap" where
  "stable_types_loop [] types = types"
| "stable_types_loop ((i, srv) # es) types = stable_types_loop es (AList.update i NodeVoter types)"

definition stable_GetNodeTypes :: "(ServerID, ServerState) ranger \<Rightarrow> State \<Rightarrow> (ServerID, NodeType) gomap" where
  "stable_GetNodeTypes rng s = stable_types_loop (rng (st_Servers s)) []"

fun stable_promotions_loop :: "Time \<Rightarrow> Duration \<Rightarrow> (ServerID, ServerState) gomap \<Rightarrow> ServerID list \<Rightarrow> ServerID list" where
  "stable_promotions_loop now minStable [] promotions = promotions"
| "stable_promotions_loop now minStable ((i, server) # es) promotions =
     stable_promotions_loop now minStable es
       (if ss_State server = RaftNonVoter \<and> IsStable (Some (ss_Health server)) now minStable
        then promotions @ [i] else promotions)"

definition stable_CalculatePromotionsAndDemotions ::
    "(ServerID, ServerState) ranger \<Rightarrow> Time \<Rightarrow> Time \<Rightarrow> Config \<Rightarrow> State \<Rightarrow> RaftChanges" where
  "stable_CalculatePromotionsAndDemotions rng now since c s =
     (let minStable = ServerStabilizationTime since s c
      in \<lparr>ch_Promotions = stable_promotions_loop now minStable (rng (st_Servers s)) [],
          ch_Demotions = [], ch_Leader = []\<rparr>)"

definition stable_IsPotentialVoter :: "NodeType \<Rightarrow> bool" where
  "stable_IsPotentialVoter t \<longleftrightarrow> t = NodeVoter"

definition StablePromoter :: "(ServerID, ServerState) ranger \<Rightarrow> TimeProvider \<Rightarrow> TimeProvider \<Rightarrow> Promoter" where
  "StablePromoter rng wall since =
     \<lparr>p_GetServerExt = (\<lambda>h c srv. None),
      p_GetStateExt = (\<lambda>h c s. None),
      p_GetNodeTypes = (\<lambda>h c s. stable_GetNodeTypes rng s),
      p_CalculatePromotionsAndDemotions =
        (\<lambda>h c s. stable_CalculatePromotionsAndDemotions rng (wall h) (since h) c s),
      p_FilterFailedServerRemovals = (\<lambda>h c s failed. Some failed),
      p_IsPotentialVoter = stable_IsPotentialVoter\<rparr>"

definition DefaultPromoter :: "(ServerID, ServerState) ranger \<Rightarrow> TimeProvider \<Rightarrow> TimeProvider \<Rightarrow> Promoter" where
  "DefaultPromoter rng wall since = StablePromoter rng wall since"

section \<open>Contracts of promoters\<close>

text \<open>A promoter that never asks for a demotion or for another leader.\<close>

locale promote_only =
  fixes p :: Promoter
  assumes no_demotions: "ch_Demotions (p_CalculatePromotionsAndDemotions p h c s) = []"
    and no_transfer: "ch_Leader (p_CalculatePromotionsAndDemotions p h c s) = []"

text \<open>
  A promoter that answers the question which failed servers may be removed by a part of what it
  was asked about, and never by nil.
\<close>

locale honest_filter =
  fixes p :: Promoter
  assumes filter_part: "\<exists>f'. p_FilterFailedServerRemovals p h c s f = Some f' \<and>
    set (fs_StaleNonVoters f') \<subseteq> set (fs_StaleNonVoters f) \<and>
    set (fs_StaleVoters f') \<subseteq> set (fs_StaleVoters f) \<and>
    set (fs_FailedNonVoters f') \<subseteq> set (fs_FailedNonVoters f) \<and>
    set (fs_FailedVoters f') \<subseteq> set (fs_FailedVoters f) \<and>
    (distinct (fs_StaleNonVoters f) \<longrightarrow> distinct (fs_StaleNonVoters f')) \<and>
    (distinct (fs_StaleVoters f) \<longrightarrow> distinct (fs_StaleVoters f'))"
begin

lemma filter_ex:
  obtains f' where "p_FilterFailedServerRemovals p h c s f = Some f'"
    "set (fs_StaleNonVoters f') \<subseteq> set (fs_StaleNonVoters f)"
    "set (fs_StaleVoters f') \<subseteq> set (fs_StaleVoters f)"
    "distinct (fs_StaleNonVoters f) \<Longrightarrow> distinct (fs_StaleNonVoters f')"
    "distinct (fs_StaleVoters f) \<Longrightarrow> distinct (fs_StaleVoters f')"
  using filter_part [of h c s f] that by blast

end

text \<open>A promoter that is both; no part of the program needs more.\<close>

locale conservative_promoter = promote_only + honest_filter

interpretation stable_changes: promote_only "StablePromoter rng wall since" for rng wall since
  by unfold_locales
    (simp_all add: StablePromoter_def stable_CalculatePromotionsAndDemotions_def Let_def)

interpretation stable_filter: honest_filter "StablePromoter rng wall since" for rng wall since
  by unfold_locales (simp add: StablePromoter_def)

interpretation stable: conservative_promoter "StablePromoter rng wall since" for rng wall since
  by unfold_locales

section \<open>Properties\<close>

lemma stable_promotions_loop_eq:
  "stable_promotions_loop now d es promotions = promotions @
     map fst (filter (\<lambda>(i, v). ss_State v = RaftNonVoter \<and> IsStable (Some (ss_Health v)) now d) es)"
  by (induction now d es promotions rule: stable_promotions_loop.induct) auto

lemma stable_types_loop_map_of:
  "map_of (stable_types_loop es types) i = (if i \<in> fst ` set es then Some NodeVoter else map_of types i)"
  by (induction es types rule: stable_types_loop.induct) (auto simp: map_of_update)

text \<open>
  A raft non-voter that is flagged healthy and whose time stamp \<open>StableSince\<close> is at least as old as
  the stabilization time in force.
\<close>

definition ready_voter :: "Time \<Rightarrow> Time \<Rightarrow> Config \<Rightarrow> State \<Rightarrow> ServerState \<Rightarrow> bool" where
  "ready_voter now since c s v \<longleftrightarrow>
     ss_State v = RaftNonVoter \<and> sh_Healthy (ss_Health v) \<and>
     (if cfg_ServerStabilizationTime c < since - st_firstStateTime s
      then cfg_ServerStabilizationTime c else 0) \<le> now - sh_StableSince (ss_Health v)"

definition representable_stabilization :: "Config \<Rightarrow> bool" where
  "representable_stabilization c \<longleftrightarrow>
     minDuration < cfg_ServerStabilizationTime c \<and> cfg_ServerStabilizationTime c < maxDuration"

lemma ready_voter_stable:
  assumes "representable_stabilization c"
  shows "ready_voter now since c s v \<longleftrightarrow>
    ss_State v = RaftNonVoter \<and> IsStable (Some (ss_Health v)) now (ServerStabilizationTime since s c)"
proof -
  let ?d = "ServerStabilizationTime since s c"
  have cfg: "minDuration < cfg_ServerStabilizationTime c" "cfg_ServerStabilizationTime c < maxDuration"
    using assms by (simp_all add: representable_stabilization_def)
  have d: "?d = (if cfg_ServerStabilizationTime c < since - st_firstStateTime s
      then cfg_ServerStabilizationTime c else 0)"
    using time_Sub_greater_iff [OF less_imp_le [OF cfg(1)] cfg(2)]
    by (simp add: ServerStabilizationTime_def)
  have "minDuration < ?d" "?d \<le> maxDuration"
    unfolding d using cfg by (auto simp: minDuration_def maxDuration_def)
  from IsStable_bounded [OF this] show ?thesis
    by (auto simp: ready_voter_def d)
qed

lemma stable_promotions_mem:
  assumes "go_range rng" "gomap_wf (st_Servers s)" "representable_stabilization c"
  shows "distinct (ch_Promotions (stable_CalculatePromotionsAndDemotions rng now since c s))"
    "i \<in> set (ch_Promotions (stable_CalculatePromotionsAndDemotions rng now since c s)) \<longleftrightarrow>
      (\<exists>v. map_of (st_Servers s) i = Some v \<and> ready_voter now since c s v)"
proof -
  let ?P = "\<lambda>(i, v). ss_State v = RaftNonVoter \<and>
    IsStable (Some (ss_Health v)) now (ServerStabilizationTime since s c)"
  have prom: "ch_Promotions (stable_CalculatePromotionsAndDemotions rng now since c s) =
      map fst (filter ?P (rng (st_Servers s)))"
    by (simp add: stable_CalculatePromotionsAndDemotions_def Let_def stable_promotions_loop_eq)
  have wf: "gomap_wf (rng (st_Servers s))" using assms(1,2) by (simp add: go_range_wf)
  have mem: "(i, v) \<in> set (rng (st_Servers s)) \<longleftrightarrow> map_of (st_Servers s) i = Some v" for i v
    using map_of_mem [OF assms(2)] go_rangeD(2) [OF assms(1)] by simp
  show "distinct (ch_Promotions (stable_CalculatePromotionsAndDemotions rng now since c s))"
    unfolding prom by (rule distinct_map_filter [OF wf])
  show "i \<in> set (ch_Promotions (stable_CalculatePromotionsAndDemotions rng now since c s)) \<longleftrightarrow>
      (\<exists>v. map_of (st_Servers s) i = Some v \<and> ready_voter now since c s v)"
    unfolding prom ready_voter_stable [OF assms(3)] using mem by force
qed

text \<open>
  The default promoter promotes every server that is a raft non-voter, is flagged healthy and has
  a \<open>StableSince\<close> at least as old as the stabilization time in force (the configured one once
  Autopilot has run longer than that, zero before), each once, and no other. It never asks for a demotion or a leadership
  transfer.
\<close>

theorem stable_promotions:
  assumes "go_range rng" "gomap_wf (st_Servers s)" "representable_stabilization c"
  shows "distinct (ch_Promotions (stable_CalculatePromotionsAndDemotions rng now since c s)) \<and>
    ch_Demotions (stable_CalculatePromotionsAndDemotions rng now since c s) = [] \<and>
    ch_Leader (stable_CalculatePromotionsAndDemotions rng now since c s) = [] \<and>
    (\<forall>i. i \<in> set (ch_Promotions (stable_CalculatePromotionsAndDemotions rng now since c s)) \<longleftrightarrow>
      (\<exists>v. map_of (st_Servers s) i = Some v \<and> ready_voter now since c s v))"
  using stable_promotions_mem [OF assms]
  by (simp add: stable_CalculatePromotionsAndDemotions_def Let_def)

text \<open>
  The default promoter classes exactly the servers of the state, each of them as a voter, so
  that in a cluster it runs every known server counts as a potential voter.
\<close>

theorem stable_node_types:
  assumes "go_range rng"
  shows "map_of (p_GetNodeTypes (DefaultPromoter rng wall since) h c s) i =
      (if i \<in> set (keys (st_Servers s)) then Some NodeVoter else None) \<and>
    (p_IsPotentialVoter (DefaultPromoter rng wall since) t \<longleftrightarrow> t = NodeVoter)"
  using go_rangeD(2) [OF assms, of "st_Servers s"]
  by (simp add: DefaultPromoter_def StablePromoter_def stable_GetNodeTypes_def
      stable_types_loop_map_of stable_IsPotentialVoter_def)

section \<open>Witnesses\<close>

definition sample_cluster :: State where
  "sample_cluster = zero_State\<lparr>st_firstStateTime := 100, st_Leader := ''a'', st_Voters := [''a''],
     st_Servers := [(''a'', sample_ss ''a'' ''x'' RaftLeader True 900),
       (''b'', sample_ss ''b'' ''y'' RaftNonVoter True 900),
       (''c'', sample_ss ''c'' ''z'' RaftNonVoter False 900)]\<rparr>"

lemma sample_cluster_wf:
  "gomap_wf (st_Servers sample_cluster)" "representable_stabilization sample_conf"
  by (simp_all add: sample_cluster_def sample_conf_def minDuration_def maxDuration_def
      representable_stabilization_def)

theorem stable_promotions_witness:
  "''b'' \<in> set (ch_Promotions (stable_CalculatePromotionsAndDemotions rev 500 500 sample_conf sample_cluster)) \<and>
   ''c'' \<notin> set (ch_Promotions (stable_CalculatePromotionsAndDemotions rev 500 500 sample_conf sample_cluster))"
  using stable_promotions [OF go_range_rev sample_cluster_wf, of 500 500]
  by (simp add: ready_voter_def sample_cluster_def sample_ss_def sample_conf_def zero_State_def)

theorem stable_node_types_witness:
  "map_of (p_GetNodeTypes (DefaultPromoter rev (\<lambda>_. 0) (\<lambda>_. 0)) [] sample_conf sample_cluster) ''c'' =
     Some NodeVoter"
  using stable_node_types [OF go_range_rev, of "\<lambda>_. 0" "\<lambda>_. 0" "[]" sample_conf sample_cluster "''c''" NodeVoter]
  by (simp add: sample_cluster_def)

end
