(* ===== verification/AP_Reconcile.thy ===== *)
theory AP_Reconcile
  imports AP_Raft AP_Stable
begin

text \<open>
  Promotions, demotions and leadership transfer (reconcile.go): \<open>applyPromotions\<close>,
  \<open>applyDemotions\<close>, \<open>reconcile\<close>. The lemmas reduce the two loops to issuing the calls of a
  filtered list until the first failure (\<open>issue\<close>), and the properties describe the calls that a
  round of reconciliation makes.
\<close>

fun applyPromotions_loop :: "Autopilot \<Rightarrow> State \<Rightarrow> ServerID list \<Rightarrow> bool \<Rightarrow> hist \<Rightarrow>
    (bool \<times> go_error option) \<times> hist" where
  "applyPromotions_loop a state [] promoted h = ((promoted, None), h)"
| "applyPromotions_loop a state (change # changes) promoted h =
     (case map_of (st_Servers state) change of
        None \<Rightarrow> applyPromotions_loop a state changes promoted h
      | Some srv \<Rightarrow>
          if HasVotingRights srv then applyPromotions_loop a state changes promoted h
          else if \<not> sh_Healthy (ss_Health srv) then applyPromotions_loop a state changes promoted h
          else
            (case addVoter a (srv_ID (ss_Server srv)) (srv_Address (ss_Server srv)) h of
               (Some err, h) \<Rightarrow> ((True, Some (ErrPromote (srv_ID (ss_Server srv)) err)), h)
             | (None, h) \<Rightarrow> applyPromotions_loop a state changes True h))"

definition applyPromotions :: "Autopilot \<Rightarrow> State \<Rightarrow> RaftChanges \<Rightarrow> hist \<Rightarrow> (bool \<times> go_error option) \<times> hist" where
  "applyPromotions a state changes h = applyPromotions_loop a state (ch_Promotions changes) False h"

fun applyDemotions_loop :: "Autopilot \<Rightarrow> State \<Rightarrow> bool \<Rightarrow> ServerID list \<Rightarrow> bool \<Rightarrow> hist \<Rightarrow>
    (bool \<times> go_error option) \<times> hist" where
  "applyDemotions_loop a state single [] demoted h = ((demoted, None), h)"
| "applyDemotions_loop a state single (change # changes) demoted h =
     (case map_of (st_Servers state) change of
        None \<Rightarrow> applyDemotions_loop a state single changes demoted h
      | Some srv \<Rightarrow>
          if ss_State srv = RaftNonVoter then applyDemotions_loop a state single changes demoted h
          else if single \<and> sh_Healthy (ss_Health srv) then applyDemotions_loop a state single changes demoted h
          else
            (case demoteVoter a (srv_ID (ss_Server srv)) h of
               (Some err, h) \<Rightarrow> ((True, Some (ErrDemote (srv_ID (ss_Server srv)) err)), h)
             | (None, h) \<Rightarrow>
                 if single then ((True, None), h)
                 else applyDemotions_loop a state single changes True h))"

definition applyDemotions :: "Autopilot \<Rightarrow> State \<Rightarrow> RaftChanges \<Rightarrow> bool \<Rightarrow> hist \<Rightarrow>
    (bool \<times> go_error option) \<times> hist" where
  "applyDemotions a state changes demoteSingleFailedServer h =
     applyDemotions_loop a state demoteSingleFailedServer (ch_Demotions changes) False h"

text \<open>The end of \<open>reconcile\<close>, from the look at the desired leader on.\<close>

definition transfer :: "Autopilot \<Rightarrow> State \<Rightarrow> RaftChanges \<Rightarrow> hist \<Rightarrow> go_error option \<times> hist" where
  "transfer a state changes h =
     (if ch_Leader changes = [] \<or> ch_Leader changes = st_Leader state then (None, h)
      else
        (case map_of (st_Servers state) (ch_Leader changes) of
           None \<Rightarrow> (Some (ErrUnknownLeader (ch_Leader changes)), h)
         | Some srv \<Rightarrow> leadershipTransfer a (ch_Leader changes) (srv_Address (ss_Server srv)) h))"

text \<open>The first step of a round: with an odd number of voters, demote one failed server.\<close>

definition demote_failed_first :: "Autopilot \<Rightarrow> State \<Rightarrow> RaftChanges \<Rightarrow> hist \<Rightarrow> go_error option \<times> hist" where
  "demote_failed_first a state changes h =
     (if length (st_Voters state) mod 2 \<noteq> 0
      then (case applyDemotions a state changes True h of ((_, err), h) \<Rightarrow> (err, h))
      else (None, h))"

text \<open>The steps after it, each of which ends the round if it did anything.\<close>

definition apply_changes :: "Autopilot \<Rightarrow> State \<Rightarrow> RaftChanges \<Rightarrow> hist \<Rightarrow> go_error option \<times> hist" where
  "apply_changes a state changes h =
     (case applyPromotions a state changes h of
        ((True, err), h) \<Rightarrow> (err, h)
      | ((False, _), h) \<Rightarrow>
          (case applyDemotions a state changes False h of
             ((True, err), h) \<Rightarrow> (err, h)
           | ((False, _), h) \<Rightarrow> transfer a state changes h))"

definition reconcile :: "Autopilot \<Rightarrow> hist \<Rightarrow> go_error option \<times> hist" where
  "reconcile a h =
     (if \<not> ReconciliationEnabled a then (None, h)
      else
      let conf = d_AutopilotConfig (ap_delegate a) h; h = h @ [CAutopilotConfig]
      in case conf of
           None \<Rightarrow> (None, h)
         | Some conf \<Rightarrow>
      (case GetState a of
           None \<Rightarrow> (Some ErrNoState, h)
         | Some state \<Rightarrow>
      if st_Leader state = [] then (Some ErrNoState, h)
      else
      let changes = p_CalculatePromotionsAndDemotions (ap_promoter a) h conf state;
          h = h @ [CCalculate conf state]
      in case demote_failed_first a state changes h of
           (Some err, h) \<Rightarrow> (Some err, h)
         | (None, h) \<Rightarrow> apply_changes a state changes h))"

section \<open>Issuing calls until the first failure\<close>

text \<open>The error with which raft answers a change of the membership or the leader.\<close>

fun raft_error :: "Autopilot \<Rightarrow> hist \<Rightarrow> call \<Rightarrow> go_error option" where
  "raft_error a h (CAddNonvoter i addr x y) = r_AddNonvoter (ap_raft a) h i addr x y"
| "raft_error a h (CAddVoter i addr x y) = r_AddVoter (ap_raft a) h i addr x y"
| "raft_error a h (CDemoteVoter i x y) = r_DemoteVoter (ap_raft a) h i x y"
| "raft_error a h (CLeadershipTransfer i addr) = r_LeadershipTransferToServer (ap_raft a) h i addr"
| "raft_error a h (CRemoveServer i x y) = r_RemoveServer (ap_raft a) h i x y"
| "raft_error a h _ = None"

fun issue :: "Autopilot \<Rightarrow> call list \<Rightarrow> hist \<Rightarrow> (call \<times> go_error) option \<times> hist" where
  "issue a [] h = (None, h)"
| "issue a (c # cs) h =
     (case raft_error a h c of Some e \<Rightarrow> (Some (c, e), h @ [c]) | None \<Rightarrow> issue a cs (h @ [c]))"

text \<open>A failed call is the last one, and its failure is reported.\<close>

fun errors_stop :: "Autopilot \<Rightarrow> hist \<Rightarrow> call list \<Rightarrow> bool \<Rightarrow> bool" where
  "errors_stop a h [] failed = True"
| "errors_stop a h (c # cs) failed =
     ((raft_error a h c \<noteq> None \<longrightarrow> cs = [] \<and> failed) \<and> errors_stop a (h @ [c]) cs failed)"

lemma errors_stop_append:
  "errors_stop a h cs False \<Longrightarrow> errors_stop a (h @ cs) ds failed \<Longrightarrow> errors_stop a h (cs @ ds) failed"
  by (induction cs arbitrary: h) auto

lemma issue_result:
  "\<exists>ds. snd (issue a cs h) = h @ ds \<and> prefix ds cs \<and> errors_stop a h ds (fst (issue a cs h) \<noteq> None) \<and>
     (case fst (issue a cs h) of
        None \<Rightarrow> ds = cs
      | Some (c, e) \<Rightarrow> \<exists>xs. ds = xs @ [c] \<and> raft_error a (h @ xs) c = Some e)"
proof (induction a cs h rule: issue.induct)
  case (2 a c cs h)
  show ?case
  proof (cases "raft_error a h c")
    case (Some e)
    then show ?thesis by (intro exI [of _ "[c]"]) simp
  next
    case None
    with 2 obtain ds where ds: "snd (issue a cs (h @ [c])) = (h @ [c]) @ ds" "prefix ds cs"
      "errors_stop a (h @ [c]) ds (fst (issue a cs (h @ [c])) \<noteq> None)"
      "case fst (issue a cs (h @ [c])) of None \<Rightarrow> ds = cs
       | Some (c', e) \<Rightarrow> \<exists>xs. ds = xs @ [c'] \<and> raft_error a ((h @ [c]) @ xs) c' = Some e" by blast
    show ?thesis
    proof (intro exI [of _ "c # ds"] conjI)
      show "case fst (issue a (c # cs) h) of None \<Rightarrow> c # ds = c # cs
        | Some (c', e) \<Rightarrow> \<exists>xs. c # ds = xs @ [c'] \<and> raft_error a (h @ xs) c' = Some e"
        using ds(4) None by (fastforce split: option.splits)
    qed (use ds None in \<open>simp_all\<close>)
  qed
qed simp

section \<open>The two loops\<close>

text \<open>The servers that a list of promotions or demotions is about, in its order.\<close>

definition promotable :: "State \<Rightarrow> ServerID list \<Rightarrow> ServerState list" where
  "promotable st ids =
     filter (\<lambda>v. \<not> HasVotingRights v \<and> sh_Healthy (ss_Health v))
       (List.map_filter (\<lambda>i. map_of (st_Servers st) i) ids)"

definition demotable :: "State \<Rightarrow> ServerID list \<Rightarrow> ServerState list" where
  "demotable st ids =
     filter (\<lambda>v. ss_State v \<noteq> RaftNonVoter) (List.map_filter (\<lambda>i. map_of (st_Servers st) i) ids)"

definition failed_demotable :: "State \<Rightarrow> ServerID list \<Rightarrow> ServerState list" where
  "failed_demotable st ids = filter (\<lambda>v. \<not> sh_Healthy (ss_Health v)) (demotable st ids)"

fun promote_call :: "ServerState \<Rightarrow> call" where
  "promote_call v = CAddVoter (srv_ID (ss_Server v)) (srv_Address (ss_Server v)) 0 0"

fun demote_call :: "ServerState \<Rightarrow> call" where
  "demote_call v = CDemoteVoter (srv_ID (ss_Server v)) 0 0"

fun call_target :: "call \<Rightarrow> ServerID" where
  "call_target (CAddVoter i _ _ _) = i"
| "call_target (CDemoteVoter i _ _) = i"
| "call_target _ = []"

text \<open>What a loop returns, from the outcome of issuing its calls.\<close>

fun loop_result :: "(ServerID \<Rightarrow> go_error \<Rightarrow> go_error) \<Rightarrow> bool \<Rightarrow> (call \<times> go_error) option \<times> hist \<Rightarrow>
    (bool \<times> go_error option) \<times> hist" where
  "loop_result mk b (None, h) = ((b, None), h)"
| "loop_result mk b (Some (c, e), h) = ((True, Some (mk (call_target c) e)), h)"

lemmas selection_defs = promotable_def demotable_def failed_demotable_def List.map_filter_simps

lemma applyPromotions_loop_eq:
  "applyPromotions_loop a st ids b h =
     loop_result ErrPromote (b \<or> promotable st ids \<noteq> []) (issue a (map promote_call (promotable st ids)) h)"
  by (induction a st ids b h rule: applyPromotions_loop.induct)
    (simp_all add: selection_defs split: option.split)

lemma applyDemotions_loop_eq:
  "applyDemotions_loop a st False ids b h =
     loop_result ErrDemote (b \<or> demotable st ids \<noteq> []) (issue a (map demote_call (demotable st ids)) h)"
  by (induction a st False ids b h rule: applyDemotions_loop.induct)
    (simp_all add: selection_defs split: option.split)

lemma applyDemotions_single_eq:
  "applyDemotions_loop a st True ids b h =
     loop_result ErrDemote (b \<or> failed_demotable st ids \<noteq> [])
       (issue a (map demote_call (take 1 (failed_demotable st ids))) h)"
  by (induction a st True ids b h rule: applyDemotions_loop.induct)
    (simp_all add: selection_defs split: option.split)

section \<open>A round as a plan\<close>

text \<open>
  The calls that a round sets out to make for a state and the promoter's changes: with an odd
  number of voters first the demotion of one failed server; then all promotions, or if there are
  none all demotions, or if there are none either the leadership transfer.
\<close>

definition failed_plan :: "State \<Rightarrow> RaftChanges \<Rightarrow> call list" where
  "failed_plan st changes =
     (if length (st_Voters st) mod 2 \<noteq> 0
      then map demote_call (take 1 (failed_demotable st (ch_Demotions changes))) else [])"

definition changes_plan :: "State \<Rightarrow> RaftChanges \<Rightarrow> call list" where
  "changes_plan st changes =
     (if promotable st (ch_Promotions changes) \<noteq> []
      then map promote_call (promotable st (ch_Promotions changes))
      else if demotable st (ch_Demotions changes) \<noteq> []
      then map demote_call (demotable st (ch_Demotions changes))
      else if ch_Leader changes = [] \<or> ch_Leader changes = st_Leader st then []
      else
        (case map_of (st_Servers st) (ch_Leader changes) of
           None \<Rightarrow> []
         | Some srv \<Rightarrow> [CLeadershipTransfer (ch_Leader changes) (srv_Address (ss_Server srv))]))"

definition round_plan :: "State \<Rightarrow> RaftChanges \<Rightarrow> call list" where
  "round_plan st changes = failed_plan st changes @ changes_plan st changes"

text \<open>The one error of a round that no call to raft causes.\<close>

definition unknown_leader :: "State \<Rightarrow> RaftChanges \<Rightarrow> bool" where
  "unknown_leader st changes \<longleftrightarrow>
     promotable st (ch_Promotions changes) = [] \<and> demotable st (ch_Demotions changes) = [] \<and>
     ch_Leader changes \<noteq> [] \<and> ch_Leader changes \<noteq> st_Leader st \<and>
     map_of (st_Servers st) (ch_Leader changes) = None"

text \<open>A round gets to ask the promoter: it is enabled, has a configuration and knows a leader.\<close>

definition active_round :: "Autopilot \<Rightarrow> hist \<Rightarrow> Config \<Rightarrow> State \<Rightarrow> bool" where
  "active_round a h conf st \<longleftrightarrow>
     ReconciliationEnabled a \<and> d_AutopilotConfig (ap_delegate a) h = Some conf \<and>
     GetState a = Some st \<and> st_Leader st \<noteq> []"

abbreviation round_changes :: "Autopilot \<Rightarrow> hist \<Rightarrow> Config \<Rightarrow> State \<Rightarrow> RaftChanges" where
  "round_changes a h conf st \<equiv>
     p_CalculatePromotionsAndDemotions (ap_promoter a) (h @ [CAutopilotConfig]) conf st"

lemma issue_append:
  "issue a (xs @ ys) h =
     (case issue a xs h of (None, h') \<Rightarrow> issue a ys h' | (Some r, h') \<Rightarrow> (Some r, h'))"
  by (induction a xs h rule: issue.induct) (auto split: option.split)

lemma loop_result_split:
  "loop_result mk b r = (case r of (None, h) \<Rightarrow> ((b, None), h)
     | (Some (c, e), h) \<Rightarrow> ((True, Some (mk (call_target c) e)), h))"
  by (cases "(mk, b, r)" rule: loop_result.cases) auto

lemma demote_failed_first_issue:
  "snd (demote_failed_first a st changes h) = snd (issue a (failed_plan st changes) h) \<and>
   (fst (demote_failed_first a st changes h) = None \<longleftrightarrow> fst (issue a (failed_plan st changes) h) = None)"
  by (auto simp: demote_failed_first_def failed_plan_def applyDemotions_def applyDemotions_single_eq
      loop_result_split split: prod.split option.split)

lemma transfer_issue:
  assumes "promotable st (ch_Promotions changes) = []" "demotable st (ch_Demotions changes) = []"
  shows "snd (transfer a st changes h) = snd (issue a (changes_plan st changes) h) \<and>
    (fst (transfer a st changes h) = None \<longleftrightarrow>
      fst (issue a (changes_plan st changes) h) = None \<and> \<not> unknown_leader st changes)"
  using assms by (auto simp: transfer_def leadershipTransfer_def changes_plan_def unknown_leader_def
      split: option.split)

lemma apply_changes_issue:
  "snd (apply_changes a st changes h) = snd (issue a (changes_plan st changes) h) \<and>
   (fst (apply_changes a st changes h) = None \<longleftrightarrow>
      fst (issue a (changes_plan st changes) h) = None \<and> \<not> unknown_leader st changes)"
proof -
  consider (pro) "promotable st (ch_Promotions changes) \<noteq> []"
    | (dem) "promotable st (ch_Promotions changes) = []" "demotable st (ch_Demotions changes) \<noteq> []"
    | (neither) "promotable st (ch_Promotions changes) = []" "demotable st (ch_Demotions changes) = []"
    by blast
  then show ?thesis
  proof cases
    case pro
    then show ?thesis
      by (auto simp: apply_changes_def applyPromotions_def applyPromotions_loop_eq loop_result_split
          changes_plan_def unknown_leader_def split: prod.split option.split)
  next
    case dem
    then show ?thesis
      by (auto simp: apply_changes_def applyPromotions_def applyPromotions_loop_eq
          applyDemotions_def applyDemotions_loop_eq loop_result_split
          changes_plan_def unknown_leader_def split: prod.split option.split)
  next
    case neither
    then have "apply_changes a st changes h = transfer a st changes h"
      by (simp add: apply_changes_def applyPromotions_def applyPromotions_loop_eq
          applyDemotions_def applyDemotions_loop_eq)
    with transfer_issue [OF neither] show ?thesis by simp
  qed
qed

text \<open>The simulation: an active round does what issuing its plan does.\<close>

lemma reconcile_issue:
  fixes a h conf st
  defines "changes \<equiv> round_changes a h conf st"
  defines "run \<equiv> issue a (round_plan st changes) (h @ [CAutopilotConfig, CCalculate conf st])"
  assumes "active_round a h conf st"
  shows "snd (reconcile a h) = snd run \<and>
    (fst (reconcile a h) = None \<longleftrightarrow> fst run = None \<and> \<not> unknown_leader st changes)"
proof -
  let ?h = "h @ [CAutopilotConfig, CCalculate conf st]"
  have rec: "reconcile a h = (case demote_failed_first a st changes ?h of
      (Some err, h) \<Rightarrow> (Some err, h) | (None, h) \<Rightarrow> apply_changes a st changes h)"
    using assms(3) unfolding changes_def by (simp add: reconcile_def active_round_def Let_def)
  obtain d hd where d: "demote_failed_first a st changes ?h = (d, hd)" by fastforce
  obtain i hi where i: "issue a (failed_plan st changes) ?h = (i, hi)" by fastforce
  have di: "hi = hd" "d = None \<longleftrightarrow> i = None"
    using demote_failed_first_issue [of a st changes ?h] d i by auto
  show ?thesis
    using apply_changes_issue [of a st changes hd] di
    unfolding rec d run_def round_plan_def issue_append i
    by (auto split: option.split)
qed

text \<open>A round that is not active asks for the configuration at most.\<close>

lemma reconcile_inactive:
  assumes "\<nexists>conf st. active_round a h conf st"
  shows "snd (reconcile a h) \<in> {h, h @ [CAutopilotConfig]}"
  using assms by (auto simp: reconcile_def active_round_def Let_def split: option.split)

lemma reconcile_round_cases:
  obtains (inactive) "snd (reconcile a h) \<in> {h, h @ [CAutopilotConfig]}"
  | (active) conf st ds where "active_round a h conf st"
      "snd (reconcile a h) = h @ [CAutopilotConfig, CCalculate conf st] @ ds"
      "prefix ds (round_plan st (round_changes a h conf st))"
proof (cases "\<exists>conf st. active_round a h conf st")
  case True
  then obtain conf st where act: "active_round a h conf st" by blast
  obtain ds where "snd (issue a (round_plan st (round_changes a h conf st))
      (h @ [CAutopilotConfig, CCalculate conf st])) = (h @ [CAutopilotConfig, CCalculate conf st]) @ ds"
    "prefix ds (round_plan st (round_changes a h conf st))"
    using issue_result by blast
  with reconcile_issue [OF act] show thesis using active [OF act] by simp
next
  case False
  from reconcile_inactive [OF this] show thesis by (rule inactive)
qed

section \<open>The shape of a plan\<close>

lemma demotable_mem:
  "v \<in> set (demotable st ids) \<longleftrightarrow>
     ss_State v \<noteq> RaftNonVoter \<and> (\<exists>i \<in> set ids. map_of (st_Servers st) i = Some v)"
  by (induction ids) (auto simp: selection_defs split: option.split)

lemma promotable_mem:
  "v \<in> set (promotable st ids) \<longleftrightarrow>
     \<not> HasVotingRights v \<and> sh_Healthy (ss_Health v) \<and> (\<exists>i \<in> set ids. map_of (st_Servers st) i = Some v)"
  by (induction ids) (auto simp: selection_defs split: option.split)

lemma failed_demotable_mem:
  "v \<in> set (failed_demotable st ids) \<longleftrightarrow> v \<in> set (demotable st ids) \<and> \<not> sh_Healthy (ss_Health v)"
  by (auto simp: failed_demotable_def)

fun is_transfer :: "call \<Rightarrow> bool" where
  "is_transfer (CLeadershipTransfer _ _) = True"
| "is_transfer _ = False"

fun is_promotion :: "call \<Rightarrow> bool" where
  "is_promotion (CAddVoter _ _ _ _) = True"
| "is_promotion _ = False"

fun is_demotion :: "call \<Rightarrow> bool" where
  "is_demotion (CDemoteVoter _ _ _) = True"
| "is_demotion _ = False"

lemma failed_plan_mem:
  "c \<in> set (failed_plan st changes) \<Longrightarrow>
     \<exists>v \<in> set (failed_demotable st (ch_Demotions changes)). c = demote_call v"
  by (auto simp: failed_plan_def split: if_splits dest: in_set_takeD)

lemma failed_plan_short: "length (failed_plan st changes) \<le> 1"
  by (simp add: failed_plan_def)

lemma changes_plan_cases:
  obtains (promotions) "promotable st (ch_Promotions changes) \<noteq> []"
      "changes_plan st changes = map promote_call (promotable st (ch_Promotions changes))"
  | (demotions) "promotable st (ch_Promotions changes) = []" "demotable st (ch_Demotions changes) \<noteq> []"
      "changes_plan st changes = map demote_call (demotable st (ch_Demotions changes))"
  | (transfer) v where "promotable st (ch_Promotions changes) = []" "demotable st (ch_Demotions changes) = []"
      "map_of (st_Servers st) (ch_Leader changes) = Some v" "failed_plan st changes = []"
      "changes_plan st changes = [CLeadershipTransfer (ch_Leader changes) (srv_Address (ss_Server v))]"
  | (idle) "promotable st (ch_Promotions changes) = []" "demotable st (ch_Demotions changes) = []"
      "changes_plan st changes = []"
proof (cases "promotable st (ch_Promotions changes) = []")
  case True
  show thesis
  proof (cases "demotable st (ch_Demotions changes) = []")
    case d: True
    then have "failed_plan st changes = []"
      by (simp add: failed_plan_def failed_demotable_def)
    moreover have "changes_plan st changes = [] \<or>
        (\<exists>v. map_of (st_Servers st) (ch_Leader changes) = Some v \<and>
          changes_plan st changes = [CLeadershipTransfer (ch_Leader changes) (srv_Address (ss_Server v))])"
      using True d by (auto simp: changes_plan_def split: option.split)
    ultimately show thesis using True d transfer idle by metis
  qed (use True demotions in \<open>auto simp: changes_plan_def\<close>)
qed (use promotions in \<open>auto simp: changes_plan_def\<close>)

lemma prefix_splitE:
  assumes "prefix ds (xs @ ys)"
  obtains us vs where "ds = us @ vs" "prefix us xs" "prefix vs ys" "vs \<noteq> [] \<Longrightarrow> us = xs"
  using assms unfolding prefix_append by (metis append_Nil2 prefix_order.refl Nil_prefix)

text \<open>Every call of a round is one of these, with its target taken from the state.\<close>

definition targets_ok :: "State \<Rightarrow> RaftChanges \<Rightarrow> call \<Rightarrow> bool" where
  "targets_ok st changes c \<longleftrightarrow>
     (\<exists>i \<in> set (ch_Promotions changes). \<exists>v. map_of (st_Servers st) i = Some v \<and>
        \<not> HasVotingRights v \<and> sh_Healthy (ss_Health v) \<and> c = promote_call v) \<or>
     (\<exists>i \<in> set (ch_Demotions changes). \<exists>v. map_of (st_Servers st) i = Some v \<and>
        ss_State v \<noteq> RaftNonVoter \<and> c = demote_call v) \<or>
     (\<exists>v. map_of (st_Servers st) (ch_Leader changes) = Some v \<and>
        c = CLeadershipTransfer (ch_Leader changes) (srv_Address (ss_Server v)))"

lemma round_plan_targets: "c \<in> set (round_plan st changes) \<Longrightarrow> targets_ok st changes c"
proof -
  have "targets_ok st changes c" if cf: "c \<in> set (failed_plan st changes)"
  proof -
    obtain v where "v \<in> set (failed_demotable st (ch_Demotions changes))" "c = demote_call v"
      using failed_plan_mem [OF cf] by blast
    then show ?thesis unfolding targets_ok_def failed_demotable_mem demotable_mem by blast
  qed
  moreover have "targets_ok st changes c" if "c \<in> set (changes_plan st changes)"
  proof (cases rule: changes_plan_cases [of st changes])
    case promotions
    with that obtain v where "v \<in> set (promotable st (ch_Promotions changes))" "c = promote_call v"
      by auto
    then show ?thesis unfolding targets_ok_def promotable_mem by blast
  next
    case demotions
    with that obtain v where "v \<in> set (demotable st (ch_Demotions changes))" "c = demote_call v"
      by auto
    then show ?thesis unfolding targets_ok_def demotable_mem by blast
  qed (use that in \<open>auto simp: targets_ok_def\<close>)
  moreover assume "c \<in> set (round_plan st changes)"
  ultimately show ?thesis by (auto simp: round_plan_def)
qed

lemma plan_transfer_alone:
  assumes "prefix ds (round_plan st changes)" "c \<in> set ds" "is_transfer c"
  shows "ds = [c]"
proof (cases rule: changes_plan_cases [of st changes])
  case (transfer v)
  with assms show ?thesis by (auto simp: round_plan_def prefix_Cons)
qed (use assms failed_plan_mem in \<open>fastforce simp: round_plan_def dest: set_mono_prefix\<close>)+

lemma plan_promotions:
  assumes "prefix ds (round_plan st changes)" "c \<in> set ds" "is_promotion c"
  shows "\<exists>us vs. ds = us @ vs \<and> prefix us (failed_plan st changes) \<and> list_all is_promotion vs"
proof -
  obtain us vs where ds: "ds = us @ vs" "prefix us (failed_plan st changes)" "prefix vs (changes_plan st changes)"
    using assms(1) unfolding round_plan_def by (rule prefix_splitE)
  have "c \<notin> set us" using ds(2) assms(3) failed_plan_mem set_mono_prefix by fastforce
  then have c: "c \<in> set (changes_plan st changes)" using assms(2) ds(1,3) set_mono_prefix by fastforce
  have "list_all is_promotion (changes_plan st changes)"
    by (cases rule: changes_plan_cases [of st changes])
      (use c assms(3) in \<open>auto simp: list_all_iff\<close>)
  then have "list_all is_promotion vs" using ds(3) by (auto simp: list_all_iff dest: set_mono_prefix)
  with ds show ?thesis by blast
qed

section \<open>Properties\<close>

text \<open>
  C3: an active round is determined by its plan. The calls it makes are the two that look up the
  configuration and ask the promoter, followed by an initial part of the plan; a call that raft
  answers with an error is the last one, and its error is reported. The round reports success
  exactly when it has carried out the whole plan without an error and the desired leader, if it
  got that far, is a server of the state.
\<close>

theorem reconcile_follows_plan:
  assumes "active_round a h conf st"
  shows "\<exists>ds. calls (reconcile a) h = [CAutopilotConfig, CCalculate conf st] @ ds \<and>
    prefix ds (round_plan st (round_changes a h conf st)) \<and>
    errors_stop a (h @ [CAutopilotConfig, CCalculate conf st]) ds (fst (reconcile a h) \<noteq> None) \<and>
    (fst (reconcile a h) = None \<longleftrightarrow>
      ds = round_plan st (round_changes a h conf st) \<and>
      \<not> unknown_leader st (round_changes a h conf st) \<and>
      errors_stop a (h @ [CAutopilotConfig, CCalculate conf st]) ds False)"
proof -
  let ?h = "h @ [CAutopilotConfig, CCalculate conf st]"
  let ?p = "round_plan st (round_changes a h conf st)"
  obtain ds where ds: "snd (issue a ?p ?h) = ?h @ ds" "prefix ds ?p"
    "errors_stop a ?h ds (fst (issue a ?p ?h) \<noteq> None)"
    "case fst (issue a ?p ?h) of None \<Rightarrow> ds = ?p
     | Some (c, e) \<Rightarrow> \<exists>xs. ds = xs @ [c] \<and> raft_error a (?h @ xs) c = Some e"
    using issue_result by blast
  note r = reconcile_issue [OF assms]
  have "\<not> errors_stop a ?h ds False" if fe: "fst (issue a ?p ?h) \<noteq> None"
  proof
    assume "errors_stop a ?h ds False"
    moreover obtain xs c where "ds = xs @ [c]" "raft_error a (?h @ xs) c \<noteq> None"
      using fe ds(4) by (auto split: option.splits)
    moreover have "\<not> errors_stop a h' (xs @ [c]) False" if "raft_error a (h' @ xs) c \<noteq> None" for h' xs
      using that by (induction xs arbitrary: h') auto
    ultimately show False by blast
  qed
  moreover have "errors_stop a ?h ds True" if "errors_stop a ?h ds b" for b
  proof -
    have "errors_stop a h' ds b \<Longrightarrow> errors_stop a h' ds True" for h' ds
      by (induction ds arbitrary: h') auto
    then show ?thesis using that by blast
  qed
  ultimately show ?thesis
    using ds r by (intro exI [of _ ds]) (auto simp: calls_def)
qed

text \<open>
  C15: promotions, demotions of healthy servers and leadership transfers never happen in the same
  round: a round with a transfer changes no voting rights, and a round with a promotion has at
  most one demotion, which comes first and is that of a server that is not healthy in the state.
\<close>

theorem reconcile_exclusive:
  "((\<exists>c \<in> set (calls (reconcile a) h). is_transfer c) \<longrightarrow>
      \<not> (\<exists>c \<in> set (calls (reconcile a) h). is_promotion c \<or> is_demotion c)) \<and>
   ((\<exists>c \<in> set (calls (reconcile a) h). is_promotion c) \<longrightarrow>
      (\<exists>conf st us vs. calls (reconcile a) h = [CAutopilotConfig, CCalculate conf st] @ us @ vs \<and>
        active_round a h conf st \<and> length us \<le> 1 \<and>
        (\<forall>c \<in> set us. \<exists>i v. map_of (st_Servers st) i = Some v \<and> \<not> sh_Healthy (ss_Health v) \<and>
           c = demote_call v) \<and>
        list_all is_promotion vs))"
proof (cases rule: reconcile_round_cases [of a h])
  case inactive
  then have "set (calls (reconcile a) h) \<subseteq> {CAutopilotConfig}" by (auto simp: calls_def)
  then show ?thesis by auto
next
  case (active conf st ds)
  then have cs: "calls (reconcile a) h = [CAutopilotConfig, CCalculate conf st] @ ds"
    by (simp add: calls_def)
  have "ds = [c]" if "c \<in> set ds" "is_transfer c" for c
    by (rule plan_transfer_alone [OF active(3) that])
  moreover have "is_transfer c \<Longrightarrow> \<not> is_promotion c \<and> \<not> is_demotion c" for c by (cases c) auto
  moreover have "\<exists>us vs. ds = us @ vs \<and> length us \<le> 1 \<and>
      (\<forall>c \<in> set us. \<exists>i v. map_of (st_Servers st) i = Some v \<and> \<not> sh_Healthy (ss_Health v) \<and>
         c = demote_call v) \<and> list_all is_promotion vs"
    if pro: "c \<in> set ds" "is_promotion c" for c
  proof -
    let ?ch = "round_changes a h conf st"
    obtain us vs where ds: "ds = us @ vs" "prefix us (failed_plan st ?ch)" "list_all is_promotion vs"
      using plan_promotions [OF active(3) pro] by blast
    have "length us \<le> 1" using prefix_length_le [OF ds(2)] failed_plan_short [of st ?ch] by simp
    moreover have "\<exists>i v. map_of (st_Servers st) i = Some v \<and> \<not> sh_Healthy (ss_Health v) \<and> c = demote_call v"
      if "c \<in> set us" for c
    proof -
      have "c \<in> set (failed_plan st ?ch)" using that set_mono_prefix [OF ds(2)] by blast
      then obtain v where "v \<in> set (failed_demotable st (ch_Demotions ?ch))" "c = demote_call v"
        using failed_plan_mem by blast
      then show ?thesis unfolding failed_demotable_mem demotable_mem by blast
    qed
    ultimately show ?thesis using ds by blast
  qed
  ultimately show ?thesis using active(1) unfolding cs by fastforce
qed

lemma reconcile_round_target:
  assumes "c \<in> set (calls (reconcile a) h)"
  shows "c = CAutopilotConfig \<or>
    (\<exists>conf st. active_round a h conf st \<and>
      (c = CCalculate conf st \<or> targets_ok st (round_changes a h conf st) c))"
proof (cases rule: reconcile_round_cases [of a h])
  case inactive
  then show ?thesis using assms by (auto simp: calls_def)
next
  case (active conf st ds)
  then have "c = CAutopilotConfig \<or> c = CCalculate conf st \<or> c \<in> set ds"
    using assms by (auto simp: calls_def)
  moreover have "targets_ok st (round_changes a h conf st) c" if "c \<in> set ds"
    using that set_mono_prefix [OF active(3)] round_plan_targets by blast
  ultimately show ?thesis using active(1) by blast
qed

text \<open>
  C16: a round changes voting rights only of servers that the state knows and the promoter named:
  it promotes only healthy servers without voting rights, demotes only servers that are not
  non-voters, and transfers leadership only to a known server, at the address the state has for
  it. Every other call of a round only reads.
\<close>

theorem reconcile_targets:
  assumes "c \<in> set (calls (reconcile a) h)"
  shows "c = CAutopilotConfig \<or>
    (\<exists>conf st. active_round a h conf st \<and>
      (c = CCalculate conf st \<or> targets_ok st (round_changes a h conf st) c))"
  using assms by (rule reconcile_round_target)

text \<open>
  A disabled, unconfigured or leaderless Autopilot leaves raft alone: outside an active round
  nothing but the configuration is looked up, and an error is reported only if reconciliation is
  enabled and configured but there is no state with a leader.
\<close>

theorem reconcile_idle:
  assumes "\<nexists>conf st. active_round a h conf st"
  shows "calls (reconcile a) h = (if ReconciliationEnabled a then [CAutopilotConfig] else []) \<and>
    fst (reconcile a h) =
      (if ReconciliationEnabled a \<and> d_AutopilotConfig (ap_delegate a) h \<noteq> None then Some ErrNoState else None)"
  using assms by (auto simp: reconcile_def active_round_def calls_def Let_def split: option.split)

text \<open>
  C33: with an odd number of voters and nobody to promote, a round that reports success has asked
  twice for the demotion of a failed server: once by the step that is meant to demote a single
  server, and again by the step that applies all demotions, which works from the same unchanged
  state. Only a refusal by raft prevents this: a round that fails has asked for an initial part of
  the same sequence, up to the call that raft refused.
\<close>

theorem single_demotion_repeated:
  assumes "active_round a h conf st" "length (st_Voters st) mod 2 \<noteq> 0"
    and "promotable st (ch_Promotions (round_changes a h conf st)) = []"
    and "failed_demotable st (ch_Demotions (round_changes a h conf st)) = v # vs"
  shows "v \<in> set (demotable st (ch_Demotions (round_changes a h conf st))) \<and>
    (\<exists>ds. calls (reconcile a) h = [CAutopilotConfig, CCalculate conf st] @ ds \<and>
      prefix ds (demote_call v # map demote_call (demotable st (ch_Demotions (round_changes a h conf st)))) \<and>
      (if fst (reconcile a h) = None
       then ds = demote_call v # map demote_call (demotable st (ch_Demotions (round_changes a h conf st)))
       else \<exists>xs c. ds = xs @ [c] \<and> raft_error a (h @ [CAutopilotConfig, CCalculate conf st] @ xs) c \<noteq> None))"
proof -
  let ?ch = "round_changes a h conf st" and ?h = "h @ [CAutopilotConfig, CCalculate conf st]"
  let ?plan = "demote_call v # map demote_call (demotable st (ch_Demotions ?ch))"
  have v: "v \<in> set (demotable st (ch_Demotions ?ch))"
    using assms(4) failed_demotable_mem [of v st "ch_Demotions ?ch"] by simp
  have plan: "round_plan st ?ch = ?plan"
    using assms(2-4) v by (auto simp: round_plan_def failed_plan_def changes_plan_def)
  obtain ds where ds: "snd (issue a ?plan ?h) = ?h @ ds" "prefix ds ?plan"
    "case fst (issue a ?plan ?h) of None \<Rightarrow> ds = ?plan
     | Some (c, e) \<Rightarrow> \<exists>xs. ds = xs @ [c] \<and> raft_error a (?h @ xs) c = Some e"
    using issue_result by blast
  have run: "snd (reconcile a h) = ?h @ ds" "fst (reconcile a h) = None \<longleftrightarrow> fst (issue a ?plan ?h) = None"
    using reconcile_issue [OF assms(1)] v ds(1) unfolding plan unknown_leader_def by auto
  show ?thesis
  proof (intro conjI exI)
    show "calls (reconcile a) h = [CAutopilotConfig, CCalculate conf st] @ ds" by (simp add: calls_def run)
    show "if fst (reconcile a h) = None then ds = ?plan
      else \<exists>xs c. ds = xs @ [c] \<and> raft_error a (h @ [CAutopilotConfig, CCalculate conf st] @ xs) c \<noteq> None"
      using ds(3) by (cases "fst (issue a ?plan ?h)") (auto simp: run)
  qed (use v ds(2) in simp_all)
qed

section \<open>Rounds with the default promoter\<close>

context promote_only
begin

lemma plan_promotes:
  "round_plan st (p_CalculatePromotionsAndDemotions p h c s) =
     map promote_call (promotable st (ch_Promotions (p_CalculatePromotionsAndDemotions p h c s)))"
  by (simp add: round_plan_def failed_plan_def changes_plan_def failed_demotable_def demotable_def
      no_demotions no_transfer List.map_filter_simps)

lemma knows_leader: "\<not> unknown_leader st (p_CalculatePromotionsAndDemotions p h c s)"
  by (simp add: unknown_leader_def no_transfer)

lemma round_promotes:
  assumes "active_round a h conf st" "ap_promoter a = p"
  shows "\<exists>ds. calls (reconcile a) h = [CAutopilotConfig, CCalculate conf st] @ ds \<and>
    prefix ds (map promote_call (promotable st (ch_Promotions (round_changes a h conf st)))) \<and>
    (fst (reconcile a h) = None \<longrightarrow>
      ds = map promote_call (promotable st (ch_Promotions (round_changes a h conf st))))"
proof -
  let ?h = "h @ [CAutopilotConfig, CCalculate conf st]"
  have plan: "round_plan st (round_changes a h conf st) =
      map promote_call (promotable st (ch_Promotions (round_changes a h conf st)))"
    unfolding assms(2) by (rule plan_promotes)
  obtain ds where ds: "snd (issue a (round_plan st (round_changes a h conf st)) ?h) = ?h @ ds"
    "prefix ds (round_plan st (round_changes a h conf st))"
    "case fst (issue a (round_plan st (round_changes a h conf st)) ?h) of
       None \<Rightarrow> ds = round_plan st (round_changes a h conf st)
     | Some (c, e) \<Rightarrow> \<exists>xs. ds = xs @ [c] \<and> raft_error a (?h @ xs) c = Some e"
    using issue_result by blast
  with reconcile_issue [OF assms(1)] show ?thesis
    unfolding plan by (auto simp: calls_def)
qed

end

text \<open>What the default promoter's round asks raft for, and all of it when the round succeeds.\<close>

lemma stable_round_calls:
  assumes "active_round a h conf st" "ap_promoter a = StablePromoter rng wall since"
    and "go_range rng" "gomap_wf (st_Servers st)" "representable_stabilization conf"
  shows "c \<in> set (calls (reconcile a) h) \<Longrightarrow> c = CAutopilotConfig \<or> c = CCalculate conf st \<or>
      (\<exists>i v. map_of (st_Servers st) i = Some v \<and> c = promote_call v \<and>
        ready_voter (wall (h @ [CAutopilotConfig])) (since (h @ [CAutopilotConfig])) conf st v)"
    and "fst (reconcile a h) = None \<Longrightarrow> map_of (st_Servers st) i = Some v \<Longrightarrow>
        ready_voter (wall (h @ [CAutopilotConfig])) (since (h @ [CAutopilotConfig])) conf st v \<Longrightarrow>
        promote_call v \<in> set (calls (reconcile a) h)"
proof -
  let ?h = "h @ [CAutopilotConfig]"
  let ?ps = "ch_Promotions (round_changes a h conf st)"
  have mem: "i \<in> set ?ps \<longleftrightarrow> (\<exists>v. map_of (st_Servers st) i = Some v \<and> ready_voter (wall ?h) (since ?h) conf st v)" for i
    using stable_promotions_mem(2) [OF assms(3-5), where i = i]
    by (simp add: assms(2) StablePromoter_def)
  have pro: "v \<in> set (promotable st ?ps) \<longleftrightarrow>
      (\<exists>i. map_of (st_Servers st) i = Some v \<and> ready_voter (wall ?h) (since ?h) conf st v)" for v
    unfolding promotable_mem using mem by (auto simp: ready_voter_def HasVotingRights_def)
  obtain ds where ds: "calls (reconcile a) h = [CAutopilotConfig, CCalculate conf st] @ ds"
    "prefix ds (map promote_call (promotable st ?ps))"
    "fst (reconcile a h) = None \<longrightarrow> ds = map promote_call (promotable st ?ps)"
    using stable_changes.round_promotes [OF assms(1,2)] by (elim exE conjE)
  have "\<exists>i v. map_of (st_Servers st) i = Some v \<and> c = promote_call v \<and>
      ready_voter (wall ?h) (since ?h) conf st v" if c: "c \<in> set ds" for c
  proof -
    from c obtain v where "v \<in> set (promotable st ?ps)" "c = promote_call v"
      using set_mono_prefix [OF ds(2)] by auto
    then show ?thesis using pro by blast
  qed
  then show "c \<in> set (calls (reconcile a) h) \<Longrightarrow> c = CAutopilotConfig \<or> c = CCalculate conf st \<or>
      (\<exists>i v. map_of (st_Servers st) i = Some v \<and> c = promote_call v \<and> ready_voter (wall ?h) (since ?h) conf st v)"
    unfolding ds(1) by auto
  show "promote_call v \<in> set (calls (reconcile a) h)" if "fst (reconcile a h) = None"
    "map_of (st_Servers st) i = Some v" "ready_voter (wall ?h) (since ?h) conf st v" for i v
  proof -
    have "v \<in> set (promotable st ?ps)" using that pro by blast
    then show ?thesis using ds(1,3) that(1) by simp
  qed
qed

lemma stable_round_succeeds:
  assumes "active_round a h conf st" "ap_promoter a = StablePromoter rng wall since"
    and "\<And>h c. raft_error a h c = None"
  shows "fst (reconcile a h) = None"
proof -
  have iss: "fst (issue a cs h) = None" for cs h
    by (induction cs arbitrary: h) (simp_all add: assms(3))
  have "\<not> unknown_leader st (round_changes a h conf st)"
    unfolding assms(2) by (rule stable_changes.knows_leader)
  then show ?thesis using reconcile_issue [OF assms(1)] iss by blast
qed

text \<open>
  C10: with the default promoter a round of reconciliation only ever promotes, and only raft
  non-voters that the state flags healthy and whose \<open>StableSince\<close> lies at least the stabilization
  time in force before the reading of the clock; a round that reports success has asked raft to
  promote every such server. This is what the round makes of the state it is given, and not a
  proof that the server has been healthy all that time: \<open>StableSince\<close> is not renewed when the
  health of a server changes (C25), so that one which has just recovered is promoted as well.
\<close>

theorem stable_round:
  assumes "active_round a h conf st" "ap_promoter a = StablePromoter rng wall since"
    and "go_range rng" "gomap_wf (st_Servers st)" "representable_stabilization conf"
  shows "(\<forall>c \<in> set (calls (reconcile a) h). c = CAutopilotConfig \<or> c = CCalculate conf st \<or>
      (\<exists>i v. map_of (st_Servers st) i = Some v \<and> c = promote_call v \<and>
        ready_voter (wall (h @ [CAutopilotConfig])) (since (h @ [CAutopilotConfig])) conf st v)) \<and>
    (fst (reconcile a h) = None \<longrightarrow>
      (\<forall>i v. map_of (st_Servers st) i = Some v \<and>
        ready_voter (wall (h @ [CAutopilotConfig])) (since (h @ [CAutopilotConfig])) conf st v \<longrightarrow>
        promote_call v \<in> set (calls (reconcile a) h)))"
  using stable_round_calls [OF assms] by blast

text \<open>
  Why a round starts with a demotion only for an odd number of voters: then one voter less
  needs the same quorum as before, while one voter more needs a larger one.
\<close>

theorem odd_voters_quorum:
  assumes "length (st_Voters st) mod 2 \<noteq> 0"
  shows "requiredQuorum (int (length (st_Voters st)) - 1) = requiredQuorum (int (length (st_Voters st))) \<and>
    requiredQuorum (int (length (st_Voters st)) + 1) = requiredQuorum (int (length (st_Voters st))) + 1"
proof -
  let ?n = "length (st_Voters st)"
  have "odd ?n" using assms by presburger
  then obtain k where "?n = 2 * k + 1" by (rule oddE)
  then show ?thesis by (simp add: requiredQuorum_eq)
qed

interpretation rounds: logged "reconcile a" for a
proof
  show "prefix h (snd (reconcile a h))" for h
    by (cases rule: reconcile_round_cases [of a h]) auto
qed

section \<open>Witnesses\<close>

definition sample_round :: "RaftChanges \<Rightarrow> State \<Rightarrow> Autopilot" where
  "sample_round changes st = (sample_autopilot [] [] changes)\<lparr>ap_state := Some st\<rparr>"

definition sample_changes :: RaftChanges where
  "sample_changes = \<lparr>ch_Promotions = [''b'', ''c'', ''q''], ch_Demotions = [''d''], ch_Leader = ''d''\<rparr>"

definition sample_quorum :: State where
  "sample_quorum = zero_State\<lparr>st_Leader := ''a'', st_Voters := [''a'', ''d'', ''e''],
     st_Servers := [(''a'', sample_ss ''a'' ''x'' RaftLeader True 900),
       (''b'', sample_ss ''b'' ''y'' RaftNonVoter True 900),
       (''c'', sample_ss ''c'' ''z'' RaftNonVoter False 900),
       (''d'', sample_ss ''d'' ''v'' RaftVoter False 900),
       (''e'', sample_ss ''e'' ''u'' RaftVoter True 900)]\<rparr>"

lemmas sample_round_defs = sample_round_def sample_changes_def sample_quorum_def sample_env_defs
  active_round_def ReconciliationEnabled_def GetState_def zero_State_def

lemma sample_active: "active_round (sample_round changes sample_quorum) [] sample_conf sample_quorum"
  by (simp add: sample_round_defs)

lemma sample_round_changes [simp]:
  "p_CalculatePromotionsAndDemotions (ap_promoter (sample_round changes st)) h conf st' = changes"
  by (simp add: sample_round_def sample_env_defs)

lemma sample_raft_accepts: "raft_error (sample_round changes st) h c = None"
  by (cases c) (simp_all add: sample_round_def sample_env_defs)

lemma sample_reconcile:
  "reconcile (sample_round sample_changes sample_quorum) [] =
     (None, [CAutopilotConfig, CCalculate sample_conf sample_quorum,
       CDemoteVoter ''d'' 0 0, CAddVoter ''b'' ''y'' 0 0])"
  by (simp add: reconcile_def sample_round_defs demote_failed_first_def apply_changes_def
      applyDemotions_def applyPromotions_def HasVotingRights_def sample_ss_def sample_server_def)

theorem reconcile_follows_plan_witness:
  "\<exists>ds. calls (reconcile (sample_round sample_changes sample_quorum)) [] =
      [CAutopilotConfig, CCalculate sample_conf sample_quorum] @ ds \<and>
    ds = round_plan sample_quorum sample_changes"
  using reconcile_follows_plan [OF sample_active, of sample_changes] sample_reconcile by auto

theorem reconcile_exclusive_witness:
  "\<exists>conf st us vs. calls (reconcile (sample_round sample_changes sample_quorum)) [] =
      [CAutopilotConfig, CCalculate conf st] @ us @ vs \<and> length us \<le> 1 \<and> list_all is_promotion vs"
proof -
  have "\<exists>c \<in> set (calls (reconcile (sample_round sample_changes sample_quorum)) []). is_promotion c"
    by (simp add: calls_def sample_reconcile)
  from conjunct2 [OF reconcile_exclusive, THEN mp, OF this] show ?thesis
    by (elim exE conjE) (intro exI conjI)
qed

theorem reconcile_targets_witness:
  "\<exists>conf st. targets_ok st (round_changes (sample_round sample_changes sample_quorum) [] conf st)
     (CAddVoter ''b'' ''y'' 0 0)"
  using reconcile_targets [of "CAddVoter ''b'' ''y'' 0 0" "sample_round sample_changes sample_quorum" "[]"]
  by (auto simp: calls_def sample_reconcile)

theorem reconcile_idle_witness:
  "fst (reconcile (sample_round sample_changes zero_State) []) = Some ErrNoState"
  using reconcile_idle [of "sample_round sample_changes zero_State" "[]"]
  by (simp add: sample_round_defs)

theorem single_demotion_repeated_witness:
  "calls (reconcile (sample_round (sample_changes\<lparr>ch_Promotions := []\<rparr>) sample_quorum)) [] =
     [CAutopilotConfig, CCalculate sample_conf sample_quorum, CDemoteVoter ''d'' 0 0, CDemoteVoter ''d'' 0 0]"
proof -
  let ?ch = "sample_changes\<lparr>ch_Promotions := []\<rparr>"
  have "length (st_Voters sample_quorum) mod 2 \<noteq> 0" by (simp add: sample_quorum_def)
  moreover have "promotable sample_quorum (ch_Promotions ?ch) = []"
    by (simp add: promotable_def List.map_filter_simps)
  moreover have "demotable sample_quorum (ch_Demotions ?ch) = [sample_ss ''d'' ''v'' RaftVoter False 900]"
    by (simp add: sample_changes_def sample_quorum_def selection_defs sample_ss_def)
  moreover from this have "failed_demotable sample_quorum (ch_Demotions ?ch) = [sample_ss ''d'' ''v'' RaftVoter False 900]"
    by (simp add: failed_demotable_def sample_ss_def)
  ultimately show ?thesis
    using single_demotion_repeated [OF sample_active [of ?ch]] sample_raft_accepts
    by (auto simp: sample_ss_def sample_server_def split: if_splits)
qed

definition sample_stable :: Autopilot where
  "sample_stable = (sample_round no_changes sample_quorum)\<lparr>ap_promoter := StablePromoter rev (\<lambda>_. 500) (\<lambda>_. 500)\<rparr>"

theorem stable_round_witness:
  "promote_call (sample_ss ''b'' ''y'' RaftNonVoter True 900) \<in> set (calls (reconcile sample_stable) [])"
proof -
  have act: "active_round sample_stable [] sample_conf sample_quorum"
    by (simp add: sample_stable_def sample_round_defs)
  have pro: "ap_promoter sample_stable = StablePromoter rev (\<lambda>_. 500) (\<lambda>_. 500)"
    by (simp add: sample_stable_def)
  have wf: "gomap_wf (st_Servers sample_quorum)" by (simp add: sample_quorum_def)
  have acc: "raft_error sample_stable h c = None" for h c
    by (cases c) (simp_all add: sample_stable_def sample_round_defs)
  then have ok: "fst (reconcile sample_stable []) = None"
    by (rule stable_round_succeeds [OF act pro])
  have b: "map_of (st_Servers sample_quorum) ''b'' = Some (sample_ss ''b'' ''y'' RaftNonVoter True 900)"
    by (simp add: sample_quorum_def)
  have "ready_voter 500 500 sample_conf sample_quorum (sample_ss ''b'' ''y'' RaftNonVoter True 900)"
    by (simp add: ready_voter_def sample_quorum_def sample_ss_def sample_conf_def zero_State_def)
  with b conjunct2 [OF stable_round [OF act pro go_range_rev wf sample_cluster_wf(2)], THEN mp, OF ok]
  show ?thesis by blast
qed

theorem odd_voters_quorum_witness:
  "requiredQuorum (int (length (st_Voters sample_quorum)) - 1) = 2"
  using odd_voters_quorum [of sample_quorum] by (simp add: sample_quorum_def requiredQuorum_eq)

end
