(* ===== verification/AP_Failed.thy ===== *)
theory AP_Failed
  imports AP_Raft AP_Sort AP_Stable
begin

text \<open>
  Collecting the dead servers (reconcile.go): \<open>getFailedServers\<close>. The map of known servers
  arrives in the order in which the runtime enumerates it; the map of stale raft servers, which
  the code builds itself, is enumerated in the order that \<open>rng\<close> picks.
\<close>

text \<open>The loop over the raft configuration fills the map of stale servers and the registry.\<close>

fun register_loop :: "raft_Server list \<Rightarrow> (ServerID, raft_Server) gomap \<Rightarrow> voterRegistry \<Rightarrow>
    (ServerID, raft_Server) gomap \<times> voterRegistry" where
  "register_loop [] stale registry = (stale, registry)"
| "register_loop (server # servers) stale registry =
     register_loop servers
       (AList.update (rs_ID server) server stale)
       (registry\<lparr>eligibility := AList.update (rs_ID server)
          \<lparr>currentVoter = (rs_Suffrage server = raft_Voter), potentialVoter = False\<rparr>
          (eligibility registry)\<rparr>)"

text \<open>
  The loop over the known servers. An id of the stale map is also one of the registry, so the
  registry's entry that is updated here is never nil.
\<close>

fun known_loop :: "(NodeType \<Rightarrow> bool) \<Rightarrow> (ServerID, Server) gomap \<Rightarrow> (ServerID, raft_Server) gomap \<Rightarrow>
    voterRegistry \<Rightarrow> FailedServers \<Rightarrow> (ServerID, raft_Server) gomap \<times> voterRegistry \<times> FailedServers" where
  "known_loop pot [] stale registry failed = (stale, registry, failed)"
| "known_loop pot ((i, srv) # es) stale registry failed =
     (case map_of stale i of
        None \<Rightarrow> known_loop pot es stale registry failed
      | Some raftSrv \<Rightarrow>
          known_loop pot es (AList.delete i stale)
            (registry\<lparr>eligibility :=
               AList.map_entry i (setPotentialVoter (pot (srv_NodeType srv))) (eligibility registry)\<rparr>)
            (if srv_NodeStatus srv \<noteq> NodeAlive
             then if rs_Suffrage raftSrv = raft_Voter
                  then failed\<lparr>fs_FailedVoters := fs_FailedVoters failed @ [srv]\<rparr>
                  else failed\<lparr>fs_FailedNonVoters := fs_FailedNonVoters failed @ [srv]\<rparr>
             else failed))"

fun stale_loop :: "(ServerID, raft_Server) gomap \<Rightarrow> FailedServers \<Rightarrow> FailedServers" where
  "stale_loop [] failed = failed"
| "stale_loop ((i, srv) # es) failed =
     stale_loop es
       (if rs_Suffrage srv = raft_Voter
        then failed\<lparr>fs_StaleVoters := fs_StaleVoters failed @ [i]\<rparr>
        else failed\<lparr>fs_StaleNonVoters := fs_StaleNonVoters failed @ [i]\<rparr>)"

definition zero_FailedServers :: FailedServers where
  "zero_FailedServers = \<lparr>fs_StaleNonVoters = [], fs_StaleVoters = [], fs_FailedNonVoters = [],
     fs_FailedVoters = []\<rparr>"

text \<open>The four sorts at the end, by id.\<close>

definition sort_failed :: "FailedServers \<Rightarrow> FailedServers" where
  "sort_failed failed =
     \<lparr>fs_StaleNonVoters = sort_pure (\<lambda>i j. i < j) (fs_StaleNonVoters failed),
      fs_StaleVoters = sort_pure (\<lambda>i j. i < j) (fs_StaleVoters failed),
      fs_FailedNonVoters = sort_pure (\<lambda>s t. srv_ID s < srv_ID t) (fs_FailedNonVoters failed),
      fs_FailedVoters = sort_pure (\<lambda>s t. srv_ID s < srv_ID t) (fs_FailedVoters failed)\<rparr>"

definition getFailedServers :: "(ServerID, raft_Server) ranger \<Rightarrow> Autopilot \<Rightarrow> hist \<Rightarrow>
    (go_error + FailedServers \<times> voterRegistry) \<times> hist" where
  "getFailedServers rng a h =
     (case getRaftConfiguration a h of
        (Inl err, h) \<Rightarrow> (Inl err, h)
      | (Inr raftConfig, h) \<Rightarrow>
          let (stale, registry) = register_loop (rc_Servers raftConfig) [] newVoterRegistry;
              known = d_KnownServers (ap_delegate a) h; h = h @ [CKnownServers];
              (stale, registry, failed) =
                known_loop (p_IsPotentialVoter (ap_promoter a)) known stale registry zero_FailedServers;
              failed = stale_loop (rng stale) failed
          in (Inr (sort_failed failed, registry), h))"

section \<open>What is collected\<close>

text \<open>A raft configuration by id; of two servers with one id the later one counts.\<close>

definition raft_of :: "raft_Server list \<Rightarrow> ServerID \<Rightarrow> raft_Server option" where
  "raft_of srvs = map_of (rev (map (\<lambda>r. (rs_ID r, r)) srvs))"

lemma raft_of_Cons: "raft_of (r # srvs) = [rs_ID r \<mapsto> r] ++ raft_of srvs"
  by (simp add: raft_of_def)

lemma raft_of_distinct:
  assumes "distinct (map rs_ID srvs)"
  shows "raft_of srvs i = Some r \<longleftrightarrow> r \<in> set srvs \<and> rs_ID r = i"
proof -
  have "distinct (map fst (rev (map (\<lambda>r. (rs_ID r, r)) srvs)))"
    using assms by (simp add: comp_def flip: rev_map)
  from map_of_mem [OF this, of i r] show ?thesis by (auto simp: raft_of_def)
qed

lemma raft_of_dom: "raft_of srvs i \<noteq> None \<longleftrightarrow> i \<in> rs_ID ` set srvs"
  by (auto simp: raft_of_def map_of_eq_None_iff image_image)

lemma register_loop_maps:
  "register_loop srvs stale registry = (stale', registry') \<Longrightarrow>
     map_of stale' = map_of stale ++ raft_of srvs \<and>
     map_of (eligibility registry') = map_of (eligibility registry) ++
       (\<lambda>i. map_option (\<lambda>r. \<lparr>currentVoter = (rs_Suffrage r = raft_Voter), potentialVoter = False\<rparr>)
          (raft_of srvs i)) \<and>
     (gomap_wf stale \<longrightarrow> gomap_wf stale') \<and> (reg_wf registry \<longrightarrow> reg_wf registry')"
proof (induction srvs stale registry rule: register_loop.induct)
  case (2 server servers stale registry)
  then show ?case
    by (auto simp: raft_of_Cons map_of_update wf_update map_add_def fun_eq_iff split: option.splits)
qed (auto simp: raft_of_def)

text \<open>What the loop over the known servers does, entry by entry.\<close>

abbreviation raft_voter :: "raft_Server \<Rightarrow> bool" where
  "raft_voter r \<equiv> rs_Suffrage r = raft_Voter"

definition dead_in :: "(ServerID \<Rightarrow> raft_Server option) \<Rightarrow> bool \<Rightarrow> ServerID \<times> Server \<Rightarrow> bool" where
  "dead_in rf voter e \<longleftrightarrow> srv_NodeStatus (snd e) \<noteq> NodeAlive \<and>
     (\<exists>r. rf (fst e) = Some r \<and> raft_voter r = voter)"

definition mark_potential :: "(NodeType \<Rightarrow> bool) \<Rightarrow> (ServerID, Server) gomap \<Rightarrow>
    (ServerID \<Rightarrow> raft_Server option) \<Rightarrow> ServerID \<Rightarrow> voterEligibility \<Rightarrow> voterEligibility" where
  "mark_potential pot known rf i v =
     (case map_of known i of
        Some srv \<Rightarrow> if rf i = None then v else setPotentialVoter (pot (srv_NodeType srv)) v
      | None \<Rightarrow> v)"

lemma dead_in_other:
  "i \<notin> set (keys es) \<Longrightarrow> filter (dead_in (rf(i := x)) b) es = filter (dead_in rf b) es"
  by (rule filter_cong) (auto simp: dead_in_def)

lemma known_loop_result:
  assumes "known_loop pot es stale registry failed = (stale', registry', failed')" "distinct (keys es)"
  shows "(\<forall>i. map_of stale' i = (if i \<in> set (keys es) then None else map_of stale i)) \<and>
    (\<forall>i. map_of (eligibility registry') i =
      map_option (mark_potential pot es (map_of stale) i) (map_of (eligibility registry) i)) \<and>
    failed' = failed\<lparr>
      fs_FailedNonVoters := fs_FailedNonVoters failed @ map snd (filter (dead_in (map_of stale) False) es),
      fs_FailedVoters := fs_FailedVoters failed @ map snd (filter (dead_in (map_of stale) True) es)\<rparr> \<and>
    (gomap_wf stale \<longrightarrow> gomap_wf stale') \<and> keys (eligibility registry') = keys (eligibility registry)"
  using assms
proof (induction pot es stale registry failed rule: known_loop.induct)
  case (1 pot stale registry failed)
  then show ?case by (auto simp: mark_potential_def map_option_cong option.map_ident)
next
  case (2 pot i srv es stale registry failed)
  show ?case
  proof (cases "map_of stale i")
    case None
    have out: "dead_in (map_of stale) b (i, srv) = False" for b
      using None by (simp add: dead_in_def)
    have mark: "mark_potential pot ((i, srv) # es) (map_of stale) j = mark_potential pot es (map_of stale) j" for j
      using None "2.prems"(2) by (auto simp: mark_potential_def fun_eq_iff split: option.split)
    show ?thesis
      using "2.IH"(1) [OF None] "2.prems" None by (simp add: out mark)
  next
    case (Some r)
    let ?st = "AList.delete i stale"
    let ?reg = "registry\<lparr>eligibility := AList.map_entry i (setPotentialVoter (pot (srv_NodeType srv)))
      (eligibility registry)\<rparr>"
    let ?f = "if srv_NodeStatus srv \<noteq> NodeAlive
      then if raft_voter r then failed\<lparr>fs_FailedVoters := fs_FailedVoters failed @ [srv]\<rparr>
           else failed\<lparr>fs_FailedNonVoters := fs_FailedNonVoters failed @ [srv]\<rparr>
      else failed"
    have i: "i \<notin> set (keys es)" "distinct (keys es)" using "2.prems"(2) by simp_all
    have run: "known_loop pot es ?st ?reg ?f = (stale', registry', failed')"
      using "2.prems"(1) Some by simp
    have mark: "mark_potential pot ((i, srv) # es) (map_of stale) j =
        (if j = i then setPotentialVoter (pot (srv_NodeType srv))
         else mark_potential pot es ((map_of stale)(i := None)) j)" for j
      using Some by (auto simp: mark_potential_def fun_eq_iff split: option.split)
    have unmarked: "mark_potential pot es rf i v = v" for rf v
      using i(1) by (auto simp: mark_potential_def in_keys_iff split: option.split dest: map_of_SomeD)
    have this_one: "dead_in (map_of stale) b (i, srv) \<longleftrightarrow> srv_NodeStatus srv \<noteq> NodeAlive \<and> raft_voter r = b" for b
      using Some by (auto simp: dead_in_def)
    note IH = "2.IH"(2) [OF Some run i(2), unfolded map_of_delete]
    show ?thesis
    proof (intro conjI allI)
      show "map_of stale' j = (if j \<in> set (keys ((i, srv) # es)) then None else map_of stale j)" for j
        using IH by simp
      show "map_of (eligibility registry') j =
          map_option (mark_potential pot ((i, srv) # es) (map_of stale) j) (map_of (eligibility registry) j)" for j
        using IH by (simp add: map_of_map_entry mark unmarked option.map_comp comp_def del: fun_upd_apply)
      show "failed' = failed\<lparr>
        fs_FailedNonVoters := fs_FailedNonVoters failed @
          map snd (filter (dead_in (map_of stale) False) ((i, srv) # es)),
        fs_FailedVoters := fs_FailedVoters failed @
          map snd (filter (dead_in (map_of stale) True) ((i, srv) # es))\<rparr>"
        using IH by (simp add: dead_in_other [OF i(1)] this_one del: fun_upd_apply)
      show "gomap_wf stale \<longrightarrow> gomap_wf stale'" using IH wf_delete [of stale i] by (elim conjE) simp
      show "keys (eligibility registry') = keys (eligibility registry)"
        using IH by (simp add: keys_map_entry del: set_map)
    qed
  qed
qed

lemma stale_loop_result:
  "stale_loop es failed = failed\<lparr>
     fs_StaleVoters := fs_StaleVoters failed @ map fst (filter (\<lambda>(i, r). raft_voter r) es),
     fs_StaleNonVoters := fs_StaleNonVoters failed @ map fst (filter (\<lambda>(i, r). \<not> raft_voter r) es)\<rparr>"
  by (induction es failed rule: stale_loop.induct) auto

text \<open>The raft configuration's servers that the application does not know.\<close>

definition stale_in :: "raft_Server list \<Rightarrow> (ServerID, Server) gomap \<Rightarrow> bool \<Rightarrow> ServerID \<Rightarrow> bool" where
  "stale_in srvs known voter i \<longleftrightarrow>
     i \<notin> set (keys known) \<and> (\<exists>r. raft_of srvs i = Some r \<and> raft_voter r = voter)"

definition registered :: "(NodeType \<Rightarrow> bool) \<Rightarrow> raft_Server list \<Rightarrow> (ServerID, Server) gomap \<Rightarrow>
    ServerID \<Rightarrow> voterEligibility option" where
  "registered pot srvs known i =
     map_option (\<lambda>r. \<lparr>currentVoter = raft_voter r,
       potentialVoter = (case map_of known i of Some srv \<Rightarrow> pot (srv_NodeType srv) | None \<Rightarrow> False)\<rparr>)
       (raft_of srvs i)"

lemma stale_listed:
  assumes "gomap_wf m" "go_range rng" "\<And>i. map_of m i = (if i \<in> set (keys known) then None else raft_of srvs i)"
  shows "set (map fst (filter (\<lambda>(i, r). raft_voter r = b) (rng m))) = {i. stale_in srvs known b i}"
proof (rule set_eqI)
  fix i
  have mem: "(i, r) \<in> set (rng m) \<longleftrightarrow> map_of m i = Some r" for r
    using map_of_mem [OF assms(1)] go_rangeD(2) [OF assms(2)] by simp
  have "i \<in> set (map fst (filter (\<lambda>(i, r). raft_voter r = b) (rng m))) \<longleftrightarrow>
      (\<exists>r. (i, r) \<in> set (rng m) \<and> raft_voter r = b)" by force
  also have "\<dots> \<longleftrightarrow> i \<in> {i. stale_in srvs known b i}"
    unfolding mem assms(3) by (simp add: stale_in_def)
  finally show "i \<in> set (map fst (filter (\<lambda>(i, r). raft_voter r = b) (rng m))) \<longleftrightarrow>
      i \<in> {i. stale_in srvs known b i}" .
qed

lemma marked_registered:
  "map_option (mark_potential pot known (raft_of srvs) i)
     (map_option (\<lambda>r. \<lparr>currentVoter = raft_voter r, potentialVoter = False\<rparr>) (raft_of srvs i)) =
   registered pot srvs known i"
  unfolding registered_def
  by (cases "raft_of srvs i"; cases "map_of known i") (simp_all add: mark_potential_def setPotentialVoter_def)

lemma getFailedServers_result:
  fixes a h
  defines "srvs \<equiv> conf_of a h" and "known \<equiv> d_KnownServers (ap_delegate a) (h @ [CGetConfiguration])"
  assumes "fst (getFailedServers rng a h) = Inr (failed, vr)" "gomap_wf known" "go_range rng"
  shows "snd (getFailedServers rng a h) = h @ [CGetConfiguration, CKnownServers] \<and>
    reg_wf vr \<and>
    map_of (eligibility vr) = registered (p_IsPotentialVoter (ap_promoter a)) srvs known \<and>
    set (fs_StaleVoters failed) = {i. stale_in srvs known True i} \<and>
    set (fs_StaleNonVoters failed) = {i. stale_in srvs known False i} \<and>
    distinct (fs_StaleVoters failed) \<and> distinct (fs_StaleNonVoters failed) \<and>
    fs_FailedVoters failed =
      sort_pure (\<lambda>s t. srv_ID s < srv_ID t) (map snd (filter (dead_in (raft_of srvs) True) known)) \<and>
    fs_FailedNonVoters failed =
      sort_pure (\<lambda>s t. srv_ID s < srv_ID t) (map snd (filter (dead_in (raft_of srvs) False) known))"
proof -
  let ?pot = "p_IsPotentialVoter (ap_promoter a)"
  obtain stale reg where reg: "register_loop srvs [] newVoterRegistry = (stale, reg)" by fastforce
  obtain stale' reg' f where kn: "known_loop ?pot known stale reg zero_FailedServers = (stale', reg', f)"
    by (metis prod_cases3)
  have cf: "cf_Error (r_GetConfiguration (ap_raft a) h) = None"
    using assms(3) by (auto simp: getFailedServers_def getRaftConfiguration_cases split: option.splits)
  have res: "getFailedServers rng a h =
      (Inr (sort_failed (stale_loop (rng stale') f), reg'), h @ [CGetConfiguration, CKnownServers])"
    using reg kn cf unfolding srvs_def known_def
    by (simp add: getFailedServers_def getRaftConfiguration_cases)
  have m: "map_of stale = raft_of srvs" "gomap_wf stale" "reg_wf reg"
    "map_of (eligibility reg) = (\<lambda>i. map_option (\<lambda>r. \<lparr>currentVoter = raft_voter r, potentialVoter = False\<rparr>) (raft_of srvs i))"
    using register_loop_maps [OF reg] by (simp_all add: newVoterRegistry_def)
  note k = known_loop_result [OF kn assms(4), unfolded m(1)]
  have wf: "gomap_wf stale'" using k m(2) by blast
  have dist: "distinct (map fst (filter P (rng stale')))" for P
    by (rule distinct_map_filter) (simp add: go_range_wf [OF assms(5)] wf)
  have kst: "map_of stale' i = (if i \<in> set (keys known) then None else raft_of srvs i)" for i
    using conjunct1 [OF k] by blast
  note st = stale_listed [OF wf assms(5) kst]
  have f: "failed = sort_failed (stale_loop (rng stale') f)" "vr = reg'"
    using assms(3) res by simp_all
  have elig: "map_of (eligibility vr) = registered ?pot srvs known"
    using k f(2) by (simp add: fun_eq_iff m(4) marked_registered)
  have wfv: "reg_wf vr" using k m(3) f(2) by simp
  have fl: "failed = sort_failed \<lparr>
      fs_StaleNonVoters = map fst (filter (\<lambda>(i, r). raft_voter r = False) (rng stale')),
      fs_StaleVoters = map fst (filter (\<lambda>(i, r). raft_voter r = True) (rng stale')),
      fs_FailedNonVoters = map snd (filter (dead_in (raft_of srvs) False) known),
      fs_FailedVoters = map snd (filter (dead_in (raft_of srvs) True) known)\<rparr>"
    using f(1) k by (simp add: stale_loop_result zero_FailedServers_def)
  show ?thesis
    unfolding fl elig res snd_conv sort_failed_def FailedServers.select_convs set_sort_pure
      distinct_sort_pure st
    using dist wfv by (intro conjI refl)
qed

section \<open>Properties of the collection\<close>

lemma stale_sorted:
  assumes "fst (getFailedServers rng a h) = Inr (failed, vr)"
  shows "sorted (fs_StaleVoters failed)" "sorted (fs_StaleNonVoters failed)"
  using assms str.sort_sorted
  by (auto simp: getFailedServers_def Let_def sort_failed_def not_less split: prod.splits sum.splits)

lemma sorted_by_id: "sorted (map srv_ID (sort_pure (\<lambda>s t. srv_ID s < srv_ID t) xs))"
  using keyed.sort_sorted [where f = srv_ID and xs = xs] by (simp add: sorted_map not_less)

text \<open>The current voters of a registry.\<close>

definition cur_set :: "voterRegistry \<Rightarrow> ServerID set" where
  "cur_set vr = {i. \<exists>v. map_of (eligibility vr) i = Some v \<and> currentVoter v}"

text \<open>
  C8: the collected servers are classified correctly. Stale are exactly the servers of the raft
  configuration that the application does not know; failed are exactly the known servers of the
  configuration that it does not report alive (so also those it reports as left or unknown);
  voters are told from non-voters by raft's suffrage. The registry has exactly the servers of
  the configuration, the current voters among them by suffrage and the potential voters by the
  promoter's judgement of the known ones. All lists come sorted by id.
\<close>

theorem getFailedServers_classifies:
  assumes "fst (getFailedServers rng a h) = Inr (failed, vr)" "go_range rng"
    and "known = d_KnownServers (ap_delegate a) (h @ [CGetConfiguration])" "gomap_wf known"
    and "distinct (map rs_ID (conf_of a h))"
  shows "(\<forall>i. i \<in> set (fs_StaleVoters failed) \<longleftrightarrow>
      i \<notin> set (keys known) \<and> (\<exists>r \<in> set (conf_of a h). rs_ID r = i \<and> raft_voter r)) \<and>
    (\<forall>i. i \<in> set (fs_StaleNonVoters failed) \<longleftrightarrow>
      i \<notin> set (keys known) \<and> (\<exists>r \<in> set (conf_of a h). rs_ID r = i \<and> \<not> raft_voter r)) \<and>
    (\<forall>srv. srv \<in> set (fs_FailedVoters failed) \<longleftrightarrow> srv_NodeStatus srv \<noteq> NodeAlive \<and>
      (\<exists>r \<in> set (conf_of a h). map_of known (rs_ID r) = Some srv \<and> raft_voter r)) \<and>
    (\<forall>srv. srv \<in> set (fs_FailedNonVoters failed) \<longleftrightarrow> srv_NodeStatus srv \<noteq> NodeAlive \<and>
      (\<exists>r \<in> set (conf_of a h). map_of known (rs_ID r) = Some srv \<and> \<not> raft_voter r)) \<and>
    reg_ids vr = rs_ID ` set (conf_of a h) \<and>
    cur_set vr = {i. \<exists>r \<in> set (conf_of a h). rs_ID r = i \<and> raft_voter r} \<and>
    pot_set vr = {i. \<exists>r \<in> set (conf_of a h). rs_ID r = i \<and>
      (\<exists>srv. map_of known i = Some srv \<and> p_IsPotentialVoter (ap_promoter a) (srv_NodeType srv))} \<and>
    sorted (fs_StaleVoters failed) \<and> sorted (fs_StaleNonVoters failed) \<and>
    sorted (map srv_ID (fs_FailedVoters failed)) \<and> sorted (map srv_ID (fs_FailedNonVoters failed))"
proof -
  let ?srvs = "conf_of a h" and ?pot = "p_IsPotentialVoter (ap_promoter a)"
  note raft = raft_of_distinct [OF assms(5)]
  have g: "reg_wf vr" "map_of (eligibility vr) = registered ?pot ?srvs known"
    "set (fs_StaleVoters failed) = {i. stale_in ?srvs known True i}"
    "set (fs_StaleNonVoters failed) = {i. stale_in ?srvs known False i}"
    "fs_FailedVoters failed = sort_pure (\<lambda>s t. srv_ID s < srv_ID t) (map snd (filter (dead_in (raft_of ?srvs) True) known))"
    "fs_FailedNonVoters failed = sort_pure (\<lambda>s t. srv_ID s < srv_ID t) (map snd (filter (dead_in (raft_of ?srvs) False) known))"
    using getFailedServers_result [OF assms(1) _ assms(2)] assms(3,4) by simp_all
  have dead: "srv \<in> set (map snd (filter (dead_in (raft_of ?srvs) b) known)) \<longleftrightarrow> srv_NodeStatus srv \<noteq> NodeAlive \<and>
      (\<exists>r \<in> set ?srvs. map_of known (rs_ID r) = Some srv \<and> raft_voter r = b)" for srv b
  proof -
    have "srv \<in> set (map snd (filter (dead_in (raft_of ?srvs) b) known)) \<longleftrightarrow>
        (\<exists>i. (i, srv) \<in> set known \<and> dead_in (raft_of ?srvs) b (i, srv))" by force
    then show ?thesis unfolding map_of_mem [OF assms(4)] dead_in_def raft by auto
  qed
  have entry: "registered ?pot ?srvs known i = Some v \<longleftrightarrow> (\<exists>r \<in> set ?srvs. rs_ID r = i \<and>
      v = \<lparr>currentVoter = raft_voter r, potentialVoter =
        (case map_of known i of Some srv \<Rightarrow> ?pot (srv_NodeType srv) | None \<Rightarrow> False)\<rparr>)" for i v
    unfolding registered_def map_option_eq_Some raft by auto
  have ids: "reg_ids vr = rs_ID ` set ?srvs"
    by (rule set_eqI) (simp add: in_keys_iff g(2) registered_def raft_of_dom del: not_None_eq)
  show ?thesis
    using stale_sorted [OF assms(1)]
    unfolding g(3-6) set_sort_pure dead ids
    by (intro conjI sorted_by_id)
      (fastforce simp: stale_in_def raft cur_set_def pot_set_def g(2) entry split: option.splits)+
qed

text \<open>
  What is collected, and with it everything that pruning decides, does not depend on the
  order in which the runtime enumerates the map of known servers or the map of stale servers.
\<close>

theorem getFailedServers_order:
  assumes "go_range rng" "go_range rng'" "ap_raft a' = ap_raft a" "ap_promoter a' = ap_promoter a"
    and "keyed_by_id (d_KnownServers (ap_delegate a) (h @ [CGetConfiguration]))"
    and "mset (d_KnownServers (ap_delegate a') (h @ [CGetConfiguration])) =
      mset (d_KnownServers (ap_delegate a) (h @ [CGetConfiguration]))"
    and "fst (getFailedServers rng a h) = Inr (failed, vr)"
    and "fst (getFailedServers rng' a' h) = Inr (failed', vr')"
  shows "failed' = failed \<and> map_of (eligibility vr') = map_of (eligibility vr)"
proof -
  let ?K = "d_KnownServers (ap_delegate a) (h @ [CGetConfiguration])"
  let ?K' = "d_KnownServers (ap_delegate a') (h @ [CGetConfiguration])"
  let ?lt = "\<lambda>s t. srv_ID s < srv_ID t"
  have keys: "mset (keys ?K') = mset (keys ?K)" using assms(6) by (metis mset_map)
  have wf: "gomap_wf ?K" using assms(5) by (simp add: keyed_by_id_def)
  then have wf': "gomap_wf ?K'" using keys mset_eq_imp_distinct_iff by blast
  have "map_of ?K' i = Some v \<longleftrightarrow> map_of ?K i = Some v" for i v
    using map_of_mem [OF wf] map_of_mem [OF wf'] mset_eq_setD [OF assms(6)] by blast
  then have maps: "map_of ?K' = map_of ?K" by (metis ext not_Some_eq)
  have conf: "conf_of a' h = conf_of a h" by (simp add: assms(3))
  note g = getFailedServers_result [OF assms(7) wf assms(1)]
  note g' = getFailedServers_result [OF assms(8) wf' assms(2), unfolded conf assms(4)]
  have stale: "stale_in srvs ?K' b i = stale_in srvs ?K b i" for srvs b i
    unfolding stale_in_def mset_eq_setD [OF keys] ..
  have dead: "sort_pure ?lt (map snd (filter P ?K')) = sort_pure ?lt (map snd (filter P ?K))" for P
  proof (rule keyed_sort_unique)
    show "mset (map snd (filter P ?K')) = mset (map snd (filter P ?K))" by (simp add: assms(6))
    have ids: "map srv_ID (map snd (filter P ?K)) = map fst (filter P ?K)"
      using assms(5) by (auto simp: keyed_by_id_def)
    have "distinct (map srv_ID (map snd (filter P ?K)))"
      unfolding ids by (rule distinct_map_filter [OF wf])
    then show "distinct (map srv_ID (map snd (filter P ?K')))"
      using assms(6) by (metis mset_eq_imp_distinct_iff mset_filter mset_map)
  qed
  have "fs_StaleVoters failed' = fs_StaleVoters failed"
    using g g' stale_sorted [OF assms(7)] stale_sorted [OF assms(8)]
    by (intro sorted_distinct_set_unique) (simp_all add: stale)
  moreover have "fs_StaleNonVoters failed' = fs_StaleNonVoters failed"
    using g g' stale_sorted [OF assms(7)] stale_sorted [OF assms(8)]
    by (intro sorted_distinct_set_unique) (simp_all add: stale)
  moreover have "fs_FailedVoters failed' = fs_FailedVoters failed"
    "fs_FailedNonVoters failed' = fs_FailedNonVoters failed"
    using g g' dead by simp_all
  moreover have "registered pot srvs ?K' = registered pot srvs ?K" for pot srvs
    by (rule ext) (simp add: registered_def maps)
  then have "map_of (eligibility vr') = map_of (eligibility vr)"
    using g g' by simp
  ultimately show ?thesis by simp
qed

interpretation collects: logged "getFailedServers rng a" for rng a
  by unfold_locales
    (simp add: getFailedServers_def getRaftConfiguration_cases Let_def split: option.split prod.split)

section \<open>Witnesses\<close>

definition sample_raft_servers :: "raft_Server list" where
  "sample_raft_servers =
     [\<lparr>rs_Suffrage = raft_Voter, rs_ID = ''a'', rs_Address = ''x''\<rparr>,
      \<lparr>rs_Suffrage = raft_Voter, rs_ID = ''b'', rs_Address = ''y''\<rparr>,
      \<lparr>rs_Suffrage = raft_Voter, rs_ID = ''c'', rs_Address = ''z''\<rparr>,
      \<lparr>rs_Suffrage = raft_Voter, rs_ID = ''d'', rs_Address = ''v''\<rparr>,
      \<lparr>rs_Suffrage = raft_Nonvoter, rs_ID = ''e'', rs_Address = ''u''\<rparr>]"

definition sample_members :: "(ServerID, Server) gomap" where
  "sample_members = [(''a'', sample_server ''a'' ''x'' NodeAlive), (''b'', sample_server ''b'' ''y'' NodeFailed),
     (''c'', sample_server ''c'' ''z'' NodeAlive), (''d'', sample_server ''d'' ''v'' NodeAlive)]"

definition sample_prune :: Autopilot where
  "sample_prune = (sample_autopilot sample_raft_servers sample_members no_changes)
     \<lparr>ap_promoter := StablePromoter rev (\<lambda>_. 0) (\<lambda>_. 0)\<rparr>"

definition sample_eligibility :: voterRegistry where
  "sample_eligibility = \<lparr>eligibility = [(''a'', \<lparr>currentVoter = True, potentialVoter = True\<rparr>),
     (''b'', \<lparr>currentVoter = True, potentialVoter = True\<rparr>),
     (''c'', \<lparr>currentVoter = True, potentialVoter = True\<rparr>),
     (''d'', \<lparr>currentVoter = True, potentialVoter = True\<rparr>),
     (''e'', \<lparr>currentVoter = False, potentialVoter = False\<rparr>)]\<rparr>"

definition sample_failed :: FailedServers where
  "sample_failed = \<lparr>fs_StaleNonVoters = [''e''], fs_StaleVoters = [], fs_FailedNonVoters = [],
     fs_FailedVoters = [sample_server ''b'' ''y'' NodeFailed]\<rparr>"

lemmas sample_prune_defs = sample_prune_def sample_members_def sample_raft_servers_def sample_env_defs
  sample_server_def StablePromoter_def

lemma sample_collected:
  "getFailedServers rev sample_prune h = (Inr (sample_failed, sample_eligibility), h @ [CGetConfiguration, CKnownServers])"
  by (simp add: getFailedServers_def getRaftConfiguration_def sample_prune_defs newVoterRegistry_def
      stable_IsPotentialVoter_def setPotentialVoter_def sort_failed_def sort_pure_def zero_FailedServers_def
      sample_failed_def sample_eligibility_def)

lemma sample_pot: "pot_set sample_eligibility = {''a'', ''b'', ''c'', ''d''}"
  by (subst pot_set_image) (simp_all add: sample_eligibility_def)

lemma sample_cur: "cur_set sample_eligibility = {''a'', ''b'', ''c'', ''d''}"
  by (auto simp: cur_set_def sample_eligibility_def split: if_splits)

theorem getFailedServers_classifies_witness:
  "''e'' \<in> set (fs_StaleNonVoters sample_failed) \<and>
   sample_server ''b'' ''y'' NodeFailed \<in> set (fs_FailedVoters sample_failed)"
proof -
  have "fst (getFailedServers rev sample_prune []) = Inr (sample_failed, sample_eligibility)"
    by (simp add: sample_collected)
  moreover have "distinct (map rs_ID (conf_of sample_prune []))" by (simp add: sample_prune_defs)
  moreover have "sample_members = d_KnownServers (ap_delegate sample_prune) ([] @ [CGetConfiguration])"
    "gomap_wf sample_members" by (simp_all add: sample_prune_defs)
  ultimately show ?thesis
    using getFailedServers_classifies [OF _ go_range_rev, of sample_prune "[]" sample_failed
        sample_eligibility sample_members]
    by (simp add: sample_prune_defs)
qed

definition sample_prune_reordered :: Autopilot where
  "sample_prune_reordered = sample_prune\<lparr>ap_delegate := sample_delegate sample_conf (rev sample_members)\<rparr>"

theorem getFailedServers_order_witness:
  "\<exists>vr'. fst (getFailedServers (\<lambda>m. m) sample_prune_reordered []) = Inr (sample_failed, vr')"
proof -
  have "fst (getFailedServers (\<lambda>m. m) sample_prune_reordered []) \<noteq> Inl e" for e
    by (simp add: getFailedServers_def getRaftConfiguration_def sample_prune_reordered_def
        sample_prune_def sample_env_defs split: prod.split)
  then obtain f' vr' where run: "fst (getFailedServers (\<lambda>m. m) sample_prune_reordered []) = Inr (f', vr')"
    by (metis obj_sumE surj_pair)
  have "fst (getFailedServers rev sample_prune []) = Inr (sample_failed, sample_eligibility)"
    by (simp add: sample_collected)
  note order = getFailedServers_order [OF go_range_rev go_range_id _ _ _ _ this run]
  have "f' = sample_failed \<and> map_of (eligibility vr') = map_of (eligibility sample_eligibility)"
    by (rule order) (simp_all add: sample_prune_reordered_def sample_prune_defs keyed_by_id_def)
  with run show ?thesis by blast
qed

end
