(* ===== verification/AP_Adjudicate.thy ===== *)
theory AP_Adjudicate
  imports AP_Failed
begin

text \<open>
  Which removals are safe (reconcile.go): \<open>adjudicateRemoval\<close>. A nil entry of the registry is
  dereferenced by the code without a check, and so is a nil configuration; these are the panics of
  the model.
\<close>

text \<open>
  The loop of \<open>adjudicateRemoval\<close>: \<open>initial\<close> potential voters at the start, \<open>removed\<close> so far,
  and \<open>maxRemoval\<close> more allowed.
\<close>

fun adjudicate_loop :: "voterRegistry \<Rightarrow> int \<Rightarrow> uint64 \<Rightarrow> ServerID list \<Rightarrow> int \<Rightarrow> int \<Rightarrow> ServerID list \<Rightarrow>
    go_panic + ServerID list" where
  "adjudicate_loop vr initial minQuorum [] removed maxRemoval result = Inr result"
| "adjudicate_loop vr initial minQuorum (i # ids) removed maxRemoval result =
     (let v = map_of (eligibility vr) i
      in if (\<exists>e. v = Some e \<and> isPotentialVoter e) \<and> initial - removed - 1 < int_of_uint minQuorum
         then adjudicate_loop vr initial minQuorum ids removed maxRemoval result
         else
           (case v of
              None \<Rightarrow> Inl NilDeref
            | Some e \<Rightarrow>
                if isCurrentVoter e \<and> maxRemoval < 1
                then adjudicate_loop vr initial minQuorum ids removed maxRemoval result
                else if isPotentialVoter e
                then adjudicate_loop vr initial minQuorum ids (removed + 1) (maxRemoval - 1) (result @ [i])
                else adjudicate_loop vr initial minQuorum ids removed maxRemoval (result @ [i])))"

definition adjudicateRemoval :: "Autopilot \<Rightarrow> ServerID list \<Rightarrow> voterRegistry \<Rightarrow> hist \<Rightarrow>
    (go_panic + ServerID list) \<times> hist" where
  "adjudicateRemoval a ids vr h =
     (let initial = potentialVoters vr;
          maxRemoval = go_div (initial - 1) 2;
          conf = d_AutopilotConfig (ap_delegate a) h; h = h @ [CAutopilotConfig]
      in case conf of
           None \<Rightarrow> (Inl NilDeref, h)
         | Some conf \<Rightarrow> (adjudicate_loop vr initial (cfg_MinQuorum conf) ids 0 maxRemoval [], h))"

section \<open>What adjudication lets through\<close>

lemma registry_entry:
  assumes "map_of (eligibility vr) i = Some e"
  shows "isPotentialVoter e \<longleftrightarrow> i \<in> pot_set vr" "isCurrentVoter e \<longleftrightarrow> i \<in> cur_set vr"
  using assms by (simp_all add: pot_set_def cur_set_def isPotentialVoter_def isCurrentVoter_def)

lemma adjudicate_loop_step:
  "adjudicate_loop vr initial q (i # ids) removed mx result =
     (if i \<notin> reg_ids vr then Inl NilDeref
      else if i \<in> pot_set vr \<and> initial - removed - 1 < int_of_uint q \<or> i \<in> cur_set vr \<and> mx < 1
      then adjudicate_loop vr initial q ids removed mx result
      else if i \<in> pot_set vr
      then adjudicate_loop vr initial q ids (removed + 1) (mx - 1) (result @ [i])
      else adjudicate_loop vr initial q ids removed mx (result @ [i]))"
proof (cases "map_of (eligibility vr) i")
  case None
  then have "i \<notin> reg_ids vr" by (simp add: map_of_eq_None_iff)
  with None show ?thesis by simp
next
  case (Some e)
  then have "i \<in> reg_ids vr" by (simp add: in_keys_iff)
  with Some registry_entry [OF Some] show ?thesis by (simp add: Let_def)
qed

lemma adjudicate_loop_panic:
  "(\<exists>p. adjudicate_loop vr initial q ids removed mx result = Inl p) \<longleftrightarrow> \<not> set ids \<subseteq> reg_ids vr"
  by (induction ids arbitrary: removed mx result)
    (auto simp: adjudicate_loop_step simp del: adjudicate_loop.simps(2))

text \<open>The ids that the loop selects, with the counts that bound them.\<close>

lemma adjudicate_loop_selects:
  assumes "adjudicate_loop vr initial q ids removed mx result = Inr out"
  shows "\<exists>sel. out = result @ sel \<and> subseq sel ids \<and>
    (pot_set vr \<inter> set sel \<noteq> {} \<longrightarrow>
      int_of_uint q \<le> initial - removed - int (length (filter (\<lambda>i. i \<in> pot_set vr) sel))) \<and>
    int (length (filter (\<lambda>i. i \<in> pot_set vr \<and> i \<in> cur_set vr) sel)) \<le> max 0 mx \<and>
    (mx < 1 \<longrightarrow> cur_set vr \<inter> set sel = {})"
  using assms
proof (induction ids arbitrary: removed mx result)
  case (Cons i ids)
  let ?P = "pot_set vr" and ?C = "cur_set vr"
  show ?case
  proof (cases "i \<in> ?P \<and> initial - removed - 1 < int_of_uint q \<or> i \<in> ?C \<and> mx < 1")
    case True
    then have "adjudicate_loop vr initial q ids removed mx result = Inr out"
      using Cons.prems by (simp add: adjudicate_loop_step del: adjudicate_loop.simps(2) split: if_splits)
    from Cons.IH [OF this] show ?thesis by (auto intro: list_emb_Cons)
  next
    case keep: False
    show ?thesis
    proof (cases "i \<in> ?P")
      case True
      then have "adjudicate_loop vr initial q ids (removed + 1) (mx - 1) (result @ [i]) = Inr out"
        using Cons.prems keep
        by (simp add: adjudicate_loop_step del: adjudicate_loop.simps(2) split: if_splits)
      from Cons.IH [OF this] obtain sel where sel: "out = (result @ [i]) @ sel" "subseq sel ids"
        "?P \<inter> set sel \<noteq> {} \<longrightarrow> int_of_uint q \<le> initial - (removed + 1) - int (length (filter (\<lambda>i. i \<in> ?P) sel))"
        "int (length (filter (\<lambda>i. i \<in> ?P \<and> i \<in> ?C) sel)) \<le> max 0 (mx - 1)"
        "mx - 1 < 1 \<longrightarrow> ?C \<inter> set sel = {}" by blast
      have none: "length (filter (\<lambda>i. i \<in> ?P) sel) = 0" if "?P \<inter> set sel = {}"
        using that by (auto simp: filter_empty_conv)
      show ?thesis
      proof (intro exI [of _ "i # sel"] conjI)
        show "?P \<inter> set (i # sel) \<noteq> {} \<longrightarrow>
            int_of_uint q \<le> initial - removed - int (length (filter (\<lambda>i. i \<in> ?P) (i # sel)))"
          using sel(3) keep True none by (cases "?P \<inter> set sel = {}") auto
      qed (use sel keep True in auto)
    next
      case False
      then have "adjudicate_loop vr initial q ids removed mx (result @ [i]) = Inr out"
        using Cons.prems keep
        by (simp add: adjudicate_loop_step del: adjudicate_loop.simps(2) split: if_splits)
      from Cons.IH [OF this] obtain sel where "out = (result @ [i]) @ sel" "subseq sel ids"
        "?P \<inter> set sel \<noteq> {} \<longrightarrow> int_of_uint q \<le> initial - removed - int (length (filter (\<lambda>i. i \<in> ?P) sel))"
        "int (length (filter (\<lambda>i. i \<in> ?P \<and> i \<in> ?C) sel)) \<le> max 0 mx"
        "mx < 1 \<longrightarrow> ?C \<inter> set sel = {}" by blast
      then show ?thesis using False keep by (intro exI [of _ "i # sel"]) auto
    qed
  qed
qed simp

lemma adjudicateRemoval_result:
  assumes "fst (adjudicateRemoval a ids vr h) = Inr out"
  obtains conf where "d_AutopilotConfig (ap_delegate a) h = Some conf"
    "snd (adjudicateRemoval a ids vr h) = h @ [CAutopilotConfig]"
    "adjudicate_loop vr (potentialVoters vr) (cfg_MinQuorum conf) ids 0
       (go_div (potentialVoters vr - 1) 2) [] = Inr out"
  using assms by (auto simp: adjudicateRemoval_def Let_def split: option.splits)

lemma snd_adjudicateRemoval [simp]: "snd (adjudicateRemoval a ids vr h) = h @ [CAutopilotConfig]"
  by (simp add: adjudicateRemoval_def Let_def split: option.split)

lemma adjudicate_pair:
  "fst (adjudicateRemoval a ids vr h) = x \<Longrightarrow> adjudicateRemoval a ids vr h = (x, h @ [CAutopilotConfig])"
  by (metis prod.collapse snd_adjudicateRemoval)

lemma count_mem_card: "card (A \<inter> set xs) \<le> length (filter (\<lambda>i. i \<in> A) xs)"
proof -
  have "A \<inter> set xs = set (filter (\<lambda>i. i \<in> A) xs)" by auto
  then show ?thesis by (simp add: card_length del: set_filter)
qed

lemma potentialVoters_nonneg: "0 \<le> potentialVoters vr"
  by (simp add: potentialVoters_filter)

lemma card_pot_remove:
  assumes "reg_wf vr"
  shows "int (card (pot_set (registry_remove vr ids))) = potentialVoters vr - int (card (pot_set vr \<inter> set ids))"
proof -
  have "card (pot_set vr - set ids) = card (pot_set vr) - card (pot_set vr \<inter> set ids)"
    by (rule card_Diff_subset_Int) simp
  moreover have "card (pot_set vr \<inter> set ids) \<le> card (pot_set vr)"
    by (rule card_mono) simp_all
  ultimately show ?thesis
    using assms by (simp add: potentialVoters_card pot_set_remove)
qed

lemma adjudicate_min:
  assumes "reg_wf vr" "fst (adjudicateRemoval a ids vr h) = Inr out"
    and "d_AutopilotConfig (ap_delegate a) h = Some conf"
  shows "subseq out ids" "set ids \<subseteq> reg_ids vr"
    "pot_set vr \<inter> set out \<noteq> {} \<Longrightarrow>
       int_of_uint (cfg_MinQuorum conf) \<le> int (card (pot_set (registry_remove vr out)))"
    "2 * int (card (pot_set vr \<inter> cur_set vr \<inter> set out)) \<le> max 0 (potentialVoters vr - 1)"
    "potentialVoters vr \<le> 2 \<Longrightarrow> cur_set vr \<inter> set out = {}"
proof -
  let ?n = "potentialVoters vr" and ?q = "cfg_MinQuorum conf"
  have loop: "adjudicate_loop vr ?n ?q ids 0 (go_div (?n - 1) 2) [] = Inr out"
    using assms(2,3) by (auto elim: adjudicateRemoval_result)
  then show "set ids \<subseteq> reg_ids vr" using adjudicate_loop_panic by (metis Inr_Inl_False)
  have sel: "subseq out ids"
    "pot_set vr \<inter> set out \<noteq> {} \<longrightarrow> int_of_uint ?q \<le> ?n - int (length (filter (\<lambda>i. i \<in> pot_set vr) out))"
    "int (length (filter (\<lambda>i. i \<in> pot_set vr \<and> i \<in> cur_set vr) out)) \<le> max 0 (go_div (?n - 1) 2)"
    "go_div (?n - 1) 2 < 1 \<longrightarrow> cur_set vr \<inter> set out = {}"
    using adjudicate_loop_selects [OF loop] by auto
  show "subseq out ids" by (fact sel(1))
  have mx: "go_div (?n - 1) 2 = (if ?n = 0 then 0 else (?n - 1) div 2)"
    using potentialVoters_nonneg [of vr] by (auto simp: go_div_two go_div_minus_one)
  show "int_of_uint ?q \<le> int (card (pot_set (registry_remove vr out)))" if "pot_set vr \<inter> set out \<noteq> {}"
  proof -
    have "int_of_uint ?q \<le> ?n - int (length (filter (\<lambda>i. i \<in> pot_set vr) out))"
      using sel(2) that by simp
    also have "\<dots> \<le> ?n - int (card (pot_set vr \<inter> set out))"
      using count_mem_card [of "pot_set vr" out] by simp
    finally show ?thesis using card_pot_remove [OF assms(1), of out] by linarith
  qed
  have "int (card (pot_set vr \<inter> cur_set vr \<inter> set out)) \<le> max 0 (go_div (?n - 1) 2)"
    using count_mem_card [of "pot_set vr \<inter> cur_set vr" out] sel(3) by simp
  then show "2 * int (card (pot_set vr \<inter> cur_set vr \<inter> set out)) \<le> max 0 (?n - 1)"
    unfolding mx using potentialVoters_nonneg [of vr] by (auto split: if_splits)
  show "cur_set vr \<inter> set out = {}" if "?n \<le> 2"
    using sel(4) that unfolding mx by (auto split: if_splits)
qed

text \<open>When adjudication cannot panic.\<close>

lemma adjudicate_total:
  assumes "d_AutopilotConfig (ap_delegate a) h \<noteq> None" "set ids \<subseteq> reg_ids vr"
  obtains out where "adjudicateRemoval a ids vr h = (Inr out, h @ [CAutopilotConfig])" "set out \<subseteq> set ids"
proof -
  obtain conf where conf: "d_AutopilotConfig (ap_delegate a) h = Some conf" using assms(1) by blast
  let ?r = "adjudicate_loop vr (potentialVoters vr) (cfg_MinQuorum conf) ids 0 (go_div (potentialVoters vr - 1) 2) []"
  have "\<nexists>p. ?r = Inl p" using assms(2) adjudicate_loop_panic by blast
  then obtain out where out: "?r = Inr out" by (cases ?r) auto
  moreover have "set out \<subseteq> set ids"
    using adjudicate_loop_selects [OF out] by (auto elim: list_emb_set)
  ultimately show thesis using that conf by (simp add: adjudicateRemoval_def)
qed

text \<open>
  A lower bound for the MinQuorum of every configuration that the application returns, as the code
  reads it; zero is always one.
\<close>

definition min_quorum :: "Autopilot \<Rightarrow> nat \<Rightarrow> bool" where
  "min_quorum a q \<longleftrightarrow> q = 0 \<or>
     (\<forall>h conf. d_AutopilotConfig (ap_delegate a) h = Some conf \<longrightarrow> int q \<le> int_of_uint (cfg_MinQuorum conf))"

lemma min_quorum_zero [simp]: "min_quorum a 0"
  by (simp add: min_quorum_def)

definition always_configured :: "Autopilot \<Rightarrow> bool" where
  "always_configured a \<longleftrightarrow> (\<forall>h. d_AutopilotConfig (ap_delegate a) h \<noteq> None)"

section \<open>Properties of adjudication\<close>

text \<open>
  C9: adjudication never lets the removals endanger the quorum. It returns a sublist of the ids
  it was asked about, in their order. If any potential voter is among them, at least MinQuorum
  potential voters remain after the removal. Fewer than half of the potential voters are removed
  as current voters, and no current voter at all when there are at most two potential ones.
\<close>

theorem adjudicate_safe:
  assumes "reg_wf vr" "fst (adjudicateRemoval a ids vr h) = Inr out"
    and "d_AutopilotConfig (ap_delegate a) h = Some conf" "unat (cfg_MinQuorum conf) < 2 ^ 63"
  shows "subseq out ids \<and>
    (pot_set vr \<inter> set out \<noteq> {} \<longrightarrow>
      unat (cfg_MinQuorum conf) \<le> card (pot_set (registry_remove vr out))) \<and>
    2 * int (card (pot_set vr \<inter> cur_set vr \<inter> set out)) \<le> max 0 (potentialVoters vr - 1) \<and>
    (potentialVoters vr \<le> 2 \<longrightarrow> cur_set vr \<inter> set out = {})"
proof -
  note adj = adjudicate_min [OF assms(1-3)]
  have "unat (cfg_MinQuorum conf) \<le> card (pot_set (registry_remove vr out))" if "pot_set vr \<inter> set out \<noteq> {}"
    using adj(3) [OF that] unfolding int_of_uint_small [OF assms(4)] by linarith
  then show ?thesis using adj(1,4,5) by blast
qed

text \<open>
  C36: adjudication panics exactly when the configuration has meanwhile become nil or an id is not
  in the registry. The code tests the registry's entry against nil on the other branches only, so
  that an id that is not a server of the raft configuration (a promoter's filter may return one)
  ends in a nil dereference.
\<close>

theorem adjudicate_panics_iff:
  "fst (adjudicateRemoval a ids vr h) = Inl NilDeref \<longleftrightarrow>
     d_AutopilotConfig (ap_delegate a) h = None \<or> \<not> set ids \<subseteq> reg_ids vr"
proof (cases "d_AutopilotConfig (ap_delegate a) h")
  case (Some conf)
  have "(\<exists>p. x = Inl p) \<longleftrightarrow> x = Inl NilDeref" for x :: "go_panic + ServerID list"
    using go_panic.exhaust by auto
  then show ?thesis
    using Some adjudicate_loop_panic [of vr "potentialVoters vr" "cfg_MinQuorum conf" ids 0
        "go_div (potentialVoters vr - 1) 2" "[]"]
    by (simp add: adjudicateRemoval_def Let_def)
qed (simp add: adjudicateRemoval_def)

lemma adjudicate_loop_no_potential:
  assumes "set ids \<subseteq> reg_ids vr" "pot_set vr \<inter> set ids = {}"
  shows "adjudicate_loop vr initial q ids removed mx result =
    Inr (result @ (if mx < 1 then filter (\<lambda>i. i \<notin> cur_set vr) ids else ids))"
  using assms
proof (induction ids arbitrary: result)
  case (Cons i ids)
  then have "i \<in> reg_ids vr" "i \<notin> pot_set vr" "set ids \<subseteq> reg_ids vr" "pot_set vr \<inter> set ids = {}" by auto
  with Cons.IH show ?case by (simp add: adjudicate_loop_step del: adjudicate_loop.simps(2))
qed simp

text \<open>
  For servers that are no potential voters, which includes all stale ones, there is no cap:
  with three or more potential voters all of them may be removed, voters or not, whatever
  MinQuorum says; with fewer, exactly the current voters among them are kept.
\<close>

theorem adjudicate_uncapped:
  assumes "set ids \<subseteq> reg_ids vr" "pot_set vr \<inter> set ids = {}"
    and "d_AutopilotConfig (ap_delegate a) h = Some conf"
  shows "fst (adjudicateRemoval a ids vr h) =
    Inr (if potentialVoters vr \<le> 2 then filter (\<lambda>i. i \<notin> cur_set vr) ids else ids)"
proof -
  have "go_div (potentialVoters vr - 1) 2 < 1 \<longleftrightarrow> potentialVoters vr \<le> 2"
    using potentialVoters_nonneg [of vr]
    by (cases "potentialVoters vr = 0") (auto simp: go_div_two go_div_minus_one)
  then show ?thesis
    using assms(3) adjudicate_loop_no_potential [OF assms(1,2)] by (simp add: adjudicateRemoval_def)
qed

section \<open>Witnesses\<close>

lemma sample_configured:
  "min_quorum sample_prune 3" "always_configured sample_prune"
  "d_AutopilotConfig (ap_delegate sample_prune) h = Some sample_conf"
  by (simp_all add: min_quorum_def always_configured_def sample_prune_defs sample_conf_def int_of_uint_def)

lemma sample_adjudicated:
  "fst (adjudicateRemoval sample_prune [''b'', ''c''] sample_eligibility h) = Inr [''b'']"
  by (simp add: adjudicateRemoval_def sample_configured potentialVoters_filter)
    (simp add: sample_eligibility_def isPotentialVoter_def isCurrentVoter_def sample_conf_def
      int_of_uint_def go_div_two)

theorem adjudicate_safe_witness:
  "3 \<le> card (pot_set (registry_remove sample_eligibility [''b'']))"
proof -
  have "reg_wf sample_eligibility" "unat (cfg_MinQuorum sample_conf) < 2 ^ 63"
    by (simp_all add: sample_eligibility_def sample_conf_def)
  from adjudicate_safe [OF this(1) sample_adjudicated sample_configured(3) this(2)]
  show ?thesis by (simp add: sample_pot sample_conf_def)
qed

theorem adjudicate_panics_iff_witness:
  "fst (adjudicateRemoval sample_prune [''q''] sample_eligibility []) = Inl NilDeref \<and>
   fst (adjudicateRemoval sample_prune [''b''] sample_eligibility []) \<noteq> Inl NilDeref"
  unfolding adjudicate_panics_iff by (simp add: sample_configured sample_eligibility_def)

theorem adjudicate_uncapped_witness:
  "fst (adjudicateRemoval sample_prune [''e''] sample_eligibility []) = Inr [''e'']"
proof -
  have "set [''e''] \<subseteq> reg_ids sample_eligibility" "pot_set sample_eligibility \<inter> set [''e''] = {}"
    by (simp_all add: sample_pot) (simp add: sample_eligibility_def)
  from adjudicate_uncapped [OF this sample_configured(3)] show ?thesis by (simp add: sample_cur)
qed

end
