(* ===== verification/AP_Prune.thy ===== *)
theory AP_Prune
  imports AP_Adjudicate
begin

text \<open>
  Removal of dead servers (reconcile.go): \<open>removeStaleServer\<close>, \<open>removeStaleServers\<close>,
  \<open>removeFailedServers\<close>, \<open>pruneDeadServers\<close>. Besides the panics of \<open>adjudicateRemoval\<close>, the code
  panics on a nil result of the promoter's filter.
\<close>

section \<open>Removing servers\<close>

definition removeStaleServer :: "Autopilot \<Rightarrow> ServerID \<Rightarrow> hist \<Rightarrow> go_error option \<times> hist" where
  "removeStaleServer a i h =
     (case r_RemoveServer (ap_raft a) h i 0 0 of
        Some err \<Rightarrow> (Some err, h @ [CRemoveServer i 0 0])
      | None \<Rightarrow> (None, h @ [CRemoveServer i 0 0]))"

fun removeStaleServers_loop :: "Autopilot \<Rightarrow> ServerID list \<Rightarrow> go_error option \<Rightarrow> hist \<Rightarrow> go_error option \<times> hist" where
  "removeStaleServers_loop a [] result h = (result, h)"
| "removeStaleServers_loop a (i # toRemove) result h =
     (case removeStaleServer a i h of
        (Some err, h) \<Rightarrow> removeStaleServers_loop a toRemove (Some (ErrAppend result err)) h
      | (None, h) \<Rightarrow> removeStaleServers_loop a toRemove result h)"

definition removeStaleServers :: "Autopilot \<Rightarrow> ServerID list \<Rightarrow> hist \<Rightarrow> go_error option \<times> hist" where
  "removeStaleServers a toRemove h = removeStaleServers_loop a toRemove None h"

fun removeFailedServers :: "Server list \<Rightarrow> hist \<Rightarrow> hist" where
  "removeFailedServers [] h = h"
| "removeFailedServers (srv # toRemove) h = removeFailedServers toRemove (h @ [CRemoveFailedServer srv])"

section \<open>Pruning\<close>

text \<open>One of the two steps for stale servers: adjudicate, remove, update the registry.\<close>

definition prune_stale :: "Autopilot \<Rightarrow> ServerID list \<Rightarrow> voterRegistry \<Rightarrow> hist \<Rightarrow>
    (go_panic + (go_error + voterRegistry)) \<times> hist" where
  "prune_stale a ids vr h =
     (case adjudicateRemoval a ids vr h of
        (Inl p, h) \<Rightarrow> (Inl p, h)
      | (Inr toRemove, h) \<Rightarrow>
          (case removeStaleServers a toRemove h of
             (Some err, h) \<Rightarrow> (Inr (Inl err), h)
           | (None, h) \<Rightarrow> (Inr (Inr (registry_remove vr toRemove)), h)))"

text \<open>One of the two steps for failed servers.\<close>

definition prune_failed :: "Autopilot \<Rightarrow> FailedServers \<Rightarrow> bool \<Rightarrow> voterRegistry \<Rightarrow> hist \<Rightarrow>
    (go_panic + voterRegistry) \<times> hist" where
  "prune_failed a failed isVoter vr h =
     (let ids = registry_filter vr (if isVoter then fs_FailedVoters failed else fs_FailedNonVoters failed)
      in case adjudicateRemoval a ids vr h of
           (Inl p, h) \<Rightarrow> (Inl p, h)
         | (Inr toRemove, h) \<Rightarrow>
             (Inr (registry_remove vr toRemove), removeFailedServers (getFailed failed toRemove isVoter) h))"

definition prune_steps :: "Autopilot \<Rightarrow> FailedServers \<Rightarrow> voterRegistry \<Rightarrow> hist \<Rightarrow>
    (go_panic + go_error option) \<times> hist" where
  "prune_steps a failed vr h =
     (case prune_stale a (fs_StaleNonVoters failed) vr h of
        (Inl p, h) \<Rightarrow> (Inl p, h)
      | (Inr (Inl err), h) \<Rightarrow> (Inr (Some err), h)
      | (Inr (Inr vr), h) \<Rightarrow>
     (case prune_stale a (fs_StaleVoters failed) vr h of
        (Inl p, h) \<Rightarrow> (Inl p, h)
      | (Inr (Inl err), h) \<Rightarrow> (Inr (Some err), h)
      | (Inr (Inr vr), h) \<Rightarrow>
     (case prune_failed a failed False vr h of
        (Inl p, h) \<Rightarrow> (Inl p, h)
      | (Inr vr, h) \<Rightarrow>
     (case prune_failed a failed True vr h of
        (Inl p, h) \<Rightarrow> (Inl p, h)
      | (Inr vr, h) \<Rightarrow> (Inr None, h)))))"

definition pruneDeadServers :: "(ServerID, raft_Server) ranger \<Rightarrow> Autopilot \<Rightarrow> hist \<Rightarrow>
    (go_panic + go_error option) \<times> hist" where
  "pruneDeadServers rng a h =
     (if \<not> ReconciliationEnabled a then (Inr None, h)
      else
      let conf = d_AutopilotConfig (ap_delegate a) h; h = h @ [CAutopilotConfig]
      in case conf of
           None \<Rightarrow> (Inr None, h)
         | Some conf \<Rightarrow>
      if \<not> cfg_CleanupDeadServers conf then (Inr None, h)
      else
      let state = GetState a
      in case getFailedServers rng a h of
           (Inl err, h) \<Rightarrow> (Inr (Some err), h)
         | (Inr (failed, vr), h) \<Rightarrow>
             let filtered = p_FilterFailedServerRemovals (ap_promoter a) h conf state failed;
                 h = h @ [CFilterFailed conf state failed]
             in case filtered of
                  None \<Rightarrow> (Inl NilDeref, h)
                | Some failed \<Rightarrow> prune_steps a failed vr h)"

section \<open>The calls of a pruning step\<close>

abbreviation rm_stale :: "ServerID \<Rightarrow> call" where
  "rm_stale i \<equiv> CRemoveServer i 0 0"

lemma removeStaleServers_loop_calls:
  "snd (removeStaleServers_loop a ids e h) = h @ map rm_stale ids"
  by (induction a ids e h rule: removeStaleServers_loop.induct)
    (auto simp: removeStaleServer_def split: option.split)

lemma snd_removeStaleServers [simp]: "snd (removeStaleServers a ids h) = h @ map rm_stale ids"
  by (simp add: removeStaleServers_def removeStaleServers_loop_calls)

lemma removeFailedServers_calls [simp]:
  "removeFailedServers srvs h = h @ map CRemoveFailedServer srvs"
  by (induction srvs h rule: removeFailedServers.induct) auto

text \<open>The ids whose removal a sequence of calls asks for.\<close>

definition removed_ids :: "call list \<Rightarrow> ServerID set" where
  "removed_ids cs = {i. rm_stale i \<in> set cs \<or> (\<exists>srv. CRemoveFailedServer srv \<in> set cs \<and> srv_ID srv = i)}"

lemma removed_ids_append [simp]: "removed_ids (cs @ ds) = removed_ids cs \<union> removed_ids ds"
  by (auto simp: removed_ids_def)

lemma removed_ids_simps [simp]:
  "removed_ids [] = {}" "removed_ids (CAutopilotConfig # cs) = removed_ids cs"
  "removed_ids (map rm_stale ids) = set ids"
  "removed_ids (map CRemoveFailedServer srvs) = srv_ID ` set srvs"
  by (auto simp: removed_ids_def)

definition step_ok :: "nat \<Rightarrow> voterRegistry \<Rightarrow> call list \<Rightarrow> voterRegistry \<Rightarrow> bool" where
  "step_ok q vr cs vr' \<longleftrightarrow> reg_wf vr' \<and>
     (\<exists>out. pot_set vr' = pot_set vr - set out \<and> removed_ids cs \<subseteq> set out \<and>
       (pot_set vr \<inter> set out \<noteq> {} \<longrightarrow> q \<le> card (pot_set vr')))"

lemma step_ok_refl: "reg_wf vr \<Longrightarrow> removed_ids cs = {} \<Longrightarrow> step_ok q vr cs vr"
  by (simp add: step_ok_def exI [of _ "[]"])

lemma step_ok_trans:
  assumes "step_ok q vr cs vr'" "step_ok q vr' ds vr''"
  shows "step_ok q vr (cs @ ds) vr''"
proof -
  obtain xs where xs: "pot_set vr' = pot_set vr - set xs" "removed_ids cs \<subseteq> set xs"
    "pot_set vr \<inter> set xs \<noteq> {} \<longrightarrow> q \<le> card (pot_set vr')" using assms(1) by (auto simp: step_ok_def)
  obtain ys where ys: "reg_wf vr''" "pot_set vr'' = pot_set vr' - set ys" "removed_ids ds \<subseteq> set ys"
    "pot_set vr' \<inter> set ys \<noteq> {} \<longrightarrow> q \<le> card (pot_set vr'')" using assms(2) by (auto simp: step_ok_def)
  have "q \<le> card (pot_set vr'')" if "pot_set vr \<inter> set (xs @ ys) \<noteq> {}"
  proof (cases "pot_set vr' \<inter> set ys = {}")
    case True
    then have "pot_set vr'' = pot_set vr'" using ys(2) by blast
    moreover have "pot_set vr \<inter> set xs \<noteq> {}" using True that xs(1) by auto
    ultimately show ?thesis using xs(3) by simp
  qed (use ys(4) in simp)
  then show ?thesis
    unfolding step_ok_def using xs ys by (intro conjI exI [of _ "xs @ ys"]) auto
qed

lemma step_ok_quorum:
  assumes "step_ok q vr cs vr'"
  shows "removed_ids cs \<inter> pot_set vr = {} \<or> q \<le> card (pot_set vr - removed_ids cs)"
proof -
  obtain out where out: "pot_set vr' = pot_set vr - set out" "removed_ids cs \<subseteq> set out"
    "pot_set vr \<inter> set out \<noteq> {} \<longrightarrow> q \<le> card (pot_set vr')" using assms by (auto simp: step_ok_def)
  have "card (pot_set vr') \<le> card (pot_set vr - removed_ids cs)"
    by (rule card_mono) (use out in auto)
  with out show ?thesis by fastforce
qed

lemma adjudicate_step:
  assumes "reg_wf vr" "fst (adjudicateRemoval a ids vr h) = Inr out" "min_quorum a q"
    and "removed_ids cs \<subseteq> set out"
  shows "step_ok q vr cs (registry_remove vr out)"
proof -
  obtain conf where conf: "d_AutopilotConfig (ap_delegate a) h = Some conf"
    using assms(2) by (rule adjudicateRemoval_result)
  then have "q = 0 \<or> int q \<le> int_of_uint (cfg_MinQuorum conf)"
    using assms(3) by (auto simp: min_quorum_def)
  then have "q \<le> card (pot_set (registry_remove vr out))" if "pot_set vr \<inter> set out \<noteq> {}"
    using adjudicate_min(3) [OF assms(1,2) conf that] by linarith
  then show ?thesis
    unfolding step_ok_def using assms(1,4) by (auto simp: reg_wf_remove pot_set_remove)
qed

text \<open>One step of pruning: what it may remove, and that it keeps the quorum.\<close>

definition good_step :: "nat \<Rightarrow> call set \<Rightarrow> voterRegistry \<Rightarrow> hist \<Rightarrow> voterRegistry \<Rightarrow> hist \<Rightarrow> bool" where
  "good_step q allowed vr h vr' h' \<longleftrightarrow>
     (\<exists>cs. h' = h @ cs \<and> set cs \<subseteq> insert CAutopilotConfig allowed \<and> step_ok q vr cs vr')"

lemma good_step_refl: "reg_wf vr \<Longrightarrow> good_step q A vr h vr h"
  by (simp add: good_step_def step_ok_refl)

lemma good_step_trans:
  assumes "good_step q A vr h vr' h'" "good_step q B vr' h' vr'' h''"
  shows "good_step q (A \<union> B) vr h vr'' h''"
proof -
  obtain cs ds where cs: "h' = h @ cs" "set cs \<subseteq> insert CAutopilotConfig A" "step_ok q vr cs vr'"
    and ds: "h'' = h' @ ds" "set ds \<subseteq> insert CAutopilotConfig B" "step_ok q vr' ds vr''"
    using assms by (auto simp: good_step_def)
  show ?thesis
    unfolding good_step_def using cs ds step_ok_trans [OF cs(3) ds(3)]
    by (intro exI [of _ "cs @ ds"]) auto
qed

lemma good_step_mono: "good_step q A vr h vr' h' \<Longrightarrow> A \<subseteq> B \<Longrightarrow> good_step q B vr h vr' h'"
  by (auto simp: good_step_def)

lemma prune_stale_step:
  assumes "reg_wf vr" "min_quorum a q" "prune_stale a ids vr h = (r, h')"
  shows "\<exists>vr'. good_step q (rm_stale ` set ids) vr h vr' h' \<and> (\<forall>w. r = Inr (Inr w) \<longrightarrow> w = vr')"
proof (cases "fst (adjudicateRemoval a ids vr h)")
  case (Inl p)
  then have "r = Inl p" "h' = h @ [CAutopilotConfig]"
    using assms(3) by (auto simp: prune_stale_def adjudicate_pair [OF Inl])
  then show ?thesis
    using step_ok_refl [OF assms(1), of "[CAutopilotConfig]"] by (auto simp: good_step_def)
next
  case (Inr out)
  have out: "set out \<subseteq> set ids"
  proof -
    obtain conf :: Config where "adjudicate_loop vr (potentialVoters vr) (cfg_MinQuorum conf) ids 0
        (go_div (potentialVoters vr - 1) 2) [] = Inr out" using Inr by (rule adjudicateRemoval_result)
    then have "subseq out ids" using adjudicate_loop_selects by fastforce
    then show ?thesis by (auto elim: list_emb_set)
  qed
  note adj = adjudicate_pair [OF Inr]
  obtain e where "removeStaleServers a out (h @ [CAutopilotConfig]) = (e, h @ CAutopilotConfig # map rm_stale out)"
    using snd_removeStaleServers [of a out "h @ [CAutopilotConfig]"]
    by (cases "removeStaleServers a out (h @ [CAutopilotConfig])") simp
  then have "h' = h @ CAutopilotConfig # map rm_stale out"
    "r = Inr (Inr w) \<Longrightarrow> w = registry_remove vr out" for w
    using assms(3) by (auto simp: prune_stale_def adj split: option.splits)
  moreover have "step_ok q vr (CAutopilotConfig # map rm_stale out) (registry_remove vr out)"
    by (rule adjudicate_step [OF assms(1) Inr assms(2)]) simp
  ultimately show ?thesis
    using out unfolding good_step_def by (intro exI [of _ "registry_remove vr out"]) auto
qed

lemma prune_failed_step:
  assumes "reg_wf vr" "min_quorum a q" "prune_failed a failed b vr h = (r, h')"
  shows "\<exists>vr'. good_step q (CRemoveFailedServer ` set (if b then fs_FailedVoters failed else fs_FailedNonVoters failed))
    vr h vr' h' \<and> (\<forall>w. r = Inr w \<longrightarrow> w = vr')"
proof -
  let ?ids = "registry_filter vr (if b then fs_FailedVoters failed else fs_FailedNonVoters failed)"
  show ?thesis
  proof (cases "fst (adjudicateRemoval a ?ids vr h)")
    case (Inl p)
    then have "r = Inl p" "h' = h @ [CAutopilotConfig]"
      using assms(3) by (auto simp: prune_failed_def Let_def adjudicate_pair [OF Inl])
    then show ?thesis
      using step_ok_refl [OF assms(1), of "[CAutopilotConfig]"] by (auto simp: good_step_def)
  next
    case (Inr out)
    have "h' = h @ CAutopilotConfig # map CRemoveFailedServer (getFailed failed out b)"
      "r = Inr (registry_remove vr out)"
      using assms(3) by (auto simp: prune_failed_def Let_def adjudicate_pair [OF Inr])
    moreover have "step_ok q vr (CAutopilotConfig # map CRemoveFailedServer (getFailed failed out b))
        (registry_remove vr out)"
      by (rule adjudicate_step [OF assms(1) Inr assms(2)]) (auto simp: set_getFailed)
    ultimately show ?thesis
      unfolding good_step_def
      by (intro exI [of _ "registry_remove vr out"]) (auto simp: set_getFailed)
  qed
qed

text \<open>The steps together, and when they cannot panic.\<close>

abbreviation allowed_removals :: "FailedServers \<Rightarrow> call set" where
  "allowed_removals f \<equiv> rm_stale ` (set (fs_StaleNonVoters f) \<union> set (fs_StaleVoters f)) \<union>
     CRemoveFailedServer ` (set (fs_FailedNonVoters f) \<union> set (fs_FailedVoters f))"

lemma good_step_wf: "good_step q A vr h vr' h' \<Longrightarrow> reg_wf vr'"
  by (auto simp: good_step_def step_ok_def)

lemma prune_steps_good:
  assumes "reg_wf vr" "min_quorum a q"
  shows "\<exists>vr'. good_step q (allowed_removals f) vr h vr' (snd (prune_steps a f vr h))"
proof -
  let ?A = "rm_stale ` set (fs_StaleNonVoters f)" and ?B = "rm_stale ` set (fs_StaleVoters f)"
  let ?C = "CRemoveFailedServer ` set (fs_FailedNonVoters f)" and ?D = "CRemoveFailedServer ` set (fs_FailedVoters f)"
  have all: "?A \<subseteq> allowed_removals f" "?A \<union> ?B \<subseteq> allowed_removals f" "?A \<union> ?B \<union> ?C \<subseteq> allowed_removals f"
    "?A \<union> ?B \<union> ?C \<union> ?D \<subseteq> allowed_removals f" by auto
  obtain r1 h1 where 1: "prune_stale a (fs_StaleNonVoters f) vr h = (r1, h1)" by fastforce
  obtain v1 where g1: "good_step q ?A vr h v1 h1" "\<forall>w. r1 = Inr (Inr w) \<longrightarrow> w = v1"
    using prune_stale_step [OF assms 1] by blast
  obtain r2 h2 where 2: "prune_stale a (fs_StaleVoters f) v1 h1 = (r2, h2)" by fastforce
  obtain v2 where g2: "good_step q (?A \<union> ?B) vr h v2 h2" "\<forall>w. r2 = Inr (Inr w) \<longrightarrow> w = v2"
    using prune_stale_step [OF good_step_wf [OF g1(1)] assms(2) 2] good_step_trans [OF g1(1)] by blast
  obtain r3 h3 where 3: "prune_failed a f False v2 h2 = (r3, h3)" by fastforce
  obtain v3 where g3: "good_step q (?A \<union> ?B \<union> ?C) vr h v3 h3" "\<forall>w. r3 = Inr w \<longrightarrow> w = v3"
    using prune_failed_step [OF good_step_wf [OF g2(1)] assms(2) 3] good_step_trans [OF g2(1)] by (metis (full_types))
  obtain r4 h4 where 4: "prune_failed a f True v3 h3 = (r4, h4)" by fastforce
  obtain v4 where g4: "good_step q (?A \<union> ?B \<union> ?C \<union> ?D) vr h v4 h4"
    using prune_failed_step [OF good_step_wf [OF g3(1)] assms(2) 4] good_step_trans [OF g3(1)] by (metis (full_types))
  have "snd (prune_steps a f vr h) \<in> {h1, h2, h3, h4}"
    using 1 2 3 4 g1(2) g2(2) g3(2) by (auto simp: prune_steps_def split: sum.split prod.split)
  then show ?thesis
    using good_step_mono [OF g1(1) all(1)] good_step_mono [OF g2(1) all(2)]
      good_step_mono [OF g3(1) all(3)] good_step_mono [OF g4 all(4)] by auto
qed

section \<open>Properties of pruning\<close>

text \<open>A run that gets to the removals, with what it collected.\<close>

definition active_prune :: "(ServerID, raft_Server) ranger \<Rightarrow> Autopilot \<Rightarrow> hist \<Rightarrow> Config \<Rightarrow>
    FailedServers \<Rightarrow> voterRegistry \<Rightarrow> bool" where
  "active_prune rng a h conf failed vr \<longleftrightarrow>
     ReconciliationEnabled a \<and> d_AutopilotConfig (ap_delegate a) h = Some conf \<and>
     cfg_CleanupDeadServers conf \<and>
     fst (getFailedServers rng a (h @ [CAutopilotConfig])) = Inr (failed, vr)"

abbreviation known_at :: "Autopilot \<Rightarrow> hist \<Rightarrow> (ServerID, Server) gomap" where
  "known_at a h \<equiv> d_KnownServers (ap_delegate a) (h @ [CAutopilotConfig, CGetConfiguration])"

abbreviation filter_of :: "Autopilot \<Rightarrow> hist \<Rightarrow> Config \<Rightarrow> FailedServers \<Rightarrow> FailedServers option" where
  "filter_of a h conf failed \<equiv> p_FilterFailedServerRemovals (ap_promoter a)
     (h @ [CAutopilotConfig, CGetConfiguration, CKnownServers]) conf (GetState a) failed"

lemma prune_active:
  assumes "active_prune rng a h conf failed vr" "gomap_wf (known_at a h)" "go_range rng"
  shows "pruneDeadServers rng a h =
    (let h = h @ [CAutopilotConfig, CGetConfiguration, CKnownServers]
     in case p_FilterFailedServerRemovals (ap_promoter a) h conf (GetState a) failed of
          None \<Rightarrow> (Inl NilDeref, h @ [CFilterFailed conf (GetState a) failed])
        | Some f \<Rightarrow> prune_steps a f vr (h @ [CFilterFailed conf (GetState a) failed]))"
proof -
  have "getFailedServers rng a (h @ [CAutopilotConfig]) =
      (Inr (failed, vr), h @ [CAutopilotConfig, CGetConfiguration, CKnownServers])"
    using getFailedServers_result [of rng a "h @ [CAutopilotConfig]" failed vr] assms
    by (simp add: active_prune_def prod_eq_iff)
  with assms(1) show ?thesis
    by (simp add: pruneDeadServers_def active_prune_def Let_def)
qed

lemma collected_registry:
  assumes "active_prune rng a h conf failed vr" "gomap_wf (known_at a h)" "go_range rng"
  shows "reg_wf vr" "set (fs_StaleVoters failed) \<subseteq> reg_ids vr" "set (fs_StaleNonVoters failed) \<subseteq> reg_ids vr"
    "set (fs_StaleVoters failed) \<inter> set (fs_StaleNonVoters failed) = {}"
    "set (fs_StaleNonVoters failed) \<inter> (pot_set vr \<union> cur_set vr) = {}"
    "set (fs_StaleVoters failed) \<inter> pot_set vr = {}"
proof -
  let ?srvs = "conf_of a (h @ [CAutopilotConfig])"
  have g: "reg_wf vr" "map_of (eligibility vr) = registered (p_IsPotentialVoter (ap_promoter a)) ?srvs (known_at a h)"
    "set (fs_StaleVoters failed) = {i. stale_in ?srvs (known_at a h) True i}"
    "set (fs_StaleNonVoters failed) = {i. stale_in ?srvs (known_at a h) False i}"
    using getFailedServers_result [of rng a "h @ [CAutopilotConfig]" failed vr] assms
    by (simp_all add: active_prune_def)
  have reg: "i \<in> reg_ids vr \<longleftrightarrow> raft_of ?srvs i \<noteq> None" for i
    by (simp add: in_keys_iff g(2) registered_def del: not_None_eq)
  show "reg_wf vr" by (fact g(1))
  show "set (fs_StaleVoters failed) \<subseteq> reg_ids vr" "set (fs_StaleNonVoters failed) \<subseteq> reg_ids vr"
    unfolding g(3,4) by (auto simp: reg stale_in_def simp del: set_map)
  show "set (fs_StaleVoters failed) \<inter> set (fs_StaleNonVoters failed) = {}"
    unfolding g(3,4) by (auto simp: stale_in_def)
  have unknown: "map_of (known_at a h) i = None" if "stale_in ?srvs (known_at a h) b i" for b i
    using that by (auto simp: stale_in_def map_of_eq_None_iff)
  show "set (fs_StaleNonVoters failed) \<inter> (pot_set vr \<union> cur_set vr) = {}"
    unfolding g(4) pot_set_def cur_set_def g(2) registered_def
    by (auto dest: unknown) (auto simp: stale_in_def)
  show "set (fs_StaleVoters failed) \<inter> pot_set vr = {}"
    unfolding g(3) pot_set_def g(2) registered_def by (auto dest: unknown)
qed

lemma prune_run_calls:
  assumes "active_prune rng a h conf failed vr" "gomap_wf (known_at a h)" "go_range rng" "min_quorum a q"
  shows "\<exists>cs vr'. calls (pruneDeadServers rng a) h =
      [CAutopilotConfig, CGetConfiguration, CKnownServers, CFilterFailed conf (GetState a) failed] @ cs \<and>
    step_ok q vr cs vr' \<and>
    set cs \<subseteq> insert CAutopilotConfig
      (case filter_of a h conf failed of None \<Rightarrow> {} | Some f \<Rightarrow> allowed_removals f)"
proof (cases "filter_of a h conf failed")
  case None
  then show ?thesis
    using step_ok_refl [OF collected_registry(1) [OF assms(1-3)], of "[]"]
    by (auto simp: calls_def prune_active [OF assms(1-3)])
next
  case (Some f)
  let ?h = "h @ [CAutopilotConfig, CGetConfiguration, CKnownServers, CFilterFailed conf (GetState a) failed]"
  obtain vr' cs where "snd (prune_steps a f vr ?h) = ?h @ cs"
    "set cs \<subseteq> insert CAutopilotConfig (allowed_removals f)" "step_ok q vr cs vr'"
    using prune_steps_good [OF collected_registry(1) [OF assms(1-3)] assms(4), of f ?h]
    unfolding good_step_def by blast
  with Some show ?thesis
    by (intro exI [of _ cs] exI [of _ vr']) (simp add: calls_def prune_active [OF assms(1-3)])
qed

text \<open>
  C2: pruning keeps the quorum, whatever the promoter's filter returns. Over a whole run of
  \<open>pruneDeadServers\<close>, with all four of its steps, early exits and panics included, either no
  potential voter of the cluster is asked to leave, or at least MinQuorum potential voters are
  not asked to. Here MinQuorum may change between the steps: the bound is any number that no
  configuration returned by the application is below.
\<close>

theorem prune_keeps_quorum:
  assumes "active_prune rng a h conf failed vr" "gomap_wf (known_at a h)" "go_range rng" "min_quorum a q"
  shows "removed_ids (calls (pruneDeadServers rng a) h) \<inter> pot_set vr = {} \<or>
    q \<le> card (pot_set vr - removed_ids (calls (pruneDeadServers rng a) h))"
proof -
  obtain cs vr' where cs: "calls (pruneDeadServers rng a) h =
      [CAutopilotConfig, CGetConfiguration, CKnownServers, CFilterFailed conf (GetState a) failed] @ cs"
    "step_ok q vr cs vr'"
    using prune_run_calls [OF assms] by blast
  then have "removed_ids (calls (pruneDeadServers rng a) h) = removed_ids cs"
    by (simp add: removed_ids_def)
  with step_ok_quorum [OF cs(2)] show ?thesis by simp
qed

text \<open>
  An Autopilot that is disabled, not configured, or configured not to clean up asks for
  nothing but the configuration, removes nobody and reports no error; and if raft's configuration
  cannot be had, that error is reported and nobody is removed.
\<close>

theorem prune_idle:
  assumes "\<nexists>conf failed vr. active_prune rng a h conf failed vr"
  shows "removed_ids (calls (pruneDeadServers rng a) h) = {} \<and>
    fst (pruneDeadServers rng a h) =
      Inr (if ReconciliationEnabled a \<and>
             (\<exists>conf. d_AutopilotConfig (ap_delegate a) h = Some conf \<and> cfg_CleanupDeadServers conf)
           then cf_Error (r_GetConfiguration (ap_raft a) (h @ [CAutopilotConfig])) else None)"
  using assms
  by (auto simp: pruneDeadServers_def active_prune_def calls_def Let_def removed_ids_def
      getFailedServers_def getRaftConfiguration_cases split: option.splits prod.splits)

section \<open>When pruning cannot panic\<close>

lemma prune_stale_total:
  assumes "always_configured a" "set ids \<subseteq> reg_ids vr"
  shows "(\<exists>e h'. prune_stale a ids vr h = (Inr (Inl e), h')) \<or>
    (\<exists>out h'. prune_stale a ids vr h = (Inr (Inr (registry_remove vr out)), h') \<and> set out \<subseteq> set ids)"
proof -
  have "d_AutopilotConfig (ap_delegate a) h \<noteq> None" using assms(1) unfolding always_configured_def ..
  then obtain out where out: "adjudicateRemoval a ids vr h = (Inr out, h @ [CAutopilotConfig])" "set out \<subseteq> set ids"
    using assms(2) by (rule adjudicate_total)
  obtain e h' where e: "removeStaleServers a out (h @ [CAutopilotConfig]) = (e, h')" by fastforce
  show ?thesis using out e by (cases e) (auto simp: prune_stale_def)
qed

lemma prune_failed_total:
  assumes "always_configured a"
  shows "\<exists>w h'. prune_failed a f b vr h = (Inr w, h')"
proof -
  let ?ids = "registry_filter vr (if b then fs_FailedVoters f else fs_FailedNonVoters f)"
  have "d_AutopilotConfig (ap_delegate a) h \<noteq> None" using assms unfolding always_configured_def ..
  moreover have "set ?ids \<subseteq> reg_ids vr" by (auto simp: registry_filter_eq simp del: set_map)
  ultimately obtain out where "adjudicateRemoval a ?ids vr h = (Inr out, h @ [CAutopilotConfig])"
    by (rule adjudicate_total)
  then show ?thesis by (simp add: prune_failed_def Let_def)
qed

lemma prune_steps_total:
  assumes "always_configured a" "set (fs_StaleNonVoters f) \<subseteq> reg_ids vr"
    "set (fs_StaleVoters f) \<subseteq> reg_ids vr - set (fs_StaleNonVoters f)"
  shows "\<exists>r. fst (prune_steps a f vr h) = Inr r"
  using prune_stale_total [OF assms(1,2), of h]
proof (elim disjE exE conjE)
  fix e h' assume "prune_stale a (fs_StaleNonVoters f) vr h = (Inr (Inl e), h')"
  then show ?thesis by (simp add: prune_steps_def)
next
  fix out h1
  assume 1: "prune_stale a (fs_StaleNonVoters f) vr h = (Inr (Inr (registry_remove vr out)), h1)"
    and "set out \<subseteq> set (fs_StaleNonVoters f)"
  then have "set (fs_StaleVoters f) \<subseteq> reg_ids (registry_remove vr out)"
    using assms(3) unfolding reg_ids_remove by blast
  from prune_stale_total [OF assms(1) this, of h1] show ?thesis
  proof (elim disjE exE conjE)
    fix e h' assume "prune_stale a (fs_StaleVoters f) (registry_remove vr out) h1 = (Inr (Inl e), h')"
    with 1 show ?thesis by (simp add: prune_steps_def)
  next
    fix out2 h2
    assume 2: "prune_stale a (fs_StaleVoters f) (registry_remove vr out) h1 =
      (Inr (Inr (registry_remove (registry_remove vr out) out2)), h2)"
    obtain v3 h3 where 3: "prune_failed a f False (registry_remove (registry_remove vr out) out2) h2 = (Inr v3, h3)"
      using prune_failed_total [OF assms(1)] by blast
    obtain v4 h4 where 4: "prune_failed a f True v3 h3 = (Inr v4, h4)"
      using prune_failed_total [OF assms(1)] by blast
    from 1 2 3 4 show ?thesis by (simp add: prune_steps_def)
  qed
qed

context honest_filter
begin

lemma prune_total:
  assumes "ap_promoter a = p" "always_configured a" "go_range rng" "gomap_wf (known_at a h)"
  shows "\<exists>r. fst (pruneDeadServers rng a h) = Inr r"
proof (cases "\<exists>conf failed vr. active_prune rng a h conf failed vr")
  case False
  then show ?thesis
    by (auto simp: pruneDeadServers_def active_prune_def Let_def
        getFailedServers_def getRaftConfiguration_cases split: option.splits prod.splits)
next
  case True
  then obtain conf failed vr where act: "active_prune rng a h conf failed vr" by blast
  let ?h = "h @ [CAutopilotConfig, CGetConfiguration, CKnownServers]"
  obtain f where f: "p_FilterFailedServerRemovals p ?h conf (GetState a) failed = Some f"
    "set (fs_StaleNonVoters f) \<subseteq> set (fs_StaleNonVoters failed)"
    "set (fs_StaleVoters f) \<subseteq> set (fs_StaleVoters failed)"
    by (rule filter_ex)
  note reg = collected_registry [OF act assms(4,3)]
  have "\<exists>r. fst (prune_steps a f vr (?h @ [CFilterFailed conf (GetState a) failed])) = Inr r"
    by (rule prune_steps_total [OF assms(2)]) (use f(2,3) reg(2-4) in blast)+
  then show ?thesis
    using f(1) by (simp add: prune_active [OF act assms(4,3)] assms(1))
qed

lemma removals_allowed:
  assumes "active_prune rng a h conf failed vr" "gomap_wf (known_at a h)" "go_range rng"
    and "ap_promoter a = p" "c \<in> set (calls (pruneDeadServers rng a) h)"
  shows "c \<in> {CAutopilotConfig, CGetConfiguration, CKnownServers, CFilterFailed conf (GetState a) failed} \<union>
    allowed_removals failed"
proof -
  obtain f where f: "filter_of a h conf failed = Some f"
    "set (fs_StaleNonVoters f) \<subseteq> set (fs_StaleNonVoters failed)"
    "set (fs_StaleVoters f) \<subseteq> set (fs_StaleVoters failed)"
    "set (fs_FailedNonVoters f) \<subseteq> set (fs_FailedNonVoters failed)"
    "set (fs_FailedVoters f) \<subseteq> set (fs_FailedVoters failed)"
    using filter_part [of "h @ [CAutopilotConfig, CGetConfiguration, CKnownServers]" conf "GetState a" failed]
      assms(4) by auto
  then have sub: "allowed_removals f \<subseteq> allowed_removals failed" by auto
  obtain cs where cs: "calls (pruneDeadServers rng a) h =
      [CAutopilotConfig, CGetConfiguration, CKnownServers, CFilterFailed conf (GetState a) failed] @ cs"
    "set cs \<subseteq> insert CAutopilotConfig (allowed_removals f)"
    using prune_run_calls [OF assms(1-3) min_quorum_zero] f(1) by auto
  have "c \<in> {CAutopilotConfig, CGetConfiguration, CKnownServers, CFilterFailed conf (GetState a) failed} \<union> set cs"
    using assms(5) unfolding cs(1) by simp
  with subset_trans [OF cs(2) insert_mono [OF sub]] show ?thesis by blast
qed

end

text \<open>
  With the default promoter pruning never panics, as long as the application always has a
  configuration.
\<close>

theorem prune_no_panic:
  assumes "ap_promoter a = StablePromoter rng' wall since" "always_configured a" "go_range rng"
    and "gomap_wf (known_at a h)"
  shows "\<exists>r. fst (pruneDeadServers rng a h) = Inr r"
  using assms by (rule stable_filter.prune_total)

text \<open>What the default promoter lets through is what was collected, and that is dead.\<close>

lemma removals_dead:
  assumes "active_prune rng a h conf failed vr" "gomap_wf (known_at a h)" "go_range rng"
    and "ap_promoter a = StablePromoter rng' wall since"
  shows "(rm_stale i \<in> set (calls (pruneDeadServers rng a) h) \<longrightarrow>
      i \<in> rs_ID ` set (conf_of a (h @ [CAutopilotConfig])) \<and> i \<notin> set (keys (known_at a h))) \<and>
    (CRemoveFailedServer srv \<in> set (calls (pruneDeadServers rng a) h) \<longrightarrow>
      srv_NodeStatus srv \<noteq> NodeAlive \<and>
      (\<exists>j. (j, srv) \<in> set (known_at a h) \<and> j \<in> rs_ID ` set (conf_of a (h @ [CAutopilotConfig]))))"
proof -
  let ?srvs = "conf_of a (h @ [CAutopilotConfig])" and ?cs = "set (calls (pruneDeadServers rng a) h)"
  have g: "set (fs_StaleVoters failed) = {i. stale_in ?srvs (known_at a h) True i}"
    "set (fs_StaleNonVoters failed) = {i. stale_in ?srvs (known_at a h) False i}"
    "set (fs_FailedVoters failed) = snd ` set (filter (dead_in (raft_of ?srvs) True) (known_at a h))"
    "set (fs_FailedNonVoters failed) = snd ` set (filter (dead_in (raft_of ?srvs) False) (known_at a h))"
    using getFailedServers_result [of rng a "h @ [CAutopilotConfig]" failed vr] assms(1-3)
    by (simp_all add: active_prune_def)
  have "stale_in ?srvs (known_at a h) True i \<or> stale_in ?srvs (known_at a h) False i" if "rm_stale i \<in> ?cs"
    using stable_filter.removals_allowed [OF assms that] g(1,2) by auto
  moreover have "srv \<in> set (fs_FailedVoters failed) \<union> set (fs_FailedNonVoters failed)"
    if "CRemoveFailedServer srv \<in> ?cs"
    using stable_filter.removals_allowed [OF assms that] by auto
  moreover have "r \<in> rs_ID ` set ?srvs" if "raft_of ?srvs r = Some x" for r x
    using that raft_of_dom [of ?srvs r] by simp
  ultimately show ?thesis
    unfolding g(3,4) by (fastforce simp: stale_in_def dead_in_def)
qed

text \<open>
  C17: with the default promoter only dead servers are asked to leave, whatever the configurations
  that the application returns. A removal from raft is that
  of a server of the raft configuration that the application does not know; a removal that the
  application is asked to make is that of a known server which it does not report alive and
  which is in the raft configuration.
\<close>

theorem prune_targets:
  assumes "active_prune rng a h conf failed vr" "gomap_wf (known_at a h)" "go_range rng"
    and "ap_promoter a = StablePromoter rng' wall since"
  shows "(rm_stale i \<in> set (calls (pruneDeadServers rng a) h) \<longrightarrow>
      i \<in> rs_ID ` set (conf_of a (h @ [CAutopilotConfig])) \<and> i \<notin> set (keys (known_at a h))) \<and>
    (CRemoveFailedServer srv \<in> set (calls (pruneDeadServers rng a) h) \<longrightarrow>
      srv_NodeStatus srv \<noteq> NodeAlive \<and>
      (\<exists>j. (j, srv) \<in> set (known_at a h) \<and> j \<in> rs_ID ` set (conf_of a (h @ [CAutopilotConfig]))))"
  using removals_dead [OF assms] .

lemma removeStaleServers_loop_None:
  "fst (removeStaleServers_loop a ids e h) = None \<longleftrightarrow> e = None \<and>
     (\<forall>k < length ids. r_RemoveServer (ap_raft a) (h @ map rm_stale (take k ids)) (ids ! k) 0 0 = None)"
proof (induction a ids e h rule: removeStaleServers_loop.induct)
  case (2 a i ids e h)
  have all: "(\<forall>k < length (i # ids). P k) \<longleftrightarrow> P 0 \<and> (\<forall>k < length ids. P (Suc k))" for P
    by (auto simp: less_Suc_eq_0_disj)
  show ?case
    unfolding all using 2 by (auto simp: removeStaleServer_def split: option.split)
qed simp

text \<open>
  The removal of stale servers is attempted for all of them, whatever errors occur on the
  way, and an error is reported exactly when one of the attempts failed.
\<close>

theorem removeStaleServers_attempts_all:
  "calls (removeStaleServers a ids) h = map rm_stale ids \<and>
   (fst (removeStaleServers a ids h) = None \<longleftrightarrow>
     (\<forall>k < length ids. r_RemoveServer (ap_raft a) (h @ map rm_stale (take k ids)) (ids ! k) 0 0 = None))"
  by (simp add: calls_def) (simp add: removeStaleServers_def removeStaleServers_loop_None)

section \<open>The history contract\<close>

lemma prune_prefix:
  "prefix h (snd (prune_stale a ids vr h))"
  "prefix h (snd (prune_failed a f b vr h))"
proof -
  obtain x where x: "adjudicateRemoval a ids vr h = (x, h @ [CAutopilotConfig])"
    using adjudicate_pair [OF refl] by blast
  show "prefix h (snd (prune_stale a ids vr h))"
  proof (cases x)
    case (Inr out)
    obtain e where "removeStaleServers a out (h @ [CAutopilotConfig]) = (e, (h @ [CAutopilotConfig]) @ map rm_stale out)"
      by (metis prod.collapse snd_removeStaleServers)
    with x Inr show ?thesis by (simp add: prune_stale_def split: option.split)
  qed (simp add: prune_stale_def x)
  let ?ids = "registry_filter vr (if b then fs_FailedVoters f else fs_FailedNonVoters f)"
  obtain y where y: "adjudicateRemoval a ?ids vr h = (y, h @ [CAutopilotConfig])"
    using adjudicate_pair [OF refl] by blast
  then show "prefix h (snd (prune_failed a f b vr h))"
    by (cases y) (simp_all add: prune_failed_def Let_def)
qed

lemma prune_steps_prefix: "prefix h (snd (prune_steps a f vr h))"
proof -
  obtain r1 h1 where 1: "prune_stale a (fs_StaleNonVoters f) vr h = (r1, h1)" by fastforce
  have p1: "prefix h h1" using prune_prefix(1) [of h a "fs_StaleNonVoters f" vr] 1 by simp
  have p2: "prefix h (snd (case prune_stale a (fs_StaleVoters f) v h1 of
        (Inl p, h) \<Rightarrow> (Inl p, h)
      | (Inr (Inl err), h) \<Rightarrow> (Inr (Some err), h)
      | (Inr (Inr vr), h) \<Rightarrow>
     (case prune_failed a f False vr h of
        (Inl p, h) \<Rightarrow> (Inl p, h)
      | (Inr vr, h) \<Rightarrow>
     (case prune_failed a f True vr h of
        (Inl p, h) \<Rightarrow> (Inl p, h)
      | (Inr vr, h) \<Rightarrow> (Inr None, h)))))" for v
  proof -
    obtain r2 h2 where 2: "prune_stale a (fs_StaleVoters f) v h1 = (r2, h2)" by fastforce
    have p2: "prefix h h2"
      using prune_prefix(1) [of h1 a "fs_StaleVoters f" v] 2 p1 prefix_order.trans by fastforce
    have p3: "prefix h (snd (prune_failed a f b w h2))" for b w
      using prune_prefix(2) [of h2 a f b w] p2 prefix_order.trans by blast
    have p4: "prefix h (snd (prune_failed a f True x h3))" if "prune_failed a f False w h2 = (y, h3)" for w x y h3
      using p3 [of False w] prune_prefix(2) [of h3 a f True x] that prefix_order.trans by fastforce
    show ?thesis
      using p2 p3 p4 by (auto simp: 2 split: prod.split sum.split) (metis snd_conv)+
  qed
  show ?thesis
    using p1 p2 by (simp add: prune_steps_def 1 split: sum.split)
qed

interpretation prunes: logged "pruneDeadServers rng a" for rng a
proof
  fix h
  show "prefix h (snd (pruneDeadServers rng a h))"
    using collects.extends [of "h @ [CAutopilotConfig]" rng a] prune_steps_prefix
    by (auto simp: pruneDeadServers_def Let_def split: option.split prod.split sum.split)
      (metis append_prefixD prefix_order.trans snd_conv)+
qed

section \<open>Witnesses\<close>

lemma sample_active_prune: "active_prune rev sample_prune [] sample_conf sample_failed sample_eligibility"
  by (simp add: active_prune_def sample_collected)
    (simp add: sample_prune_defs ReconciliationEnabled_def sample_conf_def)

lemma sample_known_wf: "gomap_wf (known_at sample_prune [])"
  by (simp add: sample_prune_defs)

theorem prune_keeps_quorum_witness:
  "removed_ids (calls (pruneDeadServers rev sample_prune) []) \<inter> pot_set sample_eligibility = {} \<or>
   3 \<le> card (pot_set sample_eligibility - removed_ids (calls (pruneDeadServers rev sample_prune) []))"
  by (rule prune_keeps_quorum [OF sample_active_prune sample_known_wf go_range_rev sample_configured(1)])

theorem prune_idle_witness:
  "removed_ids (calls (pruneDeadServers rev (DisableReconciliation sample_prune)) []) = {}"
  using prune_idle [of rev "DisableReconciliation sample_prune" "[]"]
  by (simp add: active_prune_def)

theorem prune_no_panic_witness:
  "\<exists>r. fst (pruneDeadServers rev sample_prune []) = Inr r"
proof -
  have "ap_promoter sample_prune = StablePromoter rev (\<lambda>_. 0) (\<lambda>_. 0)" by (simp add: sample_prune_def)
  then show ?thesis by (rule prune_no_panic [OF _ sample_configured(2) go_range_rev sample_known_wf])
qed

theorem prune_targets_witness:
  "rm_stale ''a'' \<notin> set (calls (pruneDeadServers rev sample_prune) []) \<and>
   CRemoveFailedServer (sample_server ''a'' ''x'' NodeAlive) \<notin> set (calls (pruneDeadServers rev sample_prune) [])"
proof -
  have "ap_promoter sample_prune = StablePromoter rev (\<lambda>_. 0) (\<lambda>_. 0)" by (simp add: sample_prune_def)
  note t = prune_targets [OF sample_active_prune sample_known_wf go_range_rev this]
  from t [of "''a''" "sample_server ''a'' ''x'' NodeAlive"] show ?thesis
    by (auto simp: sample_prune_defs)
qed

theorem removeStaleServers_attempts_all_witness:
  "calls (removeStaleServers sample_prune [''e'', ''f'']) [] = [rm_stale ''e'', rm_stale ''f''] \<and>
   fst (removeStaleServers sample_prune [''e'', ''f''] []) = None"
  using removeStaleServers_attempts_all [of sample_prune "[''e'', ''f'']" "[]"]
  by (simp add: sample_prune_def sample_env_defs)

end
