(* ===== verification/AP_Run.thy ===== *)
theory AP_Run
  imports AP_Gather AP_Reconcile AP_Prune
begin

text \<open>
  The background routines (run.go, mutex.go and \<open>execInfo\<close> of autopilot.go) as a transition
  system. A state holds the Autopilot, every execution that \<open>Start\<close> has created, the pointer
  \<open>a.execution\<close>, and who holds which lock. A step is what one goroutine does between two points
  where another one can come in: the critical sections of \<open>execLock\<close> in \<open>Stop\<close>, \<open>IsRunning\<close> and
  \<open>finishExecution\<close> contain no blocking call and are one step each; \<open>Start\<close> holds that lock over
  several steps, during which \<open>ct_start\<close> is not \<open>SIdle\<close>. The timeout context of \<open>Start\<close> can be
  done at any time. \<open>updateState\<close> is two steps, since it reads the state at its beginning and
  stores the next one at its end, under \<open>stateLock\<close>. A panic ends the process once the deferred
  calls of its goroutine have run: \<open>ct_panic\<close> records the end, and no step follows. Only the main
  goroutine of an execution has deferred calls that wait for something, so that others go on
  meanwhile: it goes through its whole cleanup as a panicking execution (\<open>ex_panicking\<close>) before
  it ends the process. A panic anywhere else ends the process in the same step.
\<close>

section \<open>Executions\<close>

datatype ExecutionStatus = NotRunning | Running | ShuttingDown

text \<open>The order in which an execution goes through its statuses.\<close>

fun stage :: "ExecutionStatus \<Rightarrow> nat" where
  "stage Running = 0"
| "stage ShuttingDown = 1"
| "stage NotRunning = 2"

instantiation ExecutionStatus :: linorder
begin

definition less_eq_ExecutionStatus :: "ExecutionStatus \<Rightarrow> ExecutionStatus \<Rightarrow> bool" where
  "x \<le> y \<longleftrightarrow> stage x \<le> stage y"

definition less_ExecutionStatus :: "ExecutionStatus \<Rightarrow> ExecutionStatus \<Rightarrow> bool" where
  "x < y \<longleftrightarrow> stage x < stage y"

instance
proof
  fix x y :: ExecutionStatus
  show "x \<le> y \<Longrightarrow> y \<le> x \<Longrightarrow> x = y" by (cases x; cases y) (simp_all add: less_eq_ExecutionStatus_def)
qed (auto simp: less_eq_ExecutionStatus_def less_ExecutionStatus_def)

end

text \<open>
  \<open>ex_shutdown\<close> and \<open>ex_done\<close> say that the field is not nil, \<open>ex_closed\<close> that the channel which
  \<open>Start\<close> made for \<open>done\<close> is closed.
\<close>

record execInfo =
  ex_status :: ExecutionStatus
  ex_shutdown :: bool
  ex_done :: bool
  ex_closed :: bool

text \<open>
  Program points of \<open>beginExecution\<close>: before \<open>TryLock\<close>; after its failure; with the lock, before
  the child is started; in the loop, before the \<open>select\<close> and before the call to
  \<open>pruneDeadServers\<close>; in the deferred cleanup, where it waits for the child, waits
  for \<open>stateLock\<close>, resets the state, finishes the execution, and gives back \<open>leaderLock\<close> and then
  \<open>stateLock\<close>; at the end.
\<close>

datatype main_pc = BTryLock | BFailed | BLocked | BLoop | BPrune | BAwaitChild | BAwaitState | BReset
  | BFinish | BUnlock | BRelease | BEnd

text \<open>
  Program points of \<open>runStateUpdater\<close>: not started, before it makes its ticker, in its loop, about
  to store a new state, at the end. \<open>UStore cur new\<close> keeps the local variables of \<open>updateState\<close>: the state that was read, and
  the one computed from it.
\<close>

datatype child_pc = UNone | UTicker | ULoop | UStore "State option" State | UEnd

text \<open>
  An execution with its context (cancelled or not) and its two goroutines; \<open>ex_panicking\<close> says that
  its main goroutine has panicked.
\<close>

record execution = execInfo +
  ex_cancelled :: bool
  ex_main :: main_pc
  ex_child :: child_pc
  ex_panicking :: bool

text \<open>Closing a nil channel panics, as calling a nil function does.\<close>

definition finishExecution :: "execution \<Rightarrow> go_panic + execution" where
  "finishExecution e =
     (if \<not> ex_done e then Inl NilDeref
      else Inr (e\<lparr>ex_shutdown := False, ex_status := NotRunning, ex_closed := True, ex_done := False\<rparr>))"

section \<open>The state of the system\<close>

datatype owner = Starter | Exec nat

text \<open>
  \<open>leaderLock\<close> is a mutex of mutex.go, a weighted semaphore of size one, here with its holder.
  \<open>TryLock m finished who ok m'\<close> says that a call for a context that is done or not can return
  with success or failure and leave the mutex as \<open>m'\<close>: it succeeds only on a free mutex, and it
  fails, leaving the mutex unchanged, only when its context is done; it may then also succeed. In
  all other cases it blocks. \<open>Lock\<close> is \<open>TryLock\<close> with a context that is never done. Releasing a
  free semaphore panics (\<open>None\<close>).
\<close>

type_synonym mutex = "owner option"

definition newMutex :: mutex where
  [simp]: "newMutex = None"

inductive TryLock :: "mutex \<Rightarrow> bool \<Rightarrow> owner \<Rightarrow> bool \<Rightarrow> mutex \<Rightarrow> bool" where
  acquired: "TryLock None finished who True (Some who)"
| cancelled: "TryLock m True who False m"

inductive_simps TryLock_acquired [simp]: "TryLock m finished who True m'"
inductive_simps TryLock_cancelled [simp]: "TryLock m finished who False m'"

definition Lock :: "mutex \<Rightarrow> owner \<Rightarrow> mutex \<Rightarrow> bool" where
  "Lock m who m' \<longleftrightarrow> TryLock m False who True m'"

definition Unlock :: "mutex \<Rightarrow> mutex option" where
  "Unlock m = (case m of None \<Rightarrow> None | Some _ \<Rightarrow> Some None)"

lemma Unlock_case [simp]:
  "(case Unlock m of None \<Rightarrow> x | Some m' \<Rightarrow> f m') = (if m = None then x else f None)"
  by (simp add: Unlock_def split: option.split)

text \<open>Program points of \<open>Start\<close>, from taking \<open>execLock\<close> to giving it back.\<close>

datatype start_pc = SIdle | STryLock | SUpdate | SStore "State option" State | SUnlock | SLaunch

record ctl =
  ct_ap :: Autopilot
  ct_execs :: "execution list"
  ct_execution :: "nat option"
  ct_start :: start_pc
  ct_leader :: mutex
  ct_stateLock :: "nat option"
  ct_panic :: bool

definition current_status :: "ctl \<Rightarrow> ExecutionStatus option" where
  "current_status s = map_option (\<lambda>k. ex_status (ct_execs s ! k)) (ct_execution s)"

definition initial :: "Autopilot \<Rightarrow> ctl" where
  "initial a = \<lparr>ct_ap = a, ct_execs = [], ct_execution = None, ct_start = SIdle,
     ct_leader = newMutex, ct_stateLock = None, ct_panic = False\<rparr>"

abbreviation set_exec :: "nat \<Rightarrow> execution \<Rightarrow> ctl \<Rightarrow> ctl" where
  "set_exec i e s \<equiv> s\<lparr>ct_execs := (ct_execs s)[i := e]\<rparr>"

text \<open>The beginning of \<open>Start\<close>: nothing to do, try to update the state first, or launch at once.\<close>

definition start_entry :: "ctl \<Rightarrow> start_pc" where
  "start_entry s =
     (if current_status s = Some Running then SIdle
      else if current_status s = None \<or> current_status s = Some NotRunning then STryLock
      else SLaunch)"

definition new_execution :: execution where
  "new_execution = \<lparr>ex_status = Running, ex_shutdown = True, ex_done = True, ex_closed = False,
     ex_cancelled = False, ex_main = BTryLock, ex_child = UNone, ex_panicking = False\<rparr>"

definition launch :: "ctl \<Rightarrow> ctl" where
  "launch s = s\<lparr>ct_execs := ct_execs s @ [new_execution], ct_execution := Some (length (ct_execs s)),
     ct_start := SIdle\<rparr>"

definition Stop :: "ctl \<Rightarrow> ctl" where
  "Stop s =
     (case ct_execution s of
        None \<Rightarrow> s
      | Some k \<Rightarrow>
          let e = ct_execs s ! k
          in if ex_status e = NotRunning then s
             else if \<not> ex_shutdown e then s\<lparr>ct_panic := True\<rparr>
             else set_exec k (e\<lparr>ex_cancelled := True, ex_status := ShuttingDown\<rparr>) s)"

text \<open>
  \<open>IsRunning\<close>: the status, and which channel it returns, that of an execution or (\<open>None\<close>) a new
  one that is closed already.
\<close>

definition IsRunning :: "ctl \<Rightarrow> ExecutionStatus \<times> nat option" where
  "IsRunning s =
     (case ct_execution s of
        None \<Rightarrow> (NotRunning, None)
      | Some k \<Rightarrow>
          if ex_status (ct_execs s ! k) = NotRunning then (NotRunning, None)
          else (ex_status (ct_execs s ! k), Some k))"

text \<open>\<open>finishExecution\<close> on the execution at index \<open>i\<close>, going on at \<open>pc\<close>.\<close>

definition finish_at :: "nat \<Rightarrow> main_pc \<Rightarrow> ctl \<Rightarrow> ctl" where
  "finish_at i pc s =
     (case finishExecution (ct_execs s ! i) of
        Inl _ \<Rightarrow> s\<lparr>ct_panic := True\<rparr>
      | Inr e \<Rightarrow> set_exec i (e\<lparr>ex_main := pc\<rparr>) s)"

section \<open>Steps\<close>

text \<open>
  Calls from outside may happen at any time: \<open>StartCall\<close>, \<open>StopCall\<close>, \<open>RemoveDeadCall\<close>,
  \<open>AddServerCall\<close>, switching reconciliation on or off, and the end of a context given to \<open>Start\<close>.
  All other actions are steps of the goroutines. The two steps of \<open>updateState\<close> compute the next
  state with any history of calls, any order of enumeration and any documented context, and,
  unless that gave an error, store it; for both \<open>stateLock\<close> must be free. A round of the loop is
  two steps, \<open>reconcile\<close> (or taking the token of \<open>removeDeadCh\<close>) and \<open>pruneDeadServers\<close>.
\<close>

text \<open>
  \<open>Spawns\<close> starts the child and makes the ticker of the reconcile loop, after the cleanup has been
  deferred; \<open>ChildTicks\<close> makes the ticker of the child. \<open>time.NewTicker\<close> panics for an interval that
  is not positive.
\<close>

definition NewTicker :: "Duration \<Rightarrow> bool" where
  "NewTicker d \<longleftrightarrow> 0 < d"

text \<open>
  \<open>GetState\<close> waits for \<open>stateLock\<close>. \<open>updateState\<close> always begins with it, \<open>reconcile\<close> and
  \<open>pruneDeadServers\<close> call it unless they return before.
\<close>

definition reconcile_reads :: "Autopilot \<Rightarrow> hist \<Rightarrow> bool" where
  "reconcile_reads a h \<longleftrightarrow> ReconciliationEnabled a \<and> d_AutopilotConfig (ap_delegate a) h \<noteq> None"

definition prune_reads :: "Autopilot \<Rightarrow> hist \<Rightarrow> bool" where
  "prune_reads a h \<longleftrightarrow> ReconciliationEnabled a \<and>
     (case d_AutopilotConfig (ap_delegate a) h of None \<Rightarrow> False | Some conf \<Rightarrow> cfg_CleanupDeadServers conf)"

datatype action = StartCall | StopCall | RemoveDeadCall | AddServerCall | SwitchCall bool | ContextEnds nat
  | StartLocks | StartGivesUp | StartComputes | StartStores | StartUnlocks | StartLaunches
  | Locks nat | GivesUp nat | Spawns nat | Reconciles nat | TakesToken nat | Prunes nat | LoopEnds nat
  | ChildTicks nat | ChildComputes nat | ChildStores nat | ChildEnds nat
  | ChildAwaited nat | StateLocks nat | Resets nat | Finishes nat | Unlocks nat | Releases nat
  | FinishesFailed nat | Crashes nat

inductive step :: "ctl \<Rightarrow> action \<Rightarrow> ctl \<Rightarrow> bool" where
  StartCall: "ct_start s = SIdle \<Longrightarrow> step s StartCall (s\<lparr>ct_start := start_entry s\<rparr>)"
| StopCall: "ct_start s = SIdle \<Longrightarrow> step s StopCall (Stop s)"
| RemoveDeadCall: "step s RemoveDeadCall (s\<lparr>ct_ap := RemoveDeadServers (ct_ap s)\<rparr>)"
| AddServerCall: "fst (AddServer (ct_ap s) srv h) = (err, a) \<Longrightarrow>
    step s AddServerCall (s\<lparr>ct_ap := a\<rparr>)"
| SwitchCall: "step s (SwitchCall b)
    (s\<lparr>ct_ap := (if b then EnableReconciliation (ct_ap s) else DisableReconciliation (ct_ap s))\<rparr>)"
| ContextEnds: "i < length (ct_execs s) \<Longrightarrow>
    step s (ContextEnds i) (set_exec i ((ct_execs s ! i)\<lparr>ex_cancelled := True\<rparr>) s)"
| StartLocks: "ct_start s = STryLock \<Longrightarrow> TryLock (ct_leader s) finished Starter True m \<Longrightarrow>
    step s StartLocks (s\<lparr>ct_leader := m, ct_start := SUpdate\<rparr>)"
| StartGivesUp: "ct_start s = STryLock \<Longrightarrow> TryLock (ct_leader s) True Starter False m \<Longrightarrow>
    step s StartGivesUp (s\<lparr>ct_leader := m, ct_start := SLaunch\<rparr>)"
| StartComputes: "ct_start s = SUpdate \<Longrightarrow> ct_stateLock s = None \<Longrightarrow> go_range rng \<Longrightarrow> sticky_context ctx \<Longrightarrow>
    fst (nextState rng ctx (ct_ap s) (ap_state (ct_ap s)) h) = r \<Longrightarrow>
    step s StartComputes (case r of
        Inl p \<Rightarrow> s\<lparr>ct_panic := True\<rparr>
      | Inr (Inl err) \<Rightarrow> s\<lparr>ct_start := SUnlock\<rparr>
      | Inr (Inr new) \<Rightarrow> s\<lparr>ct_start := SStore (GetState (ct_ap s)) new\<rparr>)"
| StartStores: "ct_start s = SStore cur new \<Longrightarrow> ct_stateLock s = None \<Longrightarrow>
    step s StartStores (s\<lparr>ct_ap := (ct_ap s)\<lparr>ap_state := Some new\<rparr>, ct_start := SUnlock\<rparr>)"
| StartUnlocks: "ct_start s = SUnlock \<Longrightarrow>
    step s StartUnlocks (case Unlock (ct_leader s) of
                           None \<Rightarrow> s\<lparr>ct_panic := True\<rparr>
                         | Some m \<Rightarrow> s\<lparr>ct_leader := m, ct_start := SLaunch\<rparr>)"
| StartLaunches: "ct_start s = SLaunch \<Longrightarrow> step s StartLaunches (launch s)"
| Locks: "i < length (ct_execs s) \<Longrightarrow> ex_main (ct_execs s ! i) = BTryLock \<Longrightarrow>
    TryLock (ct_leader s) (ex_cancelled (ct_execs s ! i)) (Exec i) True m \<Longrightarrow>
    step s (Locks i) (set_exec i ((ct_execs s ! i)\<lparr>ex_main := BLocked\<rparr>) s\<lparr>ct_leader := m\<rparr>)"
| GivesUp: "i < length (ct_execs s) \<Longrightarrow> ex_main (ct_execs s ! i) = BTryLock \<Longrightarrow>
    TryLock (ct_leader s) (ex_cancelled (ct_execs s ! i)) (Exec i) False m \<Longrightarrow>
    step s (GivesUp i) (set_exec i ((ct_execs s ! i)\<lparr>ex_main := BFailed\<rparr>) s\<lparr>ct_leader := m\<rparr>)"
| Spawns: "i < length (ct_execs s) \<Longrightarrow> ex_main (ct_execs s ! i) = BLocked \<Longrightarrow>
    step s (Spawns i) (set_exec i (if NewTicker (ap_reconcileInterval (ct_ap s))
      then (ct_execs s ! i)\<lparr>ex_main := BLoop, ex_child := UTicker\<rparr>
      else (ct_execs s ! i)\<lparr>ex_main := BAwaitChild, ex_child := UTicker, ex_panicking := True\<rparr>) s)"
| Reconciles: "i < length (ct_execs s) \<Longrightarrow> ex_main (ct_execs s ! i) = BLoop \<Longrightarrow>
    reconcile_reads (ct_ap s) h \<longrightarrow> ct_stateLock s = None \<Longrightarrow> fst (reconcile (ct_ap s) h) = err \<Longrightarrow>
    step s (Reconciles i) (set_exec i ((ct_execs s ! i)\<lparr>ex_main := BPrune\<rparr>) s)"
| TakesToken: "i < length (ct_execs s) \<Longrightarrow> ex_main (ct_execs s ! i) = BLoop \<Longrightarrow>
    0 < ap_removeDeadCh (ct_ap s) \<Longrightarrow>
    step s (TakesToken i) (set_exec i ((ct_execs s ! i)\<lparr>ex_main := BPrune\<rparr>) s
      \<lparr>ct_ap := (ct_ap s)\<lparr>ap_removeDeadCh := ap_removeDeadCh (ct_ap s) - 1\<rparr>\<rparr>)"
| Prunes: "i < length (ct_execs s) \<Longrightarrow> ex_main (ct_execs s ! i) = BPrune \<Longrightarrow>
    prune_reads (ct_ap s) h \<longrightarrow> ct_stateLock s = None \<Longrightarrow> go_range rng \<Longrightarrow>
    fst (pruneDeadServers rng (ct_ap s) h) = r \<Longrightarrow>
    step s (Prunes i) (set_exec i (case r of
        Inl p \<Rightarrow> (ct_execs s ! i)\<lparr>ex_main := BAwaitChild, ex_panicking := True\<rparr>
      | Inr err \<Rightarrow> (ct_execs s ! i)\<lparr>ex_main := BLoop\<rparr>) s)"
| LoopEnds: "i < length (ct_execs s) \<Longrightarrow> ex_main (ct_execs s ! i) = BLoop \<Longrightarrow>
    ex_cancelled (ct_execs s ! i) \<Longrightarrow>
    step s (LoopEnds i) (set_exec i ((ct_execs s ! i)\<lparr>ex_main := BAwaitChild\<rparr>) s)"
| ChildTicks: "i < length (ct_execs s) \<Longrightarrow> ex_child (ct_execs s ! i) = UTicker \<Longrightarrow>
    step s (ChildTicks i) (if NewTicker (ap_updateInterval (ct_ap s))
      then set_exec i ((ct_execs s ! i)\<lparr>ex_child := ULoop\<rparr>) s
      else s\<lparr>ct_panic := True\<rparr>)"
| ChildComputes: "i < length (ct_execs s) \<Longrightarrow> ex_child (ct_execs s ! i) = ULoop \<Longrightarrow>
    ct_stateLock s = None \<Longrightarrow> go_range rng \<Longrightarrow> sticky_context ctx \<Longrightarrow>
    fst (nextState rng ctx (ct_ap s) (ap_state (ct_ap s)) h) = r \<Longrightarrow>
    step s (ChildComputes i) (case r of
        Inl p \<Rightarrow> s\<lparr>ct_panic := True\<rparr>
      | Inr (Inl err) \<Rightarrow> s
      | Inr (Inr new) \<Rightarrow> set_exec i ((ct_execs s ! i)\<lparr>ex_child := UStore (GetState (ct_ap s)) new\<rparr>) s)"
| ChildStores: "i < length (ct_execs s) \<Longrightarrow> ex_child (ct_execs s ! i) = UStore cur new \<Longrightarrow>
    ct_stateLock s = None \<Longrightarrow>
    step s (ChildStores i) (set_exec i ((ct_execs s ! i)\<lparr>ex_child := ULoop\<rparr>) s
      \<lparr>ct_ap := (ct_ap s)\<lparr>ap_state := Some new\<rparr>\<rparr>)"
| ChildEnds: "i < length (ct_execs s) \<Longrightarrow> ex_child (ct_execs s ! i) = ULoop \<Longrightarrow>
    ex_cancelled (ct_execs s ! i) \<Longrightarrow>
    step s (ChildEnds i) (set_exec i ((ct_execs s ! i)\<lparr>ex_child := UEnd\<rparr>) s)"
| ChildAwaited: "i < length (ct_execs s) \<Longrightarrow> ex_main (ct_execs s ! i) = BAwaitChild \<Longrightarrow>
    ex_child (ct_execs s ! i) = UEnd \<Longrightarrow>
    step s (ChildAwaited i) (set_exec i ((ct_execs s ! i)\<lparr>ex_main := BAwaitState\<rparr>) s)"
| StateLocks: "i < length (ct_execs s) \<Longrightarrow> ex_main (ct_execs s ! i) = BAwaitState \<Longrightarrow>
    ct_stateLock s = None \<Longrightarrow>
    step s (StateLocks i) (set_exec i ((ct_execs s ! i)\<lparr>ex_main := BReset\<rparr>) s\<lparr>ct_stateLock := Some i\<rparr>)"
| Resets: "i < length (ct_execs s) \<Longrightarrow> ex_main (ct_execs s ! i) = BReset \<Longrightarrow>
    step s (Resets i) (set_exec i ((ct_execs s ! i)\<lparr>ex_main := BFinish\<rparr>) s
      \<lparr>ct_ap := (ct_ap s)\<lparr>ap_state := Some zero_State\<rparr>\<rparr>)"
| Finishes: "i < length (ct_execs s) \<Longrightarrow> ex_main (ct_execs s ! i) = BFinish \<Longrightarrow> ct_start s = SIdle \<Longrightarrow>
    step s (Finishes i) (finish_at i BUnlock s)"
| Unlocks: "i < length (ct_execs s) \<Longrightarrow> ex_main (ct_execs s ! i) = BUnlock \<Longrightarrow>
    step s (Unlocks i) (case Unlock (ct_leader s) of
        None \<Rightarrow> s\<lparr>ct_panic := True\<rparr>
      | Some m \<Rightarrow> set_exec i ((ct_execs s ! i)\<lparr>ex_main := BRelease\<rparr>) s\<lparr>ct_leader := m\<rparr>)"
| Releases: "i < length (ct_execs s) \<Longrightarrow> ex_main (ct_execs s ! i) = BRelease \<Longrightarrow>
    step s (Releases i) (set_exec i ((ct_execs s ! i)\<lparr>ex_main := BEnd\<rparr>) s\<lparr>ct_stateLock := None\<rparr>)"
| FinishesFailed: "i < length (ct_execs s) \<Longrightarrow> ex_main (ct_execs s ! i) = BFailed \<Longrightarrow> ct_start s = SIdle \<Longrightarrow>
    step s (FinishesFailed i) (finish_at i BEnd s)"
| Crashes: "i < length (ct_execs s) \<Longrightarrow> ex_main (ct_execs s ! i) = BEnd \<Longrightarrow>
    ex_panicking (ct_execs s ! i) \<Longrightarrow> step s (Crashes i) (s\<lparr>ct_panic := True\<rparr>)"

inductive reachable :: "Autopilot \<Rightarrow> ctl \<Rightarrow> bool" for a where
  init: "reachable a (initial a)"
| step: "reachable a s \<Longrightarrow> step s act s' \<Longrightarrow> \<not> ct_panic s \<Longrightarrow> reachable a s'"

text \<open>The process has ended in a panic, or is about to.\<close>

definition panicked :: "ctl \<Rightarrow> bool" where
  "panicked s \<longleftrightarrow> ct_panic s \<or> list_ex ex_panicking (ct_execs s)"

text \<open>Inversion for single actions, and when an action is possible at all.\<close>

inductive_cases StartStoresE: "step s StartStores s'"
inductive_cases ChildStoresE: "step s (ChildStores i) s'"
inductive_simps Locks_iff: "step s (Locks i) s'"
inductive_simps GivesUp_iff: "step s (GivesUp i) s'"

end
