(* ===== verification/AP_RunInv.thy ===== *)
theory AP_RunInv
  imports AP_Run
begin

text \<open>
  Invariants of the transition system: what an execution looks like at each program point, who
  holds which lock, which execution is the current one, when the state has been reset, and that
  nobody changes the state between the two steps of an update.
\<close>

section \<open>Invariants\<close>

text \<open>The program points at which the two locks are held.\<close>

definition leads :: "main_pc \<Rightarrow> bool" where
  "leads pc \<longleftrightarrow> pc \<in> {BLocked, BLoop, BPrune, BAwaitChild, BAwaitState, BReset, BFinish, BUnlock}"

definition owns_state :: "main_pc \<Rightarrow> bool" where
  "owns_state pc \<longleftrightarrow> pc \<in> {BReset, BFinish, BUnlock, BRelease}"

definition finished :: "main_pc \<Rightarrow> bool" where
  "finished pc \<longleftrightarrow> pc \<in> {BUnlock, BRelease, BEnd}"

definition start_leads :: "start_pc \<Rightarrow> bool" where
  "start_leads pc \<longleftrightarrow> pc \<notin> {SIdle, STryLock, SLaunch}"

definition working :: "child_pc \<Rightarrow> bool" where
  "working c \<longleftrightarrow> c \<noteq> UNone \<and> c \<noteq> UEnd"

lemma pc_simps [simp]:
  "start_leads SUpdate" "start_leads SUnlock" "start_leads (SStore cur new)"
  "\<not> start_leads SIdle" "\<not> start_leads STryLock" "\<not> start_leads SLaunch"
  "working UTicker" "working ULoop" "working (UStore cur new)" "\<not> working UNone" "\<not> working UEnd"
  by (simp_all add: start_leads_def working_def)

text \<open>What one execution looks like at each of its program points.\<close>

definition exec_ok :: "execution \<Rightarrow> bool" where
  "exec_ok e \<longleftrightarrow>
     (if finished (ex_main e) then \<not> ex_done e \<and> ex_closed e \<and> \<not> ex_shutdown e \<and> ex_status e = NotRunning
      else ex_done e \<and> \<not> ex_closed e \<and> ex_shutdown e \<and> ex_status e \<noteq> NotRunning) \<and>
     (ex_child e = UNone \<longrightarrow> ex_main e \<in> {BTryLock, BFailed, BLocked, BEnd}) \<and>
     (ex_main e \<in> {BTryLock, BFailed, BLocked} \<longrightarrow> ex_child e = UNone) \<and>
     (working (ex_child e) \<longrightarrow> ex_main e \<in> {BLoop, BPrune, BAwaitChild}) \<and>
     (ex_status e = ShuttingDown \<longrightarrow> ex_cancelled e) \<and>
     (ex_main e = BFailed \<longrightarrow> ex_cancelled e) \<and>
     (ex_main e \<in> {BAwaitChild, BAwaitState, BReset, BFinish} \<longrightarrow> ex_cancelled e \<or> ex_panicking e) \<and>
     (ex_panicking e \<longrightarrow> ex_main e \<notin> {BTryLock, BFailed, BLocked, BLoop, BPrune})"

definition locks_ok :: "ctl \<Rightarrow> bool" where
  "locks_ok s \<longleftrightarrow>
     (\<forall>i < length (ct_execs s). leads (ex_main (ct_execs s ! i)) = (ct_leader s = Some (Exec i))) \<and>
     (\<forall>i < length (ct_execs s). owns_state (ex_main (ct_execs s ! i)) = (ct_stateLock s = Some i)) \<and>
     start_leads (ct_start s) = (ct_leader s = Some Starter) \<and>
     (\<forall>i. ct_leader s = Some (Exec i) \<longrightarrow> i < length (ct_execs s)) \<and>
     (\<forall>i. ct_stateLock s = Some i \<longrightarrow> i < length (ct_execs s))"

definition current_ok :: "ctl \<Rightarrow> bool" where
  "current_ok s \<longleftrightarrow>
     ct_execution s = (if ct_execs s = [] then None else Some (length (ct_execs s) - 1)) \<and>
     (\<forall>i < length (ct_execs s). ex_status (ct_execs s ! i) = Running \<longrightarrow>
        ct_start s = SIdle \<and> Suc i = length (ct_execs s))"

text \<open>An Autopilot with a state, as every one that \<open>New\<close> builds.\<close>

definition has_state :: "Autopilot \<Rightarrow> bool" where
  "has_state a \<longleftrightarrow> ap_state a \<noteq> None"

lemma has_state_simps [simp]:
  "has_state (a\<lparr>ap_state := Some new\<rparr>)" "has_state (a\<lparr>ap_removeDeadCh := n\<rparr>) = has_state a"
  "has_state (RemoveDeadServers a) = has_state a" "has_state (EnableReconciliation a) = has_state a"
  "has_state (DisableReconciliation a) = has_state a"
  by (simp_all add: has_state_def RemoveDeadServers_def EnableReconciliation_def DisableReconciliation_def)

definition state_ok :: "ctl \<Rightarrow> bool" where
  "state_ok s \<longleftrightarrow> has_state (ct_ap s) \<and>
     (\<forall>i < length (ct_execs s). ex_main (ct_execs s ! i) \<in> {BFinish, BUnlock, BRelease} \<longrightarrow>
        ap_state (ct_ap s) = Some zero_State)"

text \<open>Between the two steps of an update nobody else changes the state.\<close>

definition update_ok :: "ctl \<Rightarrow> bool" where
  "update_ok s \<longleftrightarrow>
     (\<forall>cur new. ct_start s = SStore cur new \<longrightarrow> ap_state (ct_ap s) = cur) \<and>
     (\<forall>i < length (ct_execs s). \<forall>cur new. ex_child (ct_execs s ! i) = UStore cur new \<longrightarrow>
        ap_state (ct_ap s) = cur)"

definition ctl_inv :: "ctl \<Rightarrow> bool" where
  "ctl_inv s \<longleftrightarrow> (\<forall>i < length (ct_execs s). exec_ok (ct_execs s ! i)) \<and>
     locks_ok s \<and> current_ok s \<and> state_ok s \<and> update_ok s"

text \<open>Both steps of an update together are \<open>updateState\<close>.\<close>

lemma updateState_steps:
  "fst (updateState rng ctx a reread h) =
     (case fst (nextState rng ctx a reread h) of
        Inl p \<Rightarrow> Inl p
      | Inr (Inl err) \<Rightarrow> Inr a
      | Inr (Inr new) \<Rightarrow> Inr (a\<lparr>ap_state := Some new\<rparr>))"
  by (simp add: updateState_def split: prod.split sum.split)

lemma option_simps [simp]:
  "ap_state (RemoveDeadServers a) = ap_state a" "ap_state (EnableReconciliation a) = ap_state a"
  "ap_state (DisableReconciliation a) = ap_state a"
  by (simp_all add: RemoveDeadServers_def EnableReconciliation_def DisableReconciliation_def)

text \<open>All that \<open>AddServer\<close> can do to the Autopilot itself is to leave a token for the pruning.\<close>

lemma AddServer_state:
  assumes "fst (AddServer a srv h) = (err, a')"
  obtains "a' = a" | "a' = RemoveDeadServers a"
  using assms unfolding AddServer_def Let_def
  by (auto split: prod.splits sum.splits option.splits if_splits)

lemmas ctl_defs = Stop_def finish_at_def finishExecution_def launch_def new_execution_def
  start_entry_def current_status_def Let_def

lemma current_index: "current_ok s \<Longrightarrow> ct_execution s = Some k \<Longrightarrow> k < length (ct_execs s)"
  by (auto simp: current_ok_def split: if_splits)

text \<open>The moves of one execution keep it well-formed.\<close>

lemma exec_moves:
  "exec_ok e \<Longrightarrow> exec_ok (e\<lparr>ex_cancelled := True\<rparr>)"
  "exec_ok e \<Longrightarrow> ex_main e = BTryLock \<Longrightarrow> exec_ok (e\<lparr>ex_main := BLocked\<rparr>)"
  "exec_ok e \<Longrightarrow> ex_main e = BTryLock \<Longrightarrow> ex_cancelled e \<Longrightarrow> exec_ok (e\<lparr>ex_main := BFailed\<rparr>)"
  "exec_ok e \<Longrightarrow> ex_main e = BLocked \<Longrightarrow> exec_ok (e\<lparr>ex_main := BLoop, ex_child := UTicker\<rparr>)"
  "exec_ok e \<Longrightarrow> ex_main e = BLoop \<Longrightarrow> ex_cancelled e \<Longrightarrow> exec_ok (e\<lparr>ex_main := BAwaitChild\<rparr>)"
  "exec_ok e \<Longrightarrow> ex_child e = ULoop \<Longrightarrow> exec_ok (e\<lparr>ex_child := UEnd\<rparr>)"
  "exec_ok e \<Longrightarrow> ex_main e = BAwaitChild \<Longrightarrow> ex_child e = UEnd \<Longrightarrow> exec_ok (e\<lparr>ex_main := BAwaitState\<rparr>)"
  "exec_ok e \<Longrightarrow> ex_main e = BAwaitState \<Longrightarrow> exec_ok (e\<lparr>ex_main := BReset\<rparr>)"
  "exec_ok e \<Longrightarrow> ex_main e = BReset \<Longrightarrow> exec_ok (e\<lparr>ex_main := BFinish\<rparr>)"
  "exec_ok e \<Longrightarrow> ex_main e = BUnlock \<Longrightarrow> exec_ok (e\<lparr>ex_main := BRelease\<rparr>)"
  "exec_ok e \<Longrightarrow> ex_main e = BRelease \<Longrightarrow> exec_ok (e\<lparr>ex_main := BEnd\<rparr>)"
  "exec_ok new_execution"
  "exec_ok e \<Longrightarrow> ex_child e = ULoop \<Longrightarrow> exec_ok (e\<lparr>ex_child := UStore cur new\<rparr>)"
  "exec_ok e \<Longrightarrow> ex_child e = UStore cur new \<Longrightarrow> exec_ok (e\<lparr>ex_child := ULoop\<rparr>)"
  "exec_ok e \<Longrightarrow> ex_main e = BLoop \<Longrightarrow> exec_ok (e\<lparr>ex_main := BPrune\<rparr>)"
  "exec_ok e \<Longrightarrow> ex_main e = BPrune \<Longrightarrow> exec_ok (e\<lparr>ex_main := BLoop\<rparr>)"
  "exec_ok e \<Longrightarrow> ex_main e = BPrune \<Longrightarrow> exec_ok (e\<lparr>ex_main := BAwaitChild, ex_panicking := True\<rparr>)"
  "exec_ok e \<Longrightarrow> ex_main e = BLocked \<Longrightarrow>
    exec_ok (e\<lparr>ex_main := BAwaitChild, ex_child := UTicker, ex_panicking := True\<rparr>)"
  "exec_ok e \<Longrightarrow> ex_child e = UTicker \<Longrightarrow> exec_ok (e\<lparr>ex_child := ULoop\<rparr>)"
  by (simp_all add: exec_ok_def finished_def new_execution_def)

lemma exec_stopped:
  "exec_ok e \<Longrightarrow> ex_status e \<noteq> NotRunning \<Longrightarrow>
     ex_shutdown e \<and> exec_ok (e\<lparr>ex_cancelled := True, ex_status := ShuttingDown\<rparr>)"
  by (cases "finished (ex_main e)") (simp_all add: exec_ok_def)

lemma exec_finishes:
  assumes "exec_ok e" "ex_main e = BFinish \<and> pc = BUnlock \<or> ex_main e = BFailed \<and> pc = BEnd"
  shows "\<exists>e'. finishExecution e = Inr e' \<and> exec_ok (e'\<lparr>ex_main := pc\<rparr>) \<and> ex_closed e' \<and>
    ex_status e' = NotRunning \<and> ex_main e' = ex_main e \<and> ex_panicking e' = ex_panicking e"
proof -
  have "\<not> finished (ex_main e)" using assms(2) by (auto simp: finished_def)
  with assms show ?thesis by (elim disjE conjE) (simp_all add: exec_ok_def finished_def finishExecution_def)
qed

lemma finish_at_eq:
  assumes "\<forall>i < length (ct_execs s). exec_ok (ct_execs s ! i)" "i < length (ct_execs s)"
    "ex_main (ct_execs s ! i) = BFinish \<and> pc = BUnlock \<or> ex_main (ct_execs s ! i) = BFailed \<and> pc = BEnd"
  obtains e where "finish_at i pc s = set_exec i (e\<lparr>ex_main := pc\<rparr>) s" "exec_ok (e\<lparr>ex_main := pc\<rparr>)"
    "ex_status e = NotRunning" "ex_panicking e = ex_panicking (ct_execs s ! i)"
  using exec_finishes [of "ct_execs s ! i" pc] assms that by (auto simp: finish_at_def)

lemma Stop_cases:
  assumes "\<forall>i < length (ct_execs s). exec_ok (ct_execs s ! i)" "current_ok s"
  obtains "Stop s = s"
  | k where "ct_execution s = Some k" "k < length (ct_execs s)" "ex_status (ct_execs s ! k) \<noteq> NotRunning"
    "Stop s = set_exec k ((ct_execs s ! k)\<lparr>ex_cancelled := True, ex_status := ShuttingDown\<rparr>) s"
proof (cases "ct_execution s")
  case None
  then have "Stop s = s" by (simp add: Stop_def)
  then show thesis by (rule that(1))
next
  case (Some k)
  have k: "k < length (ct_execs s)" using assms(2) Some by (rule current_index)
  show thesis
  proof (cases "ex_status (ct_execs s ! k) = NotRunning")
    case True
    then have "Stop s = s" using Some by (simp add: Stop_def Let_def)
    then show thesis by (rule that(1))
  next
    case False
    then have "ex_shutdown (ct_execs s ! k)" using exec_stopped assms(1) k by blast
    then show thesis using that(2) [OF Some k False] False Some by (simp add: Stop_def Let_def)
  qed
qed

abbreviation execs_ok :: "ctl \<Rightarrow> bool" where
  "execs_ok s \<equiv> \<forall>i < length (ct_execs s). exec_ok (ct_execs s ! i)"

lemmas pc_defs = leads_def owns_state_def

text \<open>
  The steps of execution \<open>i\<close>, and what they leave alone: every other execution, the pointer to the
  current one, the progress of \<open>Start\<close>, and every lock that the execution neither has nor takes.
\<close>

fun actor :: "action \<Rightarrow> nat option" where
  "actor (ContextEnds i) = Some i"
| "actor (Locks i) = Some i"
| "actor (GivesUp i) = Some i"
| "actor (Spawns i) = Some i"
| "actor (Reconciles i) = Some i"
| "actor (TakesToken i) = Some i"
| "actor (Prunes i) = Some i"
| "actor (LoopEnds i) = Some i"
| "actor (ChildComputes i) = Some i"
| "actor (ChildStores i) = Some i"
| "actor (ChildEnds i) = Some i"
| "actor (ChildAwaited i) = Some i"
| "actor (StateLocks i) = Some i"
| "actor (Resets i) = Some i"
| "actor (Finishes i) = Some i"
| "actor (Unlocks i) = Some i"
| "actor (Releases i) = Some i"
| "actor (FinishesFailed i) = Some i"
| "actor (ChildTicks i) = Some i"
| "actor (Crashes i) = Some i"
| "actor _ = None"

lemma exec_frame:
  assumes "step s act s'" "actor act = Some i"
  shows "i < length (ct_execs s)" "ct_execs s' = (ct_execs s)[i := ct_execs s' ! i]"
    "ct_execution s' = ct_execution s" "ct_start s' = ct_start s"
  using assms(1)
  by (cases rule: step.cases; use assms(2) in \<open>auto simp: finish_at_def split: sum.split if_split\<close>)+

lemma exec_step_ok:
  assumes "step s act s'" "actor act = Some i" "execs_ok s"
  shows "exec_ok (ct_execs s' ! i) \<and>
    (ex_status (ct_execs s' ! i) = ex_status (ct_execs s ! i) \<or> ex_status (ct_execs s' ! i) = NotRunning)"
  using assms(1)
proof (cases rule: step.cases)
  case (Prunes j rng h r)
  with assms(2,3) exec_moves(16,17) show ?thesis by (simp split: sum.split)
next
  case (ChildComputes j rng ctx h r)
  with assms(2,3) exec_moves(13) show ?thesis by (simp split: sum.split)
next
  case (Finishes j)
  then obtain e where "finish_at j BUnlock s = set_exec j (e\<lparr>ex_main := BUnlock\<rparr>) s"
    "exec_ok (e\<lparr>ex_main := BUnlock\<rparr>)" "ex_status e = NotRunning"
    using finish_at_eq [OF assms(3), of j BUnlock] by auto
  with Finishes assms(2) show ?thesis by simp
next
  case (FinishesFailed j)
  then obtain e where "finish_at j BEnd s = set_exec j (e\<lparr>ex_main := BEnd\<rparr>) s"
    "exec_ok (e\<lparr>ex_main := BEnd\<rparr>)" "ex_status e = NotRunning"
    using finish_at_eq [OF assms(3), of j BEnd] by auto
  with FinishesFailed assms(2) show ?thesis by simp
qed (use assms(2,3) exec_moves in simp_all)

lemma exec_step_locks:
  assumes "step s act s'" "actor act = Some i" "execs_ok s" "locks_ok s"
  shows "leads (ex_main (ct_execs s' ! i)) = (ct_leader s' = Some (Exec i)) \<and>
    owns_state (ex_main (ct_execs s' ! i)) = (ct_stateLock s' = Some i) \<and>
    (ct_leader s' \<noteq> ct_leader s \<longrightarrow> {ct_leader s', ct_leader s} = {None, Some (Exec i)}) \<and>
    (ct_stateLock s' \<noteq> ct_stateLock s \<longrightarrow> {ct_stateLock s', ct_stateLock s} = {None, Some i})"
proof -
  have i: "i < length (ct_execs s)" by (rule exec_frame(1) [OF assms(1,2)])
  have l: "leads (ex_main (ct_execs s ! i)) = (ct_leader s = Some (Exec i))"
    "owns_state (ex_main (ct_execs s ! i)) = (ct_stateLock s = Some i)"
    using assms(4) i by (simp_all add: locks_ok_def)
  show ?thesis
    using assms(1)
  proof (cases rule: step.cases)
    case (Finishes j)
    then obtain e where "finish_at j BUnlock s = set_exec j (e\<lparr>ex_main := BUnlock\<rparr>) s"
      using finish_at_eq [OF assms(3), of j BUnlock] by auto
    with Finishes assms(2) l show ?thesis by (simp add: pc_defs)
  next
    case (FinishesFailed j)
    then obtain e where "finish_at j BEnd s = set_exec j (e\<lparr>ex_main := BEnd\<rparr>) s"
      using finish_at_eq [OF assms(3), of j BEnd] by auto
    with FinishesFailed assms(2) l show ?thesis by (simp add: pc_defs)
  next
    case (Unlocks j)
    then have "ct_leader s = Some (Exec j)" using l assms(2) by (simp add: pc_defs)
    with Unlocks assms(2) l show ?thesis by (auto simp: pc_defs)
  next
    case (Prunes j rng h r)
    with assms(2) l show ?thesis by (auto simp: pc_defs split: sum.split)
  next
    case (ChildComputes j rng ctx h r)
    with assms(2) l show ?thesis by (auto split: sum.split)
  qed (use assms(2) l in \<open>auto simp: pc_defs\<close>)
qed

lemma step_exec_ok:
  assumes "step s act s'" "execs_ok s" "current_ok s"
  shows "execs_ok s'"
proof (cases "actor act")
  case (Some i)
  have "exec_ok (ct_execs s' ! j)" if "j < length (ct_execs s')" for j
  proof (cases "j = i")
    case True
    then show ?thesis using exec_step_ok [OF assms(1) Some assms(2)] by simp
  next
    case False
    then show ?thesis using exec_frame [OF assms(1) Some] assms(2) that
      by (metis length_list_update nth_list_update_neq)
  qed
  then show ?thesis by blast
next
  case None
  show ?thesis
    using assms(1)
  proof (cases rule: step.cases)
    case StopCall
    show ?thesis
    proof (cases rule: Stop_cases [OF assms(2,3)])
      case (2 k)
      with StopCall assms(2) exec_stopped show ?thesis by (simp add: nth_list_update)
    qed (use StopCall assms(2) in simp)
  next
    case StartLaunches
    with assms(2) exec_moves(12) show ?thesis by (auto simp: launch_def nth_append less_Suc_eq)
  next
    case (StartComputes rng ctx h r)
    with assms(2) show ?thesis by (simp split: sum.split)
  qed (use None assms(2) in simp_all)
qed

lemma step_state_ok:
  assumes "step s act s'" "\<forall>i < length (ct_execs s). exec_ok (ct_execs s ! i)" "locks_ok s"
    "current_ok s" "state_ok s"
  shows "state_ok s'"
  using assms(1)
proof (cases rule: step.cases)
  case StopCall
  show ?thesis
  proof (cases rule: Stop_cases [OF assms(2,4)])
    case (2 k)
    with StopCall assms(5) show ?thesis by (auto simp: state_ok_def nth_list_update)
  qed (use StopCall assms(5) in simp)
next
  case StartLaunches
  with assms(5) show ?thesis by (auto simp: state_ok_def launch_def new_execution_def nth_append less_Suc_eq)
next
  case (Finishes i)
  then obtain e where "finish_at i BUnlock s = set_exec i (e\<lparr>ex_main := BUnlock\<rparr>) s"
    using finish_at_eq [OF assms(2), of i BUnlock] by auto
  with Finishes assms(5) show ?thesis by (auto simp: state_ok_def nth_list_update)
next
  case (FinishesFailed i)
  then obtain e where "finish_at i BEnd s = set_exec i (e\<lparr>ex_main := BEnd\<rparr>) s"
    using finish_at_eq [OF assms(2), of i BEnd] by auto
  with FinishesFailed assms(5) show ?thesis by (auto simp: state_ok_def nth_list_update)
next
  case (StartStores cur new)
  then have "\<forall>i < length (ct_execs s). ex_main (ct_execs s ! i) \<notin> {BFinish, BUnlock, BRelease}"
    using assms(3) by (fastforce simp: locks_ok_def owns_state_def)
  with StartStores assms(5) show ?thesis by (auto simp: state_ok_def)
next
  case (ChildStores i cur new)
  then have "\<forall>i < length (ct_execs s). ex_main (ct_execs s ! i) \<notin> {BFinish, BUnlock, BRelease}"
    using assms(3) by (fastforce simp: locks_ok_def owns_state_def)
  with ChildStores assms(5) show ?thesis by (auto simp: state_ok_def nth_list_update)
next
  case (AddServerCall srv h err a)
  from AddServerCall(3) show ?thesis
    by (rule AddServer_state) (use AddServerCall assms(5) in \<open>simp_all add: state_ok_def\<close>)
next
  case (StartComputes rng ctx h r)
  with assms(5) show ?thesis by (simp add: state_ok_def split: sum.split)
next
  case (Prunes i rng h r)
  with assms(5) show ?thesis by (auto simp: state_ok_def nth_list_update split: sum.split)
next
  case (ChildComputes i rng ctx h r)
  with assms(5) show ?thesis by (auto simp: state_ok_def nth_list_update split: sum.split)
qed (use assms(5) in \<open>auto simp: state_ok_def nth_list_update\<close>)

text \<open>Whoever updates the state or is in its loop holds \<open>leaderLock\<close>.\<close>

lemma worker_leads:
  assumes "\<forall>i < length (ct_execs s). exec_ok (ct_execs s ! i)" "locks_ok s" "i < length (ct_execs s)"
    "ex_main (ct_execs s ! i) \<in> {BLoop, BPrune} \<or> working (ex_child (ct_execs s ! i))"
  shows "ct_leader s = Some (Exec i)"
proof -
  have "exec_ok (ct_execs s ! i)" using assms(1,3) by blast
  then have "leads (ex_main (ct_execs s ! i))"
    using assms(4) by (elim disjE) (auto simp: exec_ok_def leads_def)
  then show ?thesis using assms(2,3) by (simp add: locks_ok_def)
qed

lemma leader_alone:
  assumes "execs_ok s" "locks_ok s" "ct_leader s = Some w"
  shows "j < length (ct_execs s) \<Longrightarrow> w \<noteq> Exec j \<Longrightarrow> \<not> working (ex_child (ct_execs s ! j))"
    "w \<noteq> Starter \<Longrightarrow> \<not> start_leads (ct_start s)"
proof -
  show "\<not> working (ex_child (ct_execs s ! j))" if "j < length (ct_execs s)" "w \<noteq> Exec j"
    using worker_leads [OF assms(1,2) that(1)] assms(3) that(2) by auto
  show "\<not> start_leads (ct_start s)" if "w \<noteq> Starter"
    using assms(2,3) that by (simp add: locks_ok_def)
qed

lemma step_update_ok:
  assumes "step s act s'" "execs_ok s" "locks_ok s" "current_ok s" "update_ok s"
  shows "update_ok s'"
  using assms(1)
proof (cases rule: step.cases)
  case StartCall
  with assms(5) show ?thesis by (auto simp: update_ok_def start_entry_def)
next
  case StopCall
  show ?thesis
  proof (cases rule: Stop_cases [OF assms(2,4)])
    case (2 k)
    with StopCall assms(5) show ?thesis by (auto simp: update_ok_def nth_list_update)
  qed (use StopCall assms(5) in simp)
next
  case StartLaunches
  with assms(5) show ?thesis by (auto simp: update_ok_def launch_def new_execution_def nth_append less_Suc_eq)
next
  case (StartStores cur new)
  then have "ct_leader s = Some Starter" using assms(3) by (simp add: locks_ok_def)
  from leader_alone(1) [OF assms(2,3) this] StartStores show ?thesis by (fastforce simp: update_ok_def)
next
  case (ChildStores i cur new)
  then have "ct_leader s = Some (Exec i)" using worker_leads [OF assms(2,3), of i] by simp
  from leader_alone [OF assms(2,3) this] ChildStores show ?thesis
    by (fastforce simp: update_ok_def nth_list_update)
next
  case (Resets i)
  then have lead: "ct_leader s = Some (Exec i)" using assms(3) by (auto simp: locks_ok_def leads_def)
  have "exec_ok (ct_execs s ! i)" using assms(2) Resets by blast
  with Resets have "\<not> working (ex_child (ct_execs s ! i))" by (auto simp: exec_ok_def)
  with leader_alone [OF assms(2,3) lead] Resets show ?thesis
    by (fastforce simp: update_ok_def nth_list_update)
next
  case (AddServerCall srv h err a)
  from AddServerCall(3) show ?thesis
    by (rule AddServer_state) (use AddServerCall assms(5) in \<open>simp_all add: update_ok_def\<close>)
qed (use assms(5) in \<open>auto simp: update_ok_def nth_list_update GetState_def finish_at_def finishExecution_def
  split: sum.splits if_splits\<close>)

text \<open>A move of one goroutine that takes or gives a lock as its program points say.\<close>

lemma locks_move:
  assumes "locks_ok s" "i < length (ct_execs s)" "ct_execs s' = (ct_execs s)[i := e]" "ct_start s' = ct_start s"
    and "leads (ex_main e) = (ct_leader s' = Some (Exec i))" "owns_state (ex_main e) = (ct_stateLock s' = Some i)"
    and "ct_leader s' \<noteq> ct_leader s \<Longrightarrow> {ct_leader s', ct_leader s} = {None, Some (Exec i)}"
    and "ct_stateLock s' \<noteq> ct_stateLock s \<Longrightarrow> {ct_stateLock s', ct_stateLock s} = {None, Some i}"
  shows "locks_ok s'"
proof -
  have l: "(ct_leader s' = Some (Exec j)) = (ct_leader s = Some (Exec j))" if "j \<noteq> i" for j
    using assms(7) that by (cases "ct_leader s' = ct_leader s") (auto simp: doubleton_eq_iff)
  have t: "(ct_stateLock s' = Some j) = (ct_stateLock s = Some j)" if "j \<noteq> i" for j
    using assms(8) that by (cases "ct_stateLock s' = ct_stateLock s") (auto simp: doubleton_eq_iff)
  have st: "(ct_leader s' = Some Starter) = (ct_leader s = Some Starter)"
    using assms(7) by (cases "ct_leader s' = ct_leader s") (auto simp: doubleton_eq_iff)
  have "j < length (ct_execs s)" if "ct_leader s' = Some (Exec j) \<or> ct_stateLock s' = Some j" for j
    using that l t assms(1,2) by (cases "j = i") (auto simp: locks_ok_def)
  then show ?thesis
    using assms(1-6) l t st by (simp add: locks_ok_def nth_list_update)
qed

lemma locks_keep:
  assumes "locks_ok s" "ct_execs s' = (ct_execs s)[i := e]" "i < length (ct_execs s)"
    "ex_main e = ex_main (ct_execs s ! i)"
    "ct_leader s' = ct_leader s" "ct_stateLock s' = ct_stateLock s" "ct_start s' = ct_start s"
  shows "locks_ok s'"
  using assms by (auto simp: locks_ok_def nth_list_update)

lemma step_locks_ok:
  assumes "step s act s'" "execs_ok s" "locks_ok s" "current_ok s"
  shows "locks_ok s'"
proof (cases "actor act")
  case (Some i)
  note f = exec_frame [OF assms(1) Some] and l = exec_step_locks [OF assms(1) Some assms(2,3)]
  from l show ?thesis by (intro locks_move [OF assms(3) f(1,2,4)]) simp_all
next
  case None
  show ?thesis
    using assms(1)
  proof (cases rule: step.cases)
    case StopCall
    show ?thesis
    proof (cases rule: Stop_cases [OF assms(2,4)])
      case (2 k)
      with StopCall show ?thesis by (intro locks_keep [OF assms(3), where i = k and
        e = "(ct_execs s ! k)\<lparr>ex_cancelled := True, ex_status := ShuttingDown\<rparr>"]) auto
    qed (use StopCall assms(3) in simp)
  next
    case StartLaunches
    with assms(3) show ?thesis
      by (auto simp: locks_ok_def launch_def new_execution_def nth_append less_Suc_eq pc_defs)
  next
    case (StartComputes rng ctx h r)
    with assms(3) show ?thesis by (auto simp: locks_ok_def split: sum.split)
  qed (use None assms(3) in \<open>auto simp: locks_ok_def start_entry_def\<close>)
qed

lemma current_keep:
  assumes "current_ok s" "i < length (ct_execs s)" "ct_execs s' = (ct_execs s)[i := e]"
    "ct_execution s' = ct_execution s" "ct_start s' = ct_start s"
    "ex_status e = Running \<Longrightarrow> ex_status (ct_execs s ! i) = Running"
  shows "current_ok s'"
  using assms by (auto simp: current_ok_def nth_list_update)

text \<open>\<open>Start\<close> does not go on while an execution is running.\<close>

lemma start_entry_free:
  assumes "current_ok s" "start_entry s \<noteq> SIdle" "i < length (ct_execs s)"
  shows "ex_status (ct_execs s ! i) \<noteq> Running"
proof
  assume run: "ex_status (ct_execs s ! i) = Running"
  then have "Suc i = length (ct_execs s)" using assms(1,3) by (auto simp: current_ok_def)
  then have "ct_execution s = Some i" using assms(1) by (auto simp: current_ok_def split: if_splits)
  with assms(2) run show False by (simp add: start_entry_def current_status_def)
qed

lemma step_current_ok:
  assumes "step s act s'" "execs_ok s" "current_ok s"
  shows "current_ok s'"
proof (cases "actor act")
  case (Some i)
  show ?thesis
    by (rule current_keep [OF assms(3) exec_frame [OF assms(1) Some]])
      (use exec_step_ok [OF assms(1) Some assms(2)] in auto)
next
  case None
  show ?thesis
    using assms(1)
  proof (cases rule: step.cases)
    case StartCall
    with assms(3) start_entry_free [OF assms(3)] show ?thesis by (fastforce simp: current_ok_def)
  next
    case StopCall
    show ?thesis
    proof (cases rule: Stop_cases [OF assms(2,3)])
      case (2 k)
      with StopCall show ?thesis by (intro current_keep [OF assms(3), where i = k and
        e = "(ct_execs s ! k)\<lparr>ex_cancelled := True, ex_status := ShuttingDown\<rparr>"]) auto
    qed (use StopCall assms(3) in simp)
  next
    case StartLaunches
    with assms(3) show ?thesis
      by (auto simp: current_ok_def launch_def new_execution_def nth_append less_Suc_eq)
  qed (use None assms(3) in \<open>auto simp: current_ok_def split: sum.split\<close>)
qed

lemma ctl_inv_step: "step s act s' \<Longrightarrow> ctl_inv s \<Longrightarrow> ctl_inv s'"
  unfolding ctl_inv_def using step_exec_ok step_locks_ok step_current_ok step_state_ok step_update_ok
  by blast

lemma ctl_inv_initial: "has_state a \<Longrightarrow> ctl_inv (initial a)"
  by (auto simp: ctl_inv_def initial_def locks_ok_def current_ok_def state_ok_def update_ok_def)

lemma ctl_inv_reachable: "reachable a s \<Longrightarrow> has_state a \<Longrightarrow> ctl_inv s"
  by (induction rule: reachable.induct) (auto intro: ctl_inv_initial ctl_inv_step)

section \<open>The environment and panics\<close>

text \<open>The handles and intervals that an Autopilot got from \<open>New\<close> and never changes.\<close>

definition same_env :: "Autopilot \<Rightarrow> Autopilot \<Rightarrow> bool" where
  "same_env a b \<longleftrightarrow> ap_delegate b = ap_delegate a \<and> ap_promoter b = ap_promoter a \<and> ap_raft b = ap_raft a \<and>
     ap_updateInterval b = ap_updateInterval a \<and> ap_reconcileInterval b = ap_reconcileInterval a"

lemma same_env_simps [simp]:
  "same_env a a" "same_env a (b\<lparr>ap_state := st\<rparr>) = same_env a b" "same_env a (b\<lparr>ap_removeDeadCh := n\<rparr>) = same_env a b"
  "same_env a (RemoveDeadServers b) = same_env a b" "same_env a (EnableReconciliation b) = same_env a b"
  "same_env a (DisableReconciliation b) = same_env a b"
  by (simp_all add: same_env_def RemoveDeadServers_def EnableReconciliation_def DisableReconciliation_def)

lemma same_ap [simp]:
  "ct_ap (Stop s) = ct_ap s" "ct_ap (launch s) = ct_ap s" "ct_ap (finish_at i pc s) = ct_ap s"
  by (simp_all add: Stop_def launch_def finish_at_def Let_def split: option.split sum.split)

lemma same_env_step: "step s act s' \<Longrightarrow> same_env a (ct_ap s) \<Longrightarrow> same_env a (ct_ap s')"
  by (erule step.cases) (auto split: sum.split elim: AddServer_state)

lemma same_env_reachable: "reachable a s \<Longrightarrow> same_env a (ct_ap s)"
  by (induction rule: reachable.induct) (auto simp: initial_def intro: same_env_step)

text \<open>
  Pruning can panic, depending on the answers of the application and of the promoter (C36), and so
  can making a ticker. \<open>runnable a\<close> says that \<open>a\<close> has a state and positive intervals,
  \<open>prune_safe a\<close> that with the handles of \<open>a\<close> pruning never panics, and \<open>sound a\<close> says both.
\<close>

definition prune_safe :: "Autopilot \<Rightarrow> bool" where
  "prune_safe a \<longleftrightarrow> (\<forall>b rng h. same_env a b \<longrightarrow> go_range rng \<longrightarrow> (\<exists>r. fst (pruneDeadServers rng b h) = Inr r))"

definition runnable :: "Autopilot \<Rightarrow> bool" where
  "runnable a \<longleftrightarrow> has_state a \<and> NewTicker (ap_updateInterval a) \<and> NewTicker (ap_reconcileInterval a)"

definition sound :: "Autopilot \<Rightarrow> bool" where
  "sound a \<longleftrightarrow> runnable a \<and> prune_safe a"

lemma sound_state: "sound a \<Longrightarrow> has_state a"
  by (simp add: sound_def runnable_def)

context honest_filter
begin

lemma keeps_prune_safe:
  assumes "ap_promoter a = p" "always_configured a" "\<forall>h. gomap_wf (d_KnownServers (ap_delegate a) h)"
  shows "prune_safe a"
proof -
  have "\<exists>r. fst (pruneDeadServers rng b h) = Inr r" if "same_env a b" "go_range rng" for b rng h
    by (rule prune_total) (use assms that in \<open>auto simp: same_env_def always_configured_def\<close>)
  then show ?thesis by (simp add: prune_safe_def)
qed

end

text \<open>
  A panic begins when the process ends, unless it is a panicking execution that ends it after its
  cleanup, or when an execution turns to panicking. Only three steps can begin one.
\<close>

definition panic_begins :: "ctl \<Rightarrow> action \<Rightarrow> ctl \<Rightarrow> bool" where
  "panic_begins s act s' \<longleftrightarrow>
     \<not> ct_panic s \<and> ct_panic s' \<and> (\<forall>i. act \<noteq> Crashes i) \<or>
     (\<exists>i < length (ct_execs s'). ex_panicking (ct_execs s' ! i) \<and>
        (i < length (ct_execs s) \<longrightarrow> \<not> ex_panicking (ct_execs s ! i)))"

definition panic_origin :: "ctl \<Rightarrow> action \<Rightarrow> bool" where
  "panic_origin s act \<longleftrightarrow>
     (\<exists>i rng h p. act = Prunes i \<and> go_range rng \<and> fst (pruneDeadServers rng (ct_ap s) h) = Inl p) \<or>
     (\<exists>i. act = Spawns i \<and> ap_reconcileInterval (ct_ap s) \<le> 0) \<or>
     (\<exists>i. act = ChildTicks i \<and> ap_updateInterval (ct_ap s) \<le> 0)"

lemma calm_step:
  assumes "ct_panic s' = ct_panic s" "ct_execs s' = (ct_execs s)[i := e]"
    "ex_panicking e \<Longrightarrow> ex_panicking (ct_execs s ! i)"
  shows "\<not> panic_begins s act s'"
proof -
  have "ex_panicking (ct_execs s' ! j) \<Longrightarrow> ex_panicking (ct_execs s ! j)" if "j < length (ct_execs s)" for j
    using that assms(2,3) by (cases "j = i") simp_all
  then show ?thesis using assms(1,2) by (auto simp: panic_begins_def)
qed

lemma quiet_step:
  assumes "ct_panic s' = ct_panic s" "ct_execs s' = ct_execs s"
  shows "\<not> panic_begins s act s'"
  using assms by (auto simp: panic_begins_def)

lemma step_panic:
  assumes "step s act s'" "ctl_inv s" "panic_begins s act s'"
  shows "panic_origin s act"
proof -
  have ok: "\<forall>i < length (ct_execs s). exec_ok (ct_execs s ! i)" and locks: "locks_ok s"
    and cur: "current_ok s"
    using assms(2) by (simp_all add: ctl_inv_def)
  show ?thesis
    using assms(1)
  proof (cases rule: step.cases)
    case StopCall
    show ?thesis
    proof (cases rule: Stop_cases [OF ok cur])
      case (2 k)
      then show ?thesis
        using StopCall assms(3) calm_step [of s' s k "(ct_execs s ! k)\<lparr>ex_cancelled := True, ex_status := ShuttingDown\<rparr>"]
        by simp
    qed (use StopCall assms(3) quiet_step [of s' s] in simp)
  next
    case (StartComputes rng ctx h r)
    then obtain r' where "r = Inr r'"
      using nextState_returns [of rng ctx "ct_ap s" "ap_state (ct_ap s)" h] by auto
    with StartComputes assms(3) quiet_step [of s' s] show ?thesis by (auto split: sum.splits)
  next
    case (ChildComputes i rng ctx h r)
    then obtain r' where "r = Inr r'"
      using nextState_returns [of rng ctx "ct_ap s" "ap_state (ct_ap s)" h] by auto
    with ChildComputes assms(3) quiet_step [of s' s] show ?thesis
    proof (cases r')
      case (Inr new)
      with ChildComputes \<open>r = Inr r'\<close> assms(3) show ?thesis
        using calm_step [of s' s i "(ct_execs s ! i)\<lparr>ex_child := UStore (GetState (ct_ap s)) new\<rparr>"] by simp
    qed simp
  next
    case (Prunes i rng h r)
    then obtain p where "r = Inl p"
      using assms(3) calm_step [of s' s i "(ct_execs s ! i)\<lparr>ex_main := BLoop\<rparr>"] by (auto split: sum.splits)
    with Prunes show ?thesis by (auto simp: panic_origin_def)
  next
    case (Finishes i)
    then obtain e where "finish_at i BUnlock s = set_exec i (e\<lparr>ex_main := BUnlock\<rparr>) s"
      "ex_panicking e = ex_panicking (ct_execs s ! i)"
      using finish_at_eq [OF ok, of i BUnlock] by auto
    with Finishes assms(3) calm_step [of s' s i "e\<lparr>ex_main := BUnlock\<rparr>"] show ?thesis by simp
  next
    case (FinishesFailed i)
    then obtain e where "finish_at i BEnd s = set_exec i (e\<lparr>ex_main := BEnd\<rparr>) s"
      "ex_panicking e = ex_panicking (ct_execs s ! i)"
      using finish_at_eq [OF ok, of i BEnd] by auto
    with FinishesFailed assms(3) calm_step [of s' s i "e\<lparr>ex_main := BEnd\<rparr>"] show ?thesis by simp
  next
    case (Unlocks i)
    then have "ct_leader s = Some (Exec i)" using locks by (auto simp: locks_ok_def leads_def)
    with Unlocks assms(3) calm_step [of s' s i "(ct_execs s ! i)\<lparr>ex_main := BRelease\<rparr>"] show ?thesis by simp
  next
    case StartUnlocks
    then have "ct_leader s = Some Starter" using locks by (auto simp: locks_ok_def)
    with StartUnlocks assms(3) quiet_step [of s' s] show ?thesis by simp
  next
    case (Spawns i)
    then show ?thesis
      using assms(3) calm_step [of s' s i "(ct_execs s ! i)\<lparr>ex_main := BLoop, ex_child := UTicker\<rparr>"]
      by (auto simp: panic_origin_def NewTicker_def split: if_splits)
  next
    case (ChildTicks i)
    then show ?thesis
      using assms(3) calm_step [of s' s i "(ct_execs s ! i)\<lparr>ex_child := ULoop\<rparr>"]
      by (auto simp: panic_origin_def NewTicker_def split: if_splits)
  next
    case StartLaunches
    then show ?thesis
      using assms(3) by (auto simp: panic_begins_def launch_def new_execution_def nth_append less_Suc_eq)
  next
    case (Crashes i)
    then show ?thesis using assms(3) by (auto simp: panic_begins_def)
  qed (use assms(3) quiet_step [of s' s] calm_step [OF _ exec_frame(2) [OF assms(1)]] in simp_all)
qed

lemma panicked_step:
  assumes "step s act s'" "\<not> panicked s" "panicked s'"
  shows "panic_begins s act s'"
proof (cases "ct_panic s'")
  case True
  have "act \<noteq> Crashes i" for i
    using assms(1,2) by (auto simp: panicked_def list_ex_length elim: step.cases)
  with True assms(2) show ?thesis by (simp add: panic_begins_def panicked_def)
next
  case False
  with assms(2,3) show ?thesis by (auto simp: panic_begins_def panicked_def list_ex_length)
qed

lemma reachable_no_panic:
  assumes "reachable a s" "sound a"
  shows "\<not> panicked s"
  using assms(1)
proof (induction rule: reachable.induct)
  case (step s act s')
  then have inv: "ctl_inv s" "same_env a (ct_ap s)"
    using sound_state [OF assms(2)] ctl_inv_reachable same_env_reachable by simp_all
  show ?case
  proof
    assume "panicked s'"
    with step_panic [OF step(2) inv(1)] panicked_step [OF step(2) step.IH] have "panic_origin s act" by blast
    then consider rng h p where "go_range rng" "fst (pruneDeadServers rng (ct_ap s) h) = Inl p"
      | "ap_reconcileInterval (ct_ap s) \<le> 0" | "ap_updateInterval (ct_ap s) \<le> 0"
      unfolding panic_origin_def by blast
    then show False
    proof cases
      case (1 rng h p)
      from assms(2) inv(2) this(1) have "\<exists>r. fst (pruneDeadServers rng (ct_ap s) h) = Inr r"
        unfolding sound_def prune_safe_def by blast
      with 1(2) show False by simp
    qed (use assms(2) inv(2) in \<open>simp_all add: sound_def runnable_def same_env_def NewTicker_def\<close>)
  qed
qed (simp add: initial_def panicked_def)

section \<open>The states that are kept\<close>

text \<open>Every state that is stored, or about to be, is well-formed.\<close>

definition stored_ok :: "ctl \<Rightarrow> bool" where
  "stored_ok s \<longleftrightarrow>
     (\<exists>st. ap_state (ct_ap s) = Some st \<and> State_wf st) \<and>
     (\<forall>cur new. ct_start s = SStore cur new \<longrightarrow> State_wf new) \<and>
     (\<forall>i < length (ct_execs s). \<forall>cur new. ex_child (ct_execs s ! i) = UStore cur new \<longrightarrow> State_wf new)"

lemma finish_stored: "stored_ok s \<Longrightarrow> stored_ok (finish_at i pc s)"
  by (cases "ex_done (ct_execs s ! i)"; cases "i < length (ct_execs s)")
    (auto simp: finish_at_def finishExecution_def stored_ok_def nth_list_update)

lemma Stop_stored: "stored_ok s \<Longrightarrow> stored_ok (Stop s)"
proof (cases "ct_execution s")
  case (Some k)
  assume "stored_ok s"
  with Some show ?thesis
    by (cases "k < length (ct_execs s)") (auto simp: Stop_def Let_def stored_ok_def nth_list_update)
qed (simp add: Stop_def)

lemma step_stored_ok:
  assumes "step s act s'" "stored_ok s"
  shows "stored_ok s'"
  using assms(1)
proof (cases rule: step.cases)
  case StartLaunches
  with assms(2) show ?thesis
    by (auto simp: stored_ok_def launch_def new_execution_def nth_append less_Suc_eq)
next
  case (AddServerCall srv h err a)
  from AddServerCall(3) show ?thesis
    by (rule AddServer_state) (use AddServerCall assms(2) in \<open>simp_all add: stored_ok_def\<close>)
next
  case (StartComputes rng ctx h r)
  with assms(2) nextState_wf [of rng ctx "ct_ap s" "ap_state (ct_ap s)" h] show ?thesis
    by (auto simp: stored_ok_def split: sum.split)
next
  case (ChildComputes i rng ctx h r)
  with assms(2) nextState_wf [of rng ctx "ct_ap s" "ap_state (ct_ap s)" h] show ?thesis
    by (auto simp: stored_ok_def nth_list_update split: sum.split)
next
  case (Prunes i rng h r)
  with assms(2) show ?thesis by (auto simp: stored_ok_def nth_list_update split: sum.split)
next
  case (Unlocks i)
  with assms(2) show ?thesis by (simp add: stored_ok_def nth_list_update)
next
  case StartCall
  with assms(2) show ?thesis by (auto simp: stored_ok_def start_entry_def)
qed (use assms(2) zero_State_wf in \<open>simp_all add: finish_stored Stop_stored, simp_all add: stored_ok_def nth_list_update\<close>)

lemma stored_ok_reachable:
  assumes "reachable a s" "ap_state a = Some st" "State_wf st"
  shows "stored_ok s"
  using assms(1)
proof (induction rule: reachable.induct)
  case init
  with assms(2,3) show ?case by (simp add: stored_ok_def initial_def)
next
  case (step s act s')
  then show ?case using step_stored_ok by blast
qed

end
