(* ===== verification/AP_RunSafe.thy ===== *)
theory AP_RunSafe
  imports AP_RunInv
begin

text \<open>
  What is always true of the running system: who works at any time, what a client can see, when
  the process can panic, and that the executions refine an abstract life cycle. At the end, two
  concrete schedules.
\<close>

section \<open>What New builds\<close>

text \<open>
  With options whose intervals are not negative, \<open>New\<close> gives an Autopilot that has a state and
  positive intervals; it has a state with any options of the package (\<open>New_has_state\<close>).
\<close>

lemmas runnable_defs = runnable_def has_state_def NewTicker_def

theorem New_runnable:
  assumes "\<forall>opt \<in> set options. package_option dflt opt"
    and "\<forall>t < 0. WithUpdateInterval t \<notin> set options \<and> WithReconcileInterval t \<notin> set options"
  shows "runnable (New dflt clock raft delegate options)"
proof -
  have nonneg: "0 \<le> t" if "WithUpdateInterval t \<in> set options \<or> WithReconcileInterval t \<in> set options" for t
    using assms(2) that by (meson not_less)
  have keeps: "runnable (opt a)" if "opt \<in> set options" "runnable a" for opt a
  proof -
    have "package_option dflt opt" using assms(1) that(1) by blast
    then show ?thesis
      unfolding package_option_def
    proof (elim disjE exE)
      fix t assume "opt = WithUpdateInterval t"
      with that nonneg [of t] show ?thesis by (auto simp: runnable_defs option_defs Let_def)
    next
      fix t assume "opt = WithReconcileInterval t"
      with that nonneg [of t] show ?thesis by (auto simp: runnable_defs option_defs Let_def)
    qed (use that(2) in \<open>simp_all add: runnable_defs option_defs Let_def\<close>)
  qed
  show ?thesis
    unfolding New_def Let_def
    by (rule fold_options_inv [where P = runnable], erule (1) keeps) (simp add: runnable_defs option_defs)
qed

lemma New_state:
  assumes "\<forall>opt \<in> set options. package_option dflt opt"
  shows "ap_state (New dflt clock raft delegate options) = Some zero_State"
    "ap_delegate (New dflt clock raft delegate options) = delegate"
  using New_wellformed [OF assms, of clock raft delegate] by simp_all

theorem New_has_state:
  assumes "\<forall>opt \<in> set options. package_option dflt opt"
  shows "has_state (New dflt clock raft delegate options)"
  using New_state(1) [OF assms] by (simp add: has_state_def)

lemma New_promoter:
  assumes "\<forall>opt \<in> set options. package_option dflt opt"
    and "honest_filter dflt" "\<forall>p. WithPromoter dflt (Some p) \<in> set options \<longrightarrow> honest_filter p"
  shows "honest_filter (ap_promoter (New dflt clock raft delegate options))"
proof -
  have keeps: "honest_filter (ap_promoter (opt a))" if "opt \<in> set options" "honest_filter (ap_promoter a)" for opt a
  proof -
    have "package_option dflt opt" using assms(1) that(1) by blast
    then show ?thesis
      unfolding package_option_def
    proof (elim disjE exE)
      fix p assume "opt = WithPromoter dflt p"
      with that(1) assms(2,3) show ?thesis by (cases p) (simp_all add: WithPromoter_def)
    qed (use that(2) in \<open>simp_all add: option_defs Let_def\<close>)
  qed
  show ?thesis
    unfolding New_def Let_def
    by (rule fold_options_inv [where P = "\<lambda>a. honest_filter (ap_promoter a)"], erule (1) keeps)
      (simp add: assms(2))
qed

lemma New_sound:
  assumes "\<forall>opt \<in> set options. package_option dflt opt"
    and "\<forall>t < 0. WithUpdateInterval t \<notin> set options \<and> WithReconcileInterval t \<notin> set options"
    and "honest_filter dflt" "\<forall>p. WithPromoter dflt (Some p) \<in> set options \<longrightarrow> honest_filter p"
    and "\<forall>h. d_AutopilotConfig delegate h \<noteq> None" "\<forall>h. gomap_wf (d_KnownServers delegate h)"
  shows "sound (New dflt clock raft delegate options)"
proof -
  let ?a = "New dflt clock raft delegate options"
  have "prune_safe ?a"
    using New_promoter [OF assms(1,3,4)] refl
    by (rule honest_filter.keeps_prune_safe) (use assms(5,6) New_state(2) [OF assms(1)] in \<open>simp_all add: always_configured_def\<close>)
  then show ?thesis using New_runnable [OF assms(1,2)] by (simp add: sound_def)
qed

section \<open>Properties\<close>

text \<open>
  C4: at most one execution works at any time: only the goroutines that hold \<open>leaderLock\<close>
  reconcile, prune or update the state, and while \<open>Start\<close> updates the state none of them does.
\<close>

theorem one_leader:
  assumes "reachable a s" "has_state a" "i < length (ct_execs s)"
    and "ex_main (ct_execs s ! i) \<in> {BLoop, BPrune} \<or> working (ex_child (ct_execs s ! i))"
  shows "ct_leader s = Some (Exec i) \<and> \<not> start_leads (ct_start s) \<and>
    (\<forall>j < length (ct_execs s). j \<noteq> i \<longrightarrow>
      ex_main (ct_execs s ! j) \<notin> {BLoop, BPrune} \<and> \<not> working (ex_child (ct_execs s ! j)))"
proof -
  have inv: "ctl_inv s" using assms(1,2) by (rule ctl_inv_reachable)
  then have lead: "ct_leader s = Some (Exec j)"
    if "j < length (ct_execs s)" "ex_main (ct_execs s ! j) \<in> {BLoop, BPrune} \<or> working (ex_child (ct_execs s ! j))" for j
    using that worker_leads by (auto simp: ctl_inv_def)
  have "\<not> start_leads (ct_start s)"
    using lead [OF assms(3,4)] inv by (simp add: ctl_inv_def locks_ok_def)
  then show ?thesis using lead [OF assms(3,4)] lead by auto
qed

text \<open>
  C38: no update is lost or based on an old state. When \<open>updateState\<close> stores a state, in \<open>Start\<close>
  or in an execution, the state of the Autopilot is still the one that it read when it began.
\<close>

theorem no_lost_update:
  assumes "reachable a s" "has_state a"
  shows "(\<forall>s' cur new. step s StartStores s' \<and> ct_start s = SStore cur new \<longrightarrow>
      ap_state (ct_ap s) = cur \<and> ap_state (ct_ap s') = Some new) \<and>
    (\<forall>s' i cur new. step s (ChildStores i) s' \<and> ex_child (ct_execs s ! i) = UStore cur new \<longrightarrow>
      ap_state (ct_ap s) = cur \<and> ap_state (ct_ap s') = Some new)"
  using ctl_inv_reachable [OF assms]
  by (auto simp: ctl_inv_def update_ok_def elim!: StartStoresE ChildStoresE)

text \<open>
  C11: in an Autopilot that has a state, as every one that \<open>New\<close> builds, a panic can begin at three
  places only: in the call to \<open>pruneDeadServers\<close>, and where the reconcile loop or the updater makes
  a ticker with an interval that is not positive. So starting, stopping and finishing executions
  and updating the state never panics: no execution closes its \<open>done\<close> channel twice, \<open>Stop\<close> never
  calls a nil function, and no lock is given back by someone who does not hold it, the cleanup
  after a panic included. An execution's channel is closed exactly when its status is
  \<open>NotRunning\<close>, and an execution that is shutting down has a cancelled context.
\<close>

theorem executions_consistent:
  assumes "reachable a s" "has_state a"
  shows "(\<forall>act s'. step s act s' \<and> panic_begins s act s' \<longrightarrow> panic_origin s act) \<and>
    (\<forall>i < length (ct_execs s).
      (ex_closed (ct_execs s ! i) \<longleftrightarrow> ex_status (ct_execs s ! i) = NotRunning) \<and>
      (ex_status (ct_execs s ! i) = ShuttingDown \<longrightarrow> ex_cancelled (ct_execs s ! i)))"
proof -
  have inv: "ctl_inv s" using assms by (rule ctl_inv_reachable)
  then have "exec_ok (ct_execs s ! i)" if "i < length (ct_execs s)" for i
    using that by (simp add: ctl_inv_def)
  then have "(ex_closed (ct_execs s ! i) \<longleftrightarrow> ex_status (ct_execs s ! i) = NotRunning) \<and>
      (ex_status (ct_execs s ! i) = ShuttingDown \<longrightarrow> ex_cancelled (ct_execs s ! i))"
    if "i < length (ct_execs s)" for i
    using that by (cases "finished (ex_main (ct_execs s ! i))") (fastforce simp: exec_ok_def)+
  then show ?thesis using step_panic [OF _ inv] by blast
qed

text \<open>
  C27: every state that a client can observe is well-formed. Whatever raft, the application and
  the promoter answer, and however calls and goroutines interleave, an Autopilot that \<open>New\<close> built
  always has a state, that state satisfies \<open>State_wf\<close>, and \<open>GetServerHealth\<close> never panics.
\<close>

theorem observable_state_wf:
  assumes "\<forall>opt \<in> set options. package_option dflt opt"
    and "reachable (New dflt clock raft delegate options) s"
  shows "(\<exists>st. GetState (ct_ap s) = Some st \<and> State_wf st) \<and>
    (\<forall>i. \<exists>r. GetServerHealth (ct_ap s) i = Inr r)"
proof -
  have "ap_state (New dflt clock raft delegate options) = Some zero_State"
    using assms(1) by (rule New_state)
  then have "stored_ok s" using assms(2) zero_State_wf stored_ok_reachable by blast
  then show ?thesis
    by (auto simp: stored_ok_def GetState_def GetServerHealth_def split: option.split)
qed

text \<open>
  C18: the whole system never panics. Take an Autopilot that \<open>New\<close> built with options whose
  intervals are not negative, from a promoter that never adds to the failed servers that it is
  asked to filter (the default one for instance) and an application that always has a
  configuration and hands over maps. Then in no interleaving of its goroutines and of calls from
  outside has the process ended in a panic, nor is one of its goroutines panicking.
\<close>

theorem system_never_panics:
  assumes "\<forall>opt \<in> set options. package_option dflt opt"
    and "\<forall>t < 0. WithUpdateInterval t \<notin> set options \<and> WithReconcileInterval t \<notin> set options"
    and "honest_filter dflt" "\<forall>p. WithPromoter dflt (Some p) \<in> set options \<longrightarrow> honest_filter p"
    and "\<forall>h. d_AutopilotConfig delegate h \<noteq> None" "\<forall>h. gomap_wf (d_KnownServers delegate h)"
    and "reachable (New dflt clock raft delegate options) s"
  shows "\<not> panicked s"
  using assms(7) New_sound [OF assms(1-6)] by (rule reachable_no_panic)

text \<open>
  C35: \<open>IsRunning\<close> reports the latest execution, with its status and its channel, which is still
  open, whenever that execution is running or shutting down. If it is over, or there never was
  one, it answers \<open>NotRunning\<close> with a closed channel of its own. At most one execution is running,
  and then that is what it reports.
\<close>

theorem IsRunning_correct:
  assumes "reachable a s" "has_state a"
  shows "IsRunning s =
      (if ct_execs s = [] \<or> ex_status (last (ct_execs s)) = NotRunning then (NotRunning, None)
       else (ex_status (last (ct_execs s)), Some (length (ct_execs s) - 1))) \<and>
    (\<forall>i < length (ct_execs s). ex_status (ct_execs s ! i) = Running \<longrightarrow> IsRunning s = (Running, Some i)) \<and>
    (case IsRunning s of
       (st, None) \<Rightarrow> st = NotRunning
     | (st, Some k) \<Rightarrow> Suc k = length (ct_execs s) \<and> st \<noteq> NotRunning \<and>
         ex_status (ct_execs s ! k) = st \<and> \<not> ex_closed (ct_execs s ! k))"
proof -
  have inv: "ctl_inv s" using assms by (rule ctl_inv_reachable)
  then have cur: "current_ok s" by (simp add: ctl_inv_def)
  then have eq: "IsRunning s =
      (if ct_execs s = [] \<or> ex_status (last (ct_execs s)) = NotRunning then (NotRunning, None)
       else (ex_status (last (ct_execs s)), Some (length (ct_execs s) - 1)))"
    by (simp add: IsRunning_def current_ok_def last_conv_nth)
  have run: "IsRunning s = (Running, Some i)"
    if "i < length (ct_execs s)" "ex_status (ct_execs s ! i) = Running" for i
  proof -
    have "ct_execution s = Some i" using cur that by (auto simp: current_ok_def split: if_splits)
    then show ?thesis using that(2) by (simp add: IsRunning_def)
  qed
  have op: "\<not> ex_closed (ct_execs s ! k)"
    if "k < length (ct_execs s)" "ex_status (ct_execs s ! k) \<noteq> NotRunning" for k
  proof -
    have "exec_ok (ct_execs s ! k)" using inv that(1) by (simp add: ctl_inv_def)
    then show ?thesis using that(2) by (cases "finished (ex_main (ct_execs s ! k))") (simp_all add: exec_ok_def)
  qed
  have "case IsRunning s of
       (st, None) \<Rightarrow> st = NotRunning
     | (st, Some k) \<Rightarrow> Suc k = length (ct_execs s) \<and> st \<noteq> NotRunning \<and>
         ex_status (ct_execs s ! k) = st \<and> \<not> ex_closed (ct_execs s ! k)"
    using op cur by (auto simp: IsRunning_def current_ok_def split: option.split if_splits)
  with eq run show ?thesis by blast
qed

text \<open>
  C34: when an execution has finished its work and tells the world so, the state is the zero state
  again: from the reset until \<open>stateLock\<close> is given back nobody stores another one, so that the
  first-state time is forgotten before the next leadership. The state is never nil.
\<close>

theorem state_reset:
  assumes "reachable a s" "has_state a"
  shows "ap_state (ct_ap s) \<noteq> None \<and> (\<forall>i < length (ct_execs s).
    ex_main (ct_execs s ! i) \<in> {BFinish, BUnlock, BRelease} \<longrightarrow>
      ap_state (ct_ap s) = Some zero_State \<and> ct_stateLock s = Some i)"
  using ctl_inv_reachable [OF assms]
  by (auto simp: ctl_inv_def state_ok_def locks_ok_def owns_state_def has_state_def)

section \<open>The life cycle as an abstract machine\<close>

text \<open>
  What the outside sees of the executions: the list of their statuses. It grows by a running
  execution when the latest one is not running; a stop turns the latest one, if it is not over,
  to shutting down; any execution that is not over may come to its end.
\<close>

inductive life_step :: "ExecutionStatus list \<Rightarrow> ExecutionStatus list \<Rightarrow> bool" where
  stutter: "life_step xs xs"
| start: "xs = [] \<or> last xs \<noteq> Running \<Longrightarrow> life_step xs (xs @ [Running])"
| stop: "xs \<noteq> [] \<Longrightarrow> last xs \<noteq> NotRunning \<Longrightarrow> life_step xs (xs[length xs - 1 := ShuttingDown])"
| finish: "i < length xs \<Longrightarrow> xs ! i \<noteq> NotRunning \<Longrightarrow> life_step xs (xs[i := NotRunning])"

definition life :: "ctl \<Rightarrow> ExecutionStatus list" where
  "life s = map ex_status (ct_execs s)"

lemma life_finish:
  assumes "\<forall>i < length (ct_execs s). exec_ok (ct_execs s ! i)" "i < length (ct_execs s)"
    "ex_main (ct_execs s ! i) = BFinish \<and> pc = BUnlock \<or> ex_main (ct_execs s ! i) = BFailed \<and> pc = BEnd"
  shows "life_step (life s) (life (finish_at i pc s))"
proof -
  obtain e where e: "finish_at i pc s = set_exec i (e\<lparr>ex_main := pc\<rparr>) s" "ex_status e = NotRunning"
    using finish_at_eq [OF assms] by blast
  have "ex_status (ct_execs s ! i) \<noteq> NotRunning"
    using assms by (auto simp: exec_ok_def finished_def)
  then have "life_step (life s) ((life s)[i := NotRunning])"
    using assms(2) by (intro life_step.finish) (simp_all add: life_def)
  then show ?thesis by (simp add: e life_def map_update)
qed

lemma life_refines:
  assumes "step s act s'" "ctl_inv s"
  shows "life_step (life s) (life s')"
proof -
  have ok: "\<forall>i < length (ct_execs s). exec_ok (ct_execs s ! i)" and cur: "current_ok s"
    using assms(2) by (simp_all add: ctl_inv_def)
  have same: "life_step (life s) (life (set_exec i e s))" if "ex_status e = ex_status (ct_execs s ! i)" for i e
    using that life_step.stutter [of "life s"] by (simp add: life_def map_update list_update_same_conv)
      (metis length_map list_update_beyond list_update_id not_le nth_map)
  show ?thesis
    using assms(1)
  proof (cases rule: step.cases)
    case StopCall
    show ?thesis
    proof (cases rule: Stop_cases [OF ok cur])
      case (2 k)
      have "k = length (ct_execs s) - 1" "ct_execs s \<noteq> []"
        using cur 2(1) by (auto simp: current_ok_def split: if_splits)
      then have "life_step (life s) ((life s)[k := ShuttingDown])"
        using life_step.stop [of "life s"] 2(3) by (simp add: life_def last_conv_nth)
      with 2 StopCall show ?thesis by (simp add: life_def map_update)
    qed (use StopCall life_step.stutter in simp)
  next
    case StartLaunches
    have "life s = [] \<or> last (life s) \<noteq> Running"
      using cur StartLaunches by (auto simp: current_ok_def life_def last_conv_nth)
    then show ?thesis
      using StartLaunches life_step.start by (simp add: life_def launch_def new_execution_def)
  next
    case (Finishes i)
    with life_finish [OF ok, of i BUnlock] show ?thesis by simp
  next
    case (FinishesFailed i)
    with life_finish [OF ok, of i BEnd] show ?thesis by simp
  next
    case (ContextEnds i)
    with same [of "(ct_execs s ! i)\<lparr>ex_cancelled := True\<rparr>" i] show ?thesis by simp
  qed (use life_step.stutter [of "life s"] same in \<open>auto simp: life_def split: sum.split\<close>)
qed

text \<open>No step of the abstract machine takes a status back.\<close>

lemma life_forward:
  assumes "life_step xs ys" "i < length xs"
  shows "i < length ys \<and> xs ! i \<le> ys ! i"
  using assms(1)
proof (cases rule: life_step.cases)
  case stop
  then have "xs ! i \<le> ShuttingDown" if "i = length xs - 1"
    using that by (cases "xs ! i") (simp_all add: last_conv_nth less_eq_ExecutionStatus_def)
  with stop assms(2) show ?thesis by (auto simp: nth_list_update)
next
  case (finish j)
  have "x \<le> NotRunning" for x by (cases x) (simp_all add: less_eq_ExecutionStatus_def)
  with finish assms(2) show ?thesis by (simp add: nth_list_update)
qed (use assms(2) in \<open>simp_all add: nth_append\<close>)

text \<open>
  C14: the routines refine the life cycle. Every step of the system, seen through the statuses of
  its executions, is a step of the abstract machine: a new execution starts only when the latest
  one is not running, only the latest one is ever stopped, and no execution that is over comes
  back. Each execution goes through running, shutting down and not running in this order.
\<close>

theorem refines_life_cycle:
  assumes "reachable a s" "has_state a" "step s act s'"
  shows "life_step (life s) (life s') \<and>
    (\<forall>i < length (ct_execs s). ex_status (ct_execs s ! i) \<le> ex_status (ct_execs s' ! i))"
proof -
  have life: "life_step (life s) (life s')" using assms ctl_inv_reachable life_refines by blast
  have "ex_status (ct_execs s ! i) \<le> ex_status (ct_execs s' ! i)" if "i < length (ct_execs s)" for i
    using life_forward [OF life, of i] that by (auto simp: life_def)
  with life show ?thesis by blast
qed

section \<open>Two schedules\<close>

definition exec_in :: "ExecutionStatus \<Rightarrow> bool \<Rightarrow> main_pc \<Rightarrow> child_pc \<Rightarrow> execution" where
  "exec_in st c m ch = new_execution\<lparr>ex_status := st, ex_cancelled := c, ex_main := m, ex_child := ch\<rparr>"

definition ended :: "bool \<Rightarrow> main_pc \<Rightarrow> child_pc \<Rightarrow> execution" where
  "ended c m ch = \<lparr>ex_status = NotRunning, ex_shutdown = False, ex_done = False, ex_closed = True,
     ex_cancelled = c, ex_main = m, ex_child = ch, ex_panicking = False\<rparr>"

abbreviation sys :: "Autopilot \<Rightarrow> execution list \<Rightarrow> start_pc \<Rightarrow> owner option \<Rightarrow> ctl" where
  "sys a es st l \<equiv> \<lparr>ct_ap = a, ct_execs = es,
     ct_execution = (if es = [] then None else Some (length es - 1)), ct_start = st, ct_leader = l,
     ct_stateLock = None, ct_panic = False\<rparr>"

lemmas schedule_defs = exec_in_def ended_def new_execution_def launch_def start_entry_def
  current_status_def Stop_def finish_at_def finishExecution_def initial_def Let_def

lemma schedule_locked: "reachable a (sys a [exec_in Running False BLocked UNone] SIdle (Some (Exec 0)))"
proof -
  have 1: "reachable a (sys a [] STryLock None)"
    using reachable.step [OF reachable.init step.StartCall] by (simp add: schedule_defs)
  have 2: "reachable a (sys a [] SLaunch None)"
    using reachable.step [OF 1 step.StartGivesUp] by simp
  have 3: "reachable a (sys a [exec_in Running False BTryLock UNone] SIdle None)"
    using reachable.step [OF 2 step.StartLaunches] by (simp add: schedule_defs)
  show ?thesis
    using reachable.step [OF 3 step.Locks [of 0]] by (simp add: schedule_defs)
qed

lemma schedule_running:
  assumes "runnable a"
  shows "reachable a (sys a [exec_in Running False BLoop ULoop] SIdle (Some (Exec 0)))"
proof -
  have "reachable a (sys a [exec_in Running False BLoop UTicker] SIdle (Some (Exec 0)))"
    using reachable.step [OF schedule_locked [of a] step.Spawns [of 0]] assms
    by (simp add: schedule_defs runnable_def)
  from reachable.step [OF this step.ChildTicks [of 0]] show ?thesis
    using assms by (simp add: schedule_defs runnable_def)
qed

text \<open>
  The options accept a negative interval, and an Autopilot that has one panics in the goroutines
  of its first execution.
\<close>

theorem negative_interval_panics:
  assumes "ap_updateInterval a < 0 \<or> ap_reconcileInterval a < 0"
  shows "\<exists>s. reachable a s \<and> panicked s"
proof (cases "NewTicker (ap_reconcileInterval a)")
  case True
  then have "\<not> NewTicker (ap_updateInterval a)" using assms by (auto simp: NewTicker_def)
  moreover have r: "reachable a (sys a [exec_in Running False BLoop UTicker] SIdle (Some (Exec 0)))"
    using reachable.step [OF schedule_locked [of a] step.Spawns [of 0]] True by (simp add: schedule_defs)
  ultimately have "reachable a (sys a [exec_in Running False BLoop UTicker] SIdle (Some (Exec 0))\<lparr>ct_panic := True\<rparr>)"
    using reachable.step [OF r step.ChildTicks [of 0]] by (simp add: schedule_defs)
  then show ?thesis by (fastforce simp: panicked_def)
next
  case False
  then have "reachable a (sys a [(exec_in Running False BAwaitChild UTicker)\<lparr>ex_panicking := True\<rparr>]
      SIdle (Some (Exec 0)))"
    using reachable.step [OF schedule_locked [of a] step.Spawns [of 0]] by (simp add: schedule_defs)
  then show ?thesis by (fastforce simp: panicked_def)
qed

text \<open>
  The latest execution can be over, with status \<open>NotRunning\<close> and its channel closed, while an
  earlier one is still in its loop and holds \<open>leaderLock\<close>: start, stop and start again while the
  first execution is busy, then stop the second one before it gets the lock. A further \<open>Start\<close>
  then does not find the lock free, although its comment says that nothing else should be
  running, and waits for it while it holds \<open>execLock\<close>.
\<close>

theorem not_running_but_led:
  assumes "runnable a"
  shows "\<exists>s. reachable a s \<and> current_status s = Some NotRunning \<and> IsRunning s = (NotRunning, None) \<and>
     ct_leader s = Some (Exec 0) \<and> ex_main (ct_execs s ! 0) = BLoop \<and>
     start_entry s = STryLock"
proof -
  have 1: "reachable a (sys a [exec_in ShuttingDown True BLoop ULoop] SIdle (Some (Exec 0)))"
    using reachable.step [OF schedule_running [OF assms] step.StopCall] by (simp add: schedule_defs)
  have 2: "reachable a (sys a [exec_in ShuttingDown True BLoop ULoop] SLaunch (Some (Exec 0)))"
    using reachable.step [OF 1 step.StartCall] by (simp add: schedule_defs)
  have 3: "reachable a (sys a [exec_in ShuttingDown True BLoop ULoop, exec_in Running False BTryLock UNone]
      SIdle (Some (Exec 0)))"
    using reachable.step [OF 2 step.StartLaunches] by (simp add: schedule_defs)
  have 4: "reachable a (sys a [exec_in ShuttingDown True BLoop ULoop, exec_in ShuttingDown True BTryLock UNone]
      SIdle (Some (Exec 0)))"
    using reachable.step [OF 3 step.StopCall] by (simp add: schedule_defs)
  have 5: "reachable a (sys a [exec_in ShuttingDown True BLoop ULoop, exec_in ShuttingDown True BFailed UNone]
      SIdle (Some (Exec 0)))"
    using reachable.step [OF 4 step.GivesUp [of 1]] by (simp add: schedule_defs)
  have "reachable a (sys a [exec_in ShuttingDown True BLoop ULoop, ended True BEnd UNone]
      SIdle (Some (Exec 0)))"
    using reachable.step [OF 5 step.FinishesFailed [of 1]] by (simp add: schedule_defs)
  then show ?thesis
    by (intro exI conjI, assumption) (simp_all add: schedule_defs IsRunning_def)
qed

lemma schedule_finished:
  assumes "runnable a"
  shows "reachable a (sys (a\<lparr>ap_state := Some zero_State\<rparr>) [ended True BUnlock UEnd] SIdle (Some (Exec 0))
     \<lparr>ct_stateLock := Some 0\<rparr>)"
proof -
  let ?a = "a\<lparr>ap_state := Some zero_State\<rparr>"
  have 1: "reachable a (sys a [exec_in ShuttingDown True BLoop ULoop] SIdle (Some (Exec 0)))"
    using reachable.step [OF schedule_running [OF assms] step.StopCall] by (simp add: schedule_defs)
  have 2: "reachable a (sys a [exec_in ShuttingDown True BLoop UEnd] SIdle (Some (Exec 0)))"
    using reachable.step [OF 1 step.ChildEnds [of 0]] by (simp add: schedule_defs)
  have 3: "reachable a (sys a [exec_in ShuttingDown True BAwaitChild UEnd] SIdle (Some (Exec 0)))"
    using reachable.step [OF 2 step.LoopEnds [of 0]] by (simp add: schedule_defs)
  have 4: "reachable a (sys a [exec_in ShuttingDown True BAwaitState UEnd] SIdle (Some (Exec 0)))"
    using reachable.step [OF 3 step.ChildAwaited [of 0]] by (simp add: schedule_defs)
  have 5: "reachable a (sys a [exec_in ShuttingDown True BReset UEnd] SIdle (Some (Exec 0))\<lparr>ct_stateLock := Some 0\<rparr>)"
    using reachable.step [OF 4 step.StateLocks [of 0]] by (simp add: schedule_defs)
  have 6: "reachable a (sys ?a [exec_in ShuttingDown True BFinish UEnd] SIdle (Some (Exec 0))\<lparr>ct_stateLock := Some 0\<rparr>)"
    using reachable.step [OF 5 step.Resets [of 0]] by (simp add: schedule_defs)
  show ?thesis
    using reachable.step [OF 6 step.Finishes [of 0]] by (simp add: schedule_defs)
qed

text \<open>
  Closing \<open>done\<close> is not the last thing an execution does, contrary to the comment on the
  field: there is a reachable state in which the channel is closed and the execution still holds
  both \<open>leaderLock\<close> and \<open>stateLock\<close>. A new \<open>Start\<close> at that moment tries the lock first.
\<close>

theorem done_before_unlock:
  assumes "runnable a"
  shows "\<exists>s. reachable a s \<and> ex_closed (ct_execs s ! 0) \<and> ct_leader s = Some (Exec 0) \<and>
     ct_stateLock s = Some 0 \<and> start_entry s = STryLock"
  by (rule exI, rule conjI [OF schedule_finished [OF assms]]) (simp add: schedule_defs)

section \<open>Witnesses\<close>

theorem negative_interval_panics_witness:
  "\<exists>s. reachable (New (sample_promoter no_changes) (\<lambda>_. 100) (sample_raft []) (sample_delegate sample_conf [])
     [WithUpdateInterval (- 1)]) s \<and> panicked s"
  by (rule negative_interval_panics) (simp add: New_def WithUpdateInterval_def)

theorem New_has_state_witness:
  "has_state (New (sample_promoter no_changes) (\<lambda>_. 100) (sample_raft []) (sample_delegate sample_conf [])
     [WithUpdateInterval (- 1)])"
  by (rule New_has_state) (auto simp: package_option_def)

theorem New_runnable_witness:
  "runnable (New (sample_promoter no_changes) (\<lambda>_. 100) (sample_raft []) (sample_delegate sample_conf []) [])"
  by (rule New_runnable) simp_all

lemma sample_runnable: "runnable sample_gather"
  by (simp add: runnable_defs sample_gather_def sample_env_defs DefaultUpdateInterval_def DefaultReconcileInterval_def)

lemma sample_has_state: "has_state sample_gather"
  using sample_runnable by (simp add: runnable_def)

lemmas sample_running = schedule_running [OF sample_runnable] sample_has_state

theorem one_leader_witness:
  "ct_leader (sys sample_gather [exec_in Running False BLoop ULoop] SIdle (Some (Exec 0))) = Some (Exec 0)"
  using one_leader [OF sample_running, of 0] by (simp add: exec_in_def new_execution_def)

lemma schedule_storing:
  obtains new where "reachable sample_gather
      (sys sample_gather [exec_in Running False BLoop (UStore (Some zero_State) new)] SIdle (Some (Exec 0)))"
    "new \<noteq> zero_State"
proof -
  let ?s = "sys sample_gather [exec_in Running False BLoop ULoop] SIdle (Some (Exec 0))"
  obtain new where new: "fst (nextState rev (\<lambda>_. None) sample_gather (Some zero_State) []) = Inr (Inr new)"
    using sample_update by blast
  have "new \<noteq> zero_State"
  proof
    assume "new = zero_State"
    with nextState_time [OF go_range_rev sample_gather_state, of "\<lambda>_. None" "[]" new] new sample_gather_state
    show False by (simp add: zero_State_def sample_gather_def sample_env_defs)
  qed
  have "step ?s (ChildComputes 0)
      (sys sample_gather [exec_in Running False BLoop (UStore (Some zero_State) new)] SIdle (Some (Exec 0)))"
    using step.ChildComputes [of 0 ?s rev "\<lambda>_. None" "[]" "Inr (Inr new)"] new sample_gather_state go_range_rev
    by (simp add: schedule_defs GetState_def sticky_context_def)
  from reachable.step [OF sample_running(1) this] that \<open>new \<noteq> zero_State\<close> show thesis by simp
qed

theorem no_lost_update_witness:
  "\<exists>s s' new. reachable sample_gather s \<and> ap_state (ct_ap s) = Some zero_State \<and>
     step s (ChildStores 0) s' \<and> ap_state (ct_ap s') = Some new"
proof -
  let ?e = "exec_in Running False BLoop"
  obtain new where r: "reachable sample_gather
      (sys sample_gather [?e (UStore (Some zero_State) new)] SIdle (Some (Exec 0)))"
    by (rule schedule_storing)
  have st: "step (sys sample_gather [?e (UStore (Some zero_State) new)] SIdle (Some (Exec 0))) (ChildStores 0)
      (sys (sample_gather\<lparr>ap_state := Some new\<rparr>) [?e ULoop] SIdle (Some (Exec 0)))"
    using step.ChildStores [of 0 "sys sample_gather [?e (UStore (Some zero_State) new)] SIdle (Some (Exec 0))"]
    by (simp add: schedule_defs)
  then have "ap_state sample_gather = Some zero_State \<and> ap_state (sample_gather\<lparr>ap_state := Some new\<rparr>) = Some new"
    using no_lost_update [OF r sample_running(2)] by (fastforce simp: exec_in_def)
  with r st show ?thesis by fastforce
qed

theorem executions_consistent_witness:
  "\<not> ex_closed (ct_execs (sys sample_gather [exec_in Running False BLoop ULoop] SIdle (Some (Exec 0))) ! 0)"
  using executions_consistent [OF sample_running] by (simp add: exec_in_def new_execution_def)

lemma stable_options:
  "\<forall>opt \<in> set [WithUpdateInterval 7, WithReconciliationDisabled]. package_option dflt opt"
  "\<forall>t < 0. WithUpdateInterval t \<notin> set [WithUpdateInterval 7, WithReconciliationDisabled] \<and>
     WithReconcileInterval t \<notin> set [WithUpdateInterval 7, WithReconciliationDisabled]"
  "\<forall>p. WithPromoter dflt (Some p) \<in> set [WithUpdateInterval 7, WithReconciliationDisabled] \<longrightarrow> honest_filter p"
proof -
  have eq: "ap_updateInterval (f sample_gather) = ap_updateInterval (g sample_gather) \<and>
      ap_reconcileInterval (f sample_gather) = ap_reconcileInterval (g sample_gather)"
    if "f = g" for f g :: Option
    using that by simp
  have "0 < ap_updateInterval sample_gather" "0 < ap_reconcileInterval sample_gather"
    using sample_runnable by (simp_all add: runnable_defs)
  then show "\<forall>t < 0. WithUpdateInterval t \<notin> set [WithUpdateInterval 7, WithReconciliationDisabled] \<and>
     WithReconcileInterval t \<notin> set [WithUpdateInterval 7, WithReconciliationDisabled]"
    by (auto dest!: eq simp: option_defs split: if_splits)
  let ?b = "sample_gather\<lparr>ap_promoter := StablePromoter rev (\<lambda>_. 200) (\<lambda>_. 200)\<rparr>"
  have "p = ap_promoter ?b" if "WithPromoter dflt (Some p) = WithUpdateInterval 7 \<or>
      WithPromoter dflt (Some p) = WithReconciliationDisabled" for p
  proof -
    have "ap_promoter (WithPromoter dflt (Some p) ?b) = ap_promoter ?b"
      using that by (elim disjE) (simp_all add: WithUpdateInterval_def WithReconciliationDisabled_def
          DisableReconciliation_def)
    then show ?thesis by (simp add: WithPromoter_def)
  qed
  then show "\<forall>p. WithPromoter dflt (Some p) \<in> set [WithUpdateInterval 7, WithReconciliationDisabled] \<longrightarrow> honest_filter p"
    using stable_filter.honest_filter_axioms by fastforce
qed (auto simp: package_option_def)

theorem observable_state_wf_witness:
  "\<exists>s new. reachable sample_gather s \<and> GetState (ct_ap s) = Some new \<and> new \<noteq> zero_State \<and> State_wf new"
proof -
  obtain new where r: "reachable sample_gather
      (sys sample_gather [exec_in Running False BLoop (UStore (Some zero_State) new)] SIdle (Some (Exec 0)))"
    and new: "new \<noteq> zero_State"
    by (rule schedule_storing)
  let ?s = "sys (sample_gather\<lparr>ap_state := Some new\<rparr>) [exec_in Running False BLoop ULoop] SIdle (Some (Exec 0))"
  have r: "reachable sample_gather ?s"
    using reachable.step [OF r step.ChildStores [of 0]] by (simp add: schedule_defs)
  then have "State_wf new"
    using observable_state_wf [of "[]" "sample_promoter no_changes" "\<lambda>_. 100" "sample_raft sample_srvs"
        "sample_delegate sample_conf sample_known" ?s]
    by (simp add: sample_gather_def sample_autopilot_def GetState_def)
  with r new show ?thesis by (intro exI [of _ ?s] exI [of _ new]) (simp add: GetState_def)
qed

theorem system_never_panics_witness:
  "\<exists>s. reachable (New (StablePromoter rev (\<lambda>_. 200) (\<lambda>_. 200)) (\<lambda>_. 100) (sample_raft sample_srvs)
     (sample_delegate sample_conf sample_known) [WithUpdateInterval 7, WithReconciliationDisabled]) s \<and>
     ex_main (ct_execs s ! 0) = BLoop \<and> \<not> panicked s"
proof -
  let ?a = "New (StablePromoter rev (\<lambda>_. 200) (\<lambda>_. 200)) (\<lambda>_. 100) (sample_raft sample_srvs)
     (sample_delegate sample_conf sample_known) [WithUpdateInterval 7, WithReconciliationDisabled]"
  let ?s = "sys ?a [exec_in Running False BLoop ULoop] SIdle (Some (Exec 0))"
  have r: "reachable ?a ?s"
    by (rule schedule_running) (simp add: runnable_defs New_def option_defs Let_def)
  have "\<not> panicked ?s"
    by (rule system_never_panics [OF stable_options(1,2) stable_filter.honest_filter_axioms stable_options(3) _ _ r])
      (simp_all add: sample_delegate_def sample_known_def)
  with r show ?thesis by (fastforce simp: exec_in_def)
qed

theorem IsRunning_correct_witness:
  "IsRunning (sys sample_gather [exec_in Running False BLoop ULoop] SIdle (Some (Exec 0))) = (Running, Some 0)"
  using conjunct1 [OF IsRunning_correct [OF sample_running]] by (simp add: exec_in_def new_execution_def)

theorem state_reset_witness:
  "\<exists>s. reachable sample_gather s \<and> ex_main (ct_execs s ! 0) = BUnlock \<and> ap_state (ct_ap s) = Some zero_State"
  using conjunct2 [OF state_reset [OF schedule_finished [OF sample_runnable] sample_has_state]] schedule_finished [OF sample_runnable]
  by (fastforce simp: ended_def)

theorem refines_life_cycle_witness: "life_step [] [Running]"
proof -
  have 1: "reachable sample_gather (sys sample_gather [] STryLock None)"
    using reachable.step [OF reachable.init step.StartCall] by (simp add: schedule_defs)
  have 2: "reachable sample_gather (sys sample_gather [] SLaunch None)"
    using reachable.step [OF 1 step.StartGivesUp] by simp
  have "life_step (life (sys sample_gather [] SLaunch None)) (life (launch (sys sample_gather [] SLaunch None)))"
    by (rule conjunct1 [OF refines_life_cycle [OF 2 sample_running(2) step.StartLaunches]]) simp
  then show ?thesis by (simp add: life_def launch_def new_execution_def)
qed

end
