(* ===== verification/AP_Fair.thy ===== *)
theory AP_Fair
  imports AP_Prelude
begin

text \<open>
  Infinite runs of a labelled transition system under strong fairness, and the rule by which the
  properties of the background routines show that something happens eventually. The system is a
  relation \<open>step s l s'\<close>, a parameter here.
\<close>

section \<open>Runs and fairness\<close>

text \<open>
  A run takes a step at each moment, or none (\<open>None\<close>), so that it may also stand still. It is fair
  to a label if it takes it infinitely often whenever it could take it infinitely often.
\<close>

definition is_run :: "('s \<Rightarrow> 'l \<Rightarrow> 's \<Rightarrow> bool) \<Rightarrow> (nat \<Rightarrow> 's) \<Rightarrow> (nat \<Rightarrow> 'l option) \<Rightarrow> bool" where
  "is_run step \<sigma> \<alpha> \<longleftrightarrow>
     (\<forall>n. case \<alpha> n of None \<Rightarrow> \<sigma> (Suc n) = \<sigma> n | Some l \<Rightarrow> step (\<sigma> n) l (\<sigma> (Suc n)))"

definition enabled :: "('s \<Rightarrow> 'l \<Rightarrow> 's \<Rightarrow> bool) \<Rightarrow> 's \<Rightarrow> 'l \<Rightarrow> bool" where
  "enabled step s l \<longleftrightarrow> (\<exists>s'. step s l s')"

definition infinitely_often :: "(nat \<Rightarrow> bool) \<Rightarrow> bool" where
  "infinitely_often P \<longleftrightarrow> (\<forall>n. \<exists>m \<ge> n. P m)"

definition fair :: "('s \<Rightarrow> 'l \<Rightarrow> 's \<Rightarrow> bool) \<Rightarrow> ('l \<Rightarrow> bool) \<Rightarrow> (nat \<Rightarrow> 's) \<Rightarrow> (nat \<Rightarrow> 'l option) \<Rightarrow> bool" where
  "fair step L \<sigma> \<alpha> \<longleftrightarrow>
     (\<forall>l. L l \<longrightarrow> infinitely_often (\<lambda>n. enabled step (\<sigma> n) l) \<longrightarrow> infinitely_often (\<lambda>n. \<alpha> n = Some l))"

lemma enabledI [intro]: "step s l s' \<Longrightarrow> enabled step s l"
  by (auto simp: enabled_def)

lemma run_step: "is_run step \<sigma> \<alpha> \<Longrightarrow> \<alpha> n = Some l \<Longrightarrow> step (\<sigma> n) l (\<sigma> (Suc n))"
  unfolding is_run_def by (metis option.simps(5))

text \<open>What every step keeps holds from any moment on at which it holds.\<close>

lemma run_invariant:
  assumes "is_run step \<sigma> \<alpha>" "\<And>s l s'. P s \<Longrightarrow> step s l s' \<Longrightarrow> P s'" "P (\<sigma> n)" "n \<le> m"
  shows "P (\<sigma> m)"
  using assms(4)
proof (induction m rule: dec_induct)
  case (step k)
  show ?case
  proof (cases "\<alpha> k")
    case None
    then have "\<sigma> (Suc k) = \<sigma> k" using assms(1) unfolding is_run_def by (metis option.simps(4))
    with step show ?thesis by simp
  next
    case (Some l)
    have "step (\<sigma> k) l (\<sigma> (Suc k))" using assms(1) Some by (rule run_step)
    from assms(2) [OF step.IH this] show ?thesis .
  qed
qed (rule assms(3))

lemma fairD:
  assumes "fair step L \<sigma> \<alpha>" "L l" "\<forall>M \<ge> n. \<exists>m \<ge> M. enabled step (\<sigma> m) l"
  shows "\<exists>m \<ge> N. \<alpha> m = Some l"
proof -
  have "\<exists>m \<ge> k. enabled step (\<sigma> m) l" for k
    using assms(3) [rule_format, of "max n k"] by auto
  then have "infinitely_often (\<lambda>m. enabled step (\<sigma> m) l)" by (simp add: infinitely_often_def)
  then show ?thesis using assms(1,2) by (simp add: fair_def infinitely_often_def)
qed

text \<open>Finite behaviour followed by standing still is fair if nothing it owes is possible at the end.\<close>

lemma fair_at_rest:
  assumes "\<forall>m \<ge> n. \<sigma> m = \<sigma> n" "\<forall>l. L l \<longrightarrow> \<not> enabled step (\<sigma> n) l"
  shows "fair step L \<sigma> \<alpha>"
  unfolding fair_def infinitely_often_def using assms by metis

lemma run_of_list:
  assumes "length ss = Suc (length ls)" "\<forall>n < length ls. step (ss ! n) (ls ! n) (ss ! Suc n)"
  shows "is_run step (\<lambda>n. ss ! min n (length ls)) (\<lambda>n. if n < length ls then Some (ls ! n) else None)"
  using assms by (auto simp: is_run_def min_def)

text \<open>A sequence of numbers that never grows becomes constant.\<close>

lemma settles:
  fixes f :: "nat \<Rightarrow> nat"
  assumes "\<forall>m \<ge> n. f (Suc m) \<le> f m"
  shows "\<exists>N \<ge> n. \<forall>m \<ge> N. f m = f N"
proof -
  define v where "v = (LEAST v. \<exists>m \<ge> n. f m = v)"
  have "\<exists>m \<ge> n. f m = v" unfolding v_def by (rule LeastI_ex) blast
  then obtain N where N: "N \<ge> n" "f N = v" by blast
  have "f m = f N" if "m \<ge> N" for m
  proof (rule antisym)
    show "f m \<le> f N"
      using that
    proof (induction m rule: dec_induct)
      case (step k)
      moreover have "f (Suc k) \<le> f k" using assms N(1) step(1) by simp
      ultimately show ?case by simp
    qed simp
    show "f N \<le> f m" unfolding N(2) v_def using that N(1) by (intro Least_le exI [of _ m]) simp
  qed
  with N(1) show ?thesis by blast
qed

section \<open>A rank that never grows inside a region\<close>

locale ranked =
  fixes step :: "'s \<Rightarrow> 'l \<Rightarrow> 's \<Rightarrow> bool" and inside :: "'s \<Rightarrow> bool" and rank :: "'s \<Rightarrow> nat"
  assumes rank_step: "step s l s' \<Longrightarrow> inside s \<Longrightarrow> inside s' \<Longrightarrow> rank s' \<le> rank s"
begin

lemma rank_settles:
  assumes "is_run step \<sigma> \<alpha>" "\<forall>m \<ge> n. inside (\<sigma> m)"
  shows "\<exists>N \<ge> n. \<forall>m \<ge> N. rank (\<sigma> m) = rank (\<sigma> N)"
proof (rule settles, intro allI impI)
  fix m assume m: "n \<le> m"
  show "rank (\<sigma> (Suc m)) \<le> rank (\<sigma> m)"
  proof (cases "\<alpha> m")
    case None
    then have "\<sigma> (Suc m) = \<sigma> m" using assms(1) unfolding is_run_def by (metis option.simps(4))
    then show ?thesis by simp
  next
    case (Some l)
    from rank_step [OF run_step [OF assms(1) Some]] show ?thesis using assms(2) m by simp
  qed
qed

text \<open>
  No fair run stays inside the region forever if, at each moment from which on its rank stays the
  same, there is a step owed to some routine that is possible again and again and changes the rank.
\<close>

lemma no_stay:
  assumes run: "is_run step \<sigma> \<alpha>" and fair: "fair step L \<sigma> \<alpha>" and stay: "\<forall>m \<ge> n. inside (\<sigma> m)"
    and owed: "\<And>N. n \<le> N \<Longrightarrow> (\<forall>m \<ge> N. rank (\<sigma> m) = rank (\<sigma> N)) \<Longrightarrow>
      \<exists>l. L l \<and> (\<forall>M \<ge> N. \<exists>m \<ge> M. enabled step (\<sigma> m) l) \<and>
        (\<forall>s s'. step s l s' \<longrightarrow> inside s \<longrightarrow> inside s' \<longrightarrow> rank s' \<noteq> rank s)"
  shows False
proof -
  obtain N where N: "n \<le> N" "\<forall>m \<ge> N. rank (\<sigma> m) = rank (\<sigma> N)"
    using rank_settles [OF run stay] by blast
  obtain l where l: "L l" "\<forall>M \<ge> N. \<exists>m \<ge> M. enabled step (\<sigma> m) l"
    "\<forall>s s'. step s l s' \<longrightarrow> inside s \<longrightarrow> inside s' \<longrightarrow> rank s' \<noteq> rank s"
    using owed [OF N] by blast
  obtain m where m: "N \<le> m" "\<alpha> m = Some l" using fairD [OF fair l(1,2)] by blast
  have "step (\<sigma> m) l (\<sigma> (Suc m))" using run m(2) by (rule run_step)
  moreover have "inside (\<sigma> m)" "inside (\<sigma> (Suc m))" using stay N(1) m(1) by simp_all
  ultimately have "rank (\<sigma> (Suc m)) \<noteq> rank (\<sigma> m)" using l(3) by blast
  moreover have "rank (\<sigma> (Suc m)) = rank (\<sigma> N)" "rank (\<sigma> m) = rank (\<sigma> N)"
    using N(2) [rule_format, of "Suc m"] N(2) [rule_format, of m] m(1) by linarith+
  ultimately show False by metis
qed

end

end
