(* ===== verification/AP_RunLive.thy ===== *)
theory AP_RunLive
  imports AP_RunSafe AP_Fair
begin

text \<open>
  What the running system reaches by itself: there is no deadlock, and the routines come to rest
  when nothing is asked of them.
\<close>

section \<open>Shutting down completes\<close>

text \<open>
  The steps by which the routines come to rest: everything but calls from outside and the begin
  of another round of one of the two loops.
\<close>

fun winding_down :: "action \<Rightarrow> bool" where
  "winding_down StartCall = False"
| "winding_down StopCall = False"
| "winding_down RemoveDeadCall = False"
| "winding_down AddServerCall = False"
| "winding_down (SwitchCall _) = False"
| "winding_down (ContextEnds _) = False"
| "winding_down (Reconciles _) = False"
| "winding_down (TakesToken _) = False"
| "winding_down (ChildComputes _) = False"
| "winding_down _ = True"

text \<open>The work that is left, as the number of steps to the end.\<close>

fun main_work :: "main_pc \<Rightarrow> nat" where
  "main_work BTryLock = 11"
| "main_work BFailed = 1"
| "main_work BLocked = 10"
| "main_work BLoop = 7"
| "main_work BPrune = 8"
| "main_work BAwaitChild = 6"
| "main_work BAwaitState = 5"
| "main_work BReset = 4"
| "main_work BFinish = 3"
| "main_work BUnlock = 2"
| "main_work BRelease = 1"
| "main_work BEnd = 0"

fun child_work :: "child_pc \<Rightarrow> nat" where
  "child_work UNone = 0"
| "child_work UTicker = 2"
| "child_work ULoop = 1"
| "child_work (UStore cur new) = 2"
| "child_work UEnd = 0"

definition exec_work :: "execution \<Rightarrow> nat" where
  "exec_work e = main_work (ex_main e) + child_work (ex_child e)"

fun start_work :: "start_pc \<Rightarrow> nat" where
  "start_work SIdle = 0"
| "start_work STryLock = 16"
| "start_work SUpdate = 15"
| "start_work (SStore cur new) = 14"
| "start_work SUnlock = 13"
| "start_work SLaunch = 12"

definition work :: "ctl \<Rightarrow> nat" where
  "work s = start_work (ct_start s) + sum_list (map exec_work (ct_execs s))"

lemma work_update:
  assumes "i < length xs" "exec_work e < exec_work (xs ! i)"
  shows "sum_list (map exec_work (xs[i := e])) < sum_list (map exec_work xs)"
proof -
  have "exec_work (xs ! i) \<le> sum_list (map exec_work xs)"
    using assms(1) by (intro member_le_sum_list) simp_all
  then show ?thesis using assms by (simp add: map_update sum_list_update)
qed

lemma work_decreases:
  assumes "step s act s'" "winding_down act" "ctl_inv s" "\<not> ct_panic s'"
  shows "work s' < work s"
proof -
  have ok: "\<forall>i < length (ct_execs s). exec_ok (ct_execs s ! i)" and locks: "locks_ok s"
    using assms(3) by (simp_all add: ctl_inv_def)
  show ?thesis
    using assms(1)
  proof (cases rule: step.cases)
    case StartComputes
    with assms(4) show ?thesis by (auto simp: work_def split: sum.splits)
  next
    case (Prunes i rng h r)
    with assms(4) show ?thesis
      by (auto simp: work_def exec_work_def intro!: work_update split: sum.splits)
  next
    case StartUnlocks
    then have "ct_leader s = Some Starter" using locks by (auto simp: locks_ok_def)
    with StartUnlocks show ?thesis by (simp add: work_def)
  next
    case StartLaunches
    then show ?thesis by (simp add: work_def launch_def new_execution_def exec_work_def)
  next
    case (Finishes i)
    obtain e where e: "finishExecution (ct_execs s ! i) = Inr e"
      using exec_finishes [of "ct_execs s ! i" BUnlock] ok Finishes by blast
    then have "ex_child e = ex_child (ct_execs s ! i)"
      by (auto simp: finishExecution_def split: if_splits)
    with e Finishes show ?thesis
      by (simp add: work_def finish_at_def) (intro work_update, simp_all add: exec_work_def)
  next
    case (FinishesFailed i)
    obtain e where e: "finishExecution (ct_execs s ! i) = Inr e"
      using exec_finishes [of "ct_execs s ! i" BEnd] ok FinishesFailed by blast
    then have "ex_child e = ex_child (ct_execs s ! i)"
      by (auto simp: finishExecution_def split: if_splits)
    with e FinishesFailed show ?thesis
      by (simp add: work_def finish_at_def) (intro work_update, simp_all add: exec_work_def)
  next
    case (Unlocks i)
    then have "ct_leader s = Some (Exec i)" using locks by (auto simp: locks_ok_def leads_def)
    with Unlocks show ?thesis by (simp add: work_def) (intro work_update, simp_all add: exec_work_def)
  next
    case (Spawns i)
    moreover have "ex_child (ct_execs s ! i) = UNone" using ok Spawns by (auto simp: exec_ok_def)
    ultimately show ?thesis by (auto simp: work_def exec_work_def intro!: work_update)
  next
    case (ChildTicks i)
    with assms(4) show ?thesis
      by (auto simp: work_def exec_work_def intro!: work_update split: if_splits)
  qed (use assms(2,4) in \<open>auto simp: work_def exec_work_def intro!: work_update\<close>)
qed

section \<open>Possible steps\<close>

text \<open>Whoever still holds \<open>stateLock\<close> without leading can give it back at once.\<close>

lemma state_lock_release:
  assumes "ctl_inv s" "ct_stateLock s = Some j" "ct_leader s \<noteq> Some (Exec j)"
  shows "enabled step s (Releases j)"
proof -
  have j: "j < length (ct_execs s)" "owns_state (ex_main (ct_execs s ! j))" "\<not> leads (ex_main (ct_execs s ! j))"
    using assms by (auto simp: ctl_inv_def locks_ok_def)
  then have "ex_main (ct_execs s ! j) = BRelease" by (auto simp: owns_state_def leads_def)
  with j(1) show ?thesis by (blast intro: step.Releases)
qed

text \<open>The next move of a call of \<open>Start\<close>; computing and storing a state have to wait for \<open>stateLock\<close>.\<close>

fun start_move :: "start_pc \<Rightarrow> action" where
  "start_move SIdle = StartCall"
| "start_move STryLock = StartGivesUp"
| "start_move SUpdate = StartComputes"
| "start_move (SStore cur new) = StartStores"
| "start_move SUnlock = StartUnlocks"
| "start_move SLaunch = StartLaunches"

definition updating :: "start_pc \<Rightarrow> bool" where
  "updating pc \<longleftrightarrow> start_move pc \<in> {StartComputes, StartStores}"

lemma start_move_enabled:
  assumes "ct_start s \<noteq> SIdle" "updating (ct_start s) \<longrightarrow> ct_stateLock s = None"
  shows "enabled step s (start_move (ct_start s))"
proof (cases "ct_start s")
  case SUpdate
  then show ?thesis
    using assms(2) step.StartComputes [OF _ _ go_range_id, of s "\<lambda>_. None"]
    by (auto simp: updating_def sticky_context_def)
next
  case STryLock
  then show ?thesis using step.StartGivesUp [of s] by auto
next
  case SUnlock
  show ?thesis unfolding SUnlock start_move.simps enabled_def by (rule exI, rule step.StartUnlocks [OF SUnlock])
next
  case SLaunch
  show ?thesis unfolding SLaunch start_move.simps enabled_def by (rule exI, rule step.StartLaunches [OF SLaunch])
qed (use assms step.StartStores in \<open>auto simp: updating_def\<close>)

lemma start_move_winds: "pc \<noteq> SIdle \<Longrightarrow> winding_down (start_move pc)"
  by (cases pc) simp_all

lemma updating_leads: "ctl_inv s \<Longrightarrow> updating (ct_start s) \<Longrightarrow> ct_leader s = Some Starter"
  by (cases "ct_start s") (simp_all add: updating_def ctl_inv_def locks_ok_def)

lemma start_proceeds:
  assumes "ctl_inv s" "ct_start s \<noteq> SIdle"
  shows "\<exists>act. winding_down act \<and> enabled step s act"
proof (cases "updating (ct_start s) \<longrightarrow> ct_stateLock s = None")
  case True
  from start_move_enabled [OF assms(2) this] start_move_winds [OF assms(2)] show ?thesis by blast
next
  case False
  then obtain j where j: "ct_stateLock s = Some j" "updating (ct_start s)" by auto
  have "enabled step s (Releases j)"
    using updating_leads [OF assms(1) j(2)] by (intro state_lock_release [OF assms(1) j(1)]) simp
  then show ?thesis by (intro exI [of _ "Releases j"]) simp
qed

definition main_of :: "nat \<Rightarrow> ctl \<Rightarrow> main_pc" where
  "main_of i s = ex_main (ct_execs s ! i)"

lemma prunes_possible:
  "i < length (ct_execs s) \<Longrightarrow> main_of i s = BPrune \<Longrightarrow> ct_stateLock s = None \<Longrightarrow> enabled step s (Prunes i)"
  unfolding main_of_def using step.Prunes [OF _ _ _ go_range_id] by blast

text \<open>The next move of an execution on its way to the end, and when it can be made.\<close>

fun move_of :: "nat \<Rightarrow> main_pc \<Rightarrow> action" where
  "move_of i BTryLock = GivesUp i"
| "move_of i BFailed = FinishesFailed i"
| "move_of i BLocked = Spawns i"
| "move_of i BLoop = LoopEnds i"
| "move_of i BPrune = LoopEnds i"
| "move_of i BAwaitChild = ChildAwaited i"
| "move_of i BAwaitState = StateLocks i"
| "move_of i BReset = Resets i"
| "move_of i BFinish = Finishes i"
| "move_of i BUnlock = Unlocks i"
| "move_of i BRelease = Releases i"
| "move_of i BEnd = Releases i"

definition ready :: "nat \<Rightarrow> ctl \<Rightarrow> bool" where
  "ready i s \<longleftrightarrow>
     (main_of i s \<in> {BFailed, BFinish} \<longrightarrow> ct_start s = SIdle) \<and>
     (main_of i s = BAwaitChild \<longrightarrow> ex_child (ct_execs s ! i) = UEnd) \<and>
     (main_of i s = BAwaitState \<longrightarrow> ct_stateLock s = None) \<and>
     main_of i s \<noteq> BPrune"

lemma ready_enabled:
  assumes "i < length (ct_execs s)" "ex_cancelled (ct_execs s ! i)" "main_of i s \<noteq> BEnd" "ready i s"
  shows "enabled step s (move_of i (main_of i s))"
  using assms step.GivesUp [OF assms(1)] step.FinishesFailed [OF assms(1)] step.Spawns [OF assms(1)]
    step.LoopEnds [OF assms(1)] step.ChildAwaited [OF assms(1)] step.StateLocks [OF assms(1)]
    step.Resets [OF assms(1)] step.Finishes [OF assms(1)] step.Unlocks [OF assms(1)] step.Releases [OF assms(1)]
  unfolding main_of_def ready_def by (cases "ex_main (ct_execs s ! i)") auto

lemma not_leading_holder:
  assumes "ctl_inv s" "i < length (ct_execs s)" "main_of i s \<in> {BPrune, BAwaitChild, BAwaitState}"
    "ct_stateLock s = Some j"
  shows "ct_leader s \<noteq> Some (Exec j)"
proof -
  have "leads (ex_main (ct_execs s ! i))" "\<not> owns_state (ex_main (ct_execs s ! i))"
    using assms(3) by (auto simp: main_of_def leads_def owns_state_def)
  then have "ct_leader s = Some (Exec i)" "ct_stateLock s \<noteq> Some i"
    using assms(1,2) by (simp_all add: ctl_inv_def locks_ok_def)
  then show ?thesis using assms(4) by auto
qed

lemma state_lock_waits:
  assumes "ctl_inv s" "i < length (ct_execs s)" "main_of i s \<in> {BPrune, BAwaitChild, BAwaitState}"
    "ct_stateLock s \<noteq> None"
  shows "\<exists>act. winding_down act \<and> enabled step s act"
proof -
  obtain j where j: "ct_stateLock s = Some j" using assms(4) by blast
  have "enabled step s (Releases j)"
    using assms(1) j not_leading_holder [OF assms(1-3) j] by (rule state_lock_release)
  then show ?thesis by (intro exI [of _ "Releases j"]) simp
qed

lemma child_proceeds:
  assumes "ctl_inv s" "i < length (ct_execs s)" "ex_cancelled (ct_execs s ! i)" "main_of i s = BAwaitChild"
    "ex_child (ct_execs s ! i) \<noteq> UEnd"
  shows "\<exists>act. winding_down act \<and> enabled step s act"
proof (cases "ex_child (ct_execs s ! i)")
  case UNone
  have "exec_ok (ct_execs s ! i)" using assms(1,2) by (simp add: ctl_inv_def)
  with UNone assms(4) show ?thesis by (auto simp: exec_ok_def main_of_def)
next
  case UTicker
  from step.ChildTicks [OF assms(2) this] show ?thesis by (intro exI [of _ "ChildTicks i"]) auto
next
  case ULoop
  from step.ChildEnds [OF assms(2) this assms(3)] show ?thesis by (intro exI [of _ "ChildEnds i"]) auto
next
  case (UStore cur new)
  show ?thesis
  proof (cases "ct_stateLock s")
    case None
    from step.ChildStores [OF assms(2) UStore this] show ?thesis by (intro exI [of _ "ChildStores i"]) auto
  qed (use state_lock_waits [OF assms(1,2)] assms(4) in simp)
qed (use assms(5) in simp)

lemma move_winds: "winding_down (move_of i pc)"
  by (cases pc) simp_all

lemma execution_proceeds:
  assumes "ctl_inv s" "ct_start s = SIdle" "i < length (ct_execs s)" "ex_cancelled (ct_execs s ! i)"
    "main_of i s \<noteq> BEnd"
  shows "\<exists>act. winding_down act \<and> enabled step s act"
proof (cases "ready i s")
  case True
  from ready_enabled [OF assms(3-5) this] move_winds show ?thesis by blast
next
  case False
  then consider "main_of i s = BPrune" | "main_of i s = BAwaitChild" "ex_child (ct_execs s ! i) \<noteq> UEnd"
    | "main_of i s = BAwaitState" "ct_stateLock s \<noteq> None"
    using assms(2) by (auto simp: ready_def)
  then show ?thesis
  proof cases
    case 1
    show ?thesis
    proof (cases "ct_stateLock s")
      case None
      from prunes_possible [OF assms(3) 1 this] show ?thesis by (intro exI [of _ "Prunes i"]) simp
    qed (use state_lock_waits [OF assms(1,3)] 1 in simp)
  next
    case 2
    with child_proceeds [OF assms(1,3,4)] show ?thesis by simp
  next
    case 3
    with state_lock_waits [OF assms(1,3)] show ?thesis by simp
  qed
qed

section \<open>Deadlock and termination\<close>

text \<open>
  C24: there is no deadlock. As long as a call of \<open>Start\<close> is in progress or an execution with a
  cancelled context has not come to its end, some goroutine can take a step towards the end, and
  every such step that does not panic reduces the work that is left, so that only finitely many of
  them can follow each other.
\<close>

theorem no_deadlock:
  assumes "reachable a s" "has_state a"
  shows "(ct_start s \<noteq> SIdle \<or>
      (\<exists>i < length (ct_execs s). ex_cancelled (ct_execs s ! i) \<and> ex_main (ct_execs s ! i) \<noteq> BEnd) \<longrightarrow>
      (\<exists>act s'. winding_down act \<and> step s act s')) \<and>
    (\<forall>act s'. winding_down act \<and> step s act s' \<and> \<not> ct_panic s' \<longrightarrow> work s' < work s)"
  using ctl_inv_reachable [OF assms] start_proceeds execution_proceeds work_decreases
  unfolding enabled_def main_of_def by metis

definition winding_step :: "ctl \<Rightarrow> ctl \<Rightarrow> bool" where
  "winding_step s s' \<longleftrightarrow> \<not> ct_panic s \<and> (\<exists>act. winding_down act \<and> step s act s')"

text \<open>No step takes back a cancellation or reopens a channel.\<close>

lemma step_monotone:
  assumes "step s act s'" "ctl_inv s" "i < length (ct_execs s)"
  shows "i < length (ct_execs s') \<and> (ex_cancelled (ct_execs s ! i) \<longrightarrow> ex_cancelled (ct_execs s' ! i))"
proof -
  have ok: "\<forall>i < length (ct_execs s). exec_ok (ct_execs s ! i)" and cur: "current_ok s"
    using assms(2) by (simp_all add: ctl_inv_def)
  show ?thesis
    using assms(1)
  proof (cases rule: step.cases)
    case StopCall
    with assms(3) show ?thesis
      by (cases rule: Stop_cases [OF ok cur]) (simp_all add: nth_list_update)
  next
    case StartLaunches
    with assms(3) show ?thesis by (simp add: launch_def nth_append)
  next
    case (Finishes j)
    with assms(3) show ?thesis
      by (auto simp: finish_at_def finishExecution_def nth_list_update)
  next
    case (FinishesFailed j)
    with assms(3) show ?thesis
      by (auto simp: finish_at_def finishExecution_def nth_list_update)
  qed (use assms(3) in \<open>auto simp: nth_list_update split: sum.split\<close>)
qed

lemma winding_reachable:
  assumes "winding_step\<^sup>*\<^sup>* s s'" "reachable a s" "has_state a"
  shows "reachable a s' \<and> (\<forall>i < length (ct_execs s). i < length (ct_execs s') \<and>
    (ex_cancelled (ct_execs s ! i) \<longrightarrow> ex_cancelled (ct_execs s' ! i)))"
  using assms(1)
proof (induction rule: rtranclp_induct)
  case (step t u)
  then obtain act where st: "step t act u" "\<not> ct_panic t" by (auto simp: winding_step_def)
  have "ctl_inv t" using step(3) assms(3) ctl_inv_reachable by blast
  with step(3) step_monotone [OF st(1)] reachable.step [OF _ st] show ?case by blast
qed (use assms(2) in simp)

lemma winding_wf:
  assumes "has_state a"
  shows "wf {(s', s). reachable a s \<and> winding_step s s'}"
proof (rule wf_subset [OF wf_measure [of "\<lambda>s. if ct_panic s then 0 else Suc (work s)"]], safe)
  fix s s' assume s: "reachable a s" "winding_step s s'"
  then obtain act where "winding_down act" "step s act s'" "\<not> ct_panic s" by (auto simp: winding_step_def)
  moreover have "ctl_inv s" using s(1) assms by (rule ctl_inv_reachable)
  ultimately show "(s', s) \<in> measure (\<lambda>s. if ct_panic s then 0 else Suc (work s))"
    using work_decreases by simp
qed

lemma at_rest:
  assumes "reachable a s" "has_state a" "\<nexists>t. winding_step s t" "\<not> ct_panic s"
  shows "ct_start s = SIdle"
    "\<forall>i < length (ct_execs s). ex_cancelled (ct_execs s ! i) \<longrightarrow> ex_main (ct_execs s ! i) = BEnd \<and> ex_closed (ct_execs s ! i)"
proof -
  have inv: "ctl_inv s" using assms(1,2) by (rule ctl_inv_reachable)
  show idle: "ct_start s = SIdle"
    using start_proceeds [OF inv] assms(3,4) by (auto simp: winding_step_def enabled_def)
  have "ex_main (ct_execs s ! i) = BEnd \<and> ex_closed (ct_execs s ! i)"
    if "i < length (ct_execs s)" "ex_cancelled (ct_execs s ! i)" for i
  proof -
    have "ex_main (ct_execs s ! i) = BEnd"
      using execution_proceeds [OF inv idle that] assms(3,4) by (auto simp: winding_step_def enabled_def main_of_def)
    moreover have "exec_ok (ct_execs s ! i)" using inv that(1) by (simp add: ctl_inv_def)
    ultimately show ?thesis by (simp add: exec_ok_def finished_def)
  qed
  then show "\<forall>i < length (ct_execs s). ex_cancelled (ct_execs s ! i) \<longrightarrow>
      ex_main (ct_execs s ! i) = BEnd \<and> ex_closed (ct_execs s ! i)" by blast
qed

text \<open>
  C13: winding down terminates, whether or not something panics. In an Autopilot that has a state,
  as every one that \<open>New\<close> builds, no infinite sequence of steps without a call from outside or
  another round exists; and wherever such a sequence ends, either the process has ended in a panic,
  or no call of \<open>Start\<close> is in progress and every execution whose context was cancelled, by \<open>Stop\<close>
  or from outside, has ended, with its channel closed.
\<close>

theorem winding_terminates:
  assumes "has_state a"
  shows "wf {(s', s). reachable a s \<and> winding_step s s'} \<and>
    (\<forall>s s'. reachable a s \<and> winding_step\<^sup>*\<^sup>* s s' \<and> (\<nexists>t. winding_step s' t) \<longrightarrow>
      ct_panic s' \<or>
      ct_start s' = SIdle \<and>
      (\<forall>i < length (ct_execs s). ex_cancelled (ct_execs s ! i) \<longrightarrow>
        ex_main (ct_execs s' ! i) = BEnd \<and> ex_closed (ct_execs s' ! i)))"
proof (intro conjI winding_wf [OF assms] allI impI disjCI)
  fix s s' assume "reachable a s \<and> winding_step\<^sup>*\<^sup>* s s' \<and> (\<nexists>t. winding_step s' t)"
    and ne: "\<not> (ct_start s' = SIdle \<and>
      (\<forall>i < length (ct_execs s). ex_cancelled (ct_execs s ! i) \<longrightarrow>
        ex_main (ct_execs s' ! i) = BEnd \<and> ex_closed (ct_execs s' ! i)))"
  then have w: "reachable a s" "winding_step\<^sup>*\<^sup>* s s'" "\<nexists>t. winding_step s' t" by blast+
  note r = winding_reachable [OF w(2,1) assms]
  show "ct_panic s'"
    using at_rest [OF conjunct1 [OF r] assms w(3)] conjunct2 [OF r] ne by blast
qed

text \<open>
  In particular stopping can complete if nothing panics: from every reachable state the routines
  can go on by themselves until no call of \<open>Start\<close> is in progress and the channel of every
  execution whose context was cancelled is closed.
\<close>

theorem stop_completes:
  assumes "reachable a s" "sound a"
  shows "\<exists>s'. winding_step\<^sup>*\<^sup>* s s' \<and> ct_start s' = SIdle \<and>
    (\<forall>i < length (ct_execs s). ex_cancelled (ct_execs s ! i) \<longrightarrow> ex_closed (ct_execs s' ! i))"
proof -
  note hs = sound_state [OF assms(2)]
  have "\<exists>s'. winding_step\<^sup>*\<^sup>* s s' \<and> (\<nexists>t. winding_step s' t)"
    using assms(1)
  proof (induction s rule: wf_induct_rule [OF winding_wf [OF hs]])
    case (1 s)
    show ?case
    proof (cases "\<exists>t. winding_step s t")
      case True
      then obtain t where t: "winding_step s t" ..
      then have "reachable a t" using 1(2) reachable.step by (auto simp: winding_step_def)
      with 1 t show ?thesis by (blast intro: converse_rtranclp_into_rtranclp)
    qed blast
  qed
  then obtain s' where s': "winding_step\<^sup>*\<^sup>* s s'" "\<nexists>t. winding_step s' t" by blast
  note r = winding_reachable [OF s'(1) assms(1) hs]
  have "\<not> ct_panic s'" using reachable_no_panic [OF conjunct1 [OF r] assms(2)] by (simp add: panicked_def)
  note e = at_rest [OF conjunct1 [OF r] hs s'(2) this]
  have "ex_closed (ct_execs s' ! i)" if "i < length (ct_execs s)" "ex_cancelled (ct_execs s ! i)" for i
    using e(2) conjunct2 [OF r] that by blast
  then show ?thesis using s'(1) e(1) by blast
qed

section \<open>Witnesses\<close>

theorem no_deadlock_witness:
  "\<exists>s. reachable sample_gather s \<and> (\<exists>act s'. winding_down act \<and> step s act s')"
proof -
  have r: "reachable sample_gather (sys sample_gather [exec_in ShuttingDown True BLoop ULoop] SIdle (Some (Exec 0)))"
    using reachable.step [OF sample_running(1) step.StopCall] by (simp add: schedule_defs)
  from conjunct1 [OF no_deadlock [OF r sample_running(2)]] r show ?thesis
    by (fastforce simp: exec_in_def)
qed

lemma sample_sound: "sound sample_gather"
proof -
  have "prune_safe sample_gather"
    by (rule honest_filter.keeps_prune_safe [where p = "sample_promoter no_changes"], unfold_locales)
      (simp_all add: sample_gather_def sample_env_defs sample_known_def always_configured_def)
  then show ?thesis using sample_runnable by (simp add: sound_def)
qed

theorem winding_terminates_witness:
  "\<exists>s s'. reachable sample_gather s \<and> winding_step s s' \<and> (s', s) \<in> {(s', s). reachable sample_gather s \<and> winding_step s s'} \<and>
     wf {(s', s). reachable sample_gather s \<and> winding_step s s'}"
proof -
  have r: "reachable sample_gather (sys sample_gather [exec_in ShuttingDown True BLoop ULoop] SIdle (Some (Exec 0)))"
    using reachable.step [OF sample_running(1) step.StopCall] by (simp add: schedule_defs)
  have "winding_step (sys sample_gather [exec_in ShuttingDown True BLoop ULoop] SIdle (Some (Exec 0)))
      (sys sample_gather [exec_in ShuttingDown True BLoop UEnd] SIdle (Some (Exec 0)))"
    using step.ChildEnds [of 0 "sys sample_gather [exec_in ShuttingDown True BLoop ULoop] SIdle (Some (Exec 0))"]
    unfolding winding_step_def by (intro conjI exI [of _ "ChildEnds 0"]) (simp_all add: schedule_defs)
  with r winding_terminates [OF sample_has_state] show ?thesis by blast
qed

theorem stop_completes_witness:
  "\<exists>s s'. reachable sample_gather s \<and> winding_step\<^sup>*\<^sup>* s s' \<and> ex_cancelled (ct_execs s ! 0) \<and> ex_closed (ct_execs s' ! 0)"
proof -
  have r: "reachable sample_gather (sys sample_gather [exec_in ShuttingDown True BLoop ULoop] SIdle (Some (Exec 0)))"
    using reachable.step [OF sample_running(1) step.StopCall] by (simp add: schedule_defs)
  from stop_completes [OF r sample_sound] r show ?thesis
    by (fastforce simp: exec_in_def)
qed

end
