(* ===== verification/AP_RunFair.thy ===== *)
theory AP_RunFair
  imports AP_RunLive
begin

text \<open>
  What the running system reaches under fair scheduling, whatever clients do meanwhile: every call
  of \<open>Start\<close> returns, and every execution whose context is cancelled comes to its end. The locale
  \<open>ranked\<close> is interpreted twice, for an execution on its way to the end and for a call of \<open>Start\<close>.
\<close>

section \<open>Fair schedules\<close>

text \<open>
  A fair run of the system in which the process never ends in a panic: it starts in any reachable
  state and is fair to every step by which the routines come to rest. Calls from outside and rounds
  of the loops may come at any time, or not at all.
\<close>

definition fair_run :: "Autopilot \<Rightarrow> (nat \<Rightarrow> ctl) \<Rightarrow> (nat \<Rightarrow> action option) \<Rightarrow> bool" where
  "fair_run a \<sigma> \<alpha> \<longleftrightarrow> has_state a \<and> reachable a (\<sigma> 0) \<and> is_run step \<sigma> \<alpha> \<and> fair step winding_down \<sigma> \<alpha> \<and>
     (\<forall>n. \<not> ct_panic (\<sigma> n))"

lemma fair_run_states:
  assumes "fair_run a \<sigma> \<alpha>"
  shows "reachable a (\<sigma> n)" "ctl_inv (\<sigma> n)" "\<not> ct_panic (\<sigma> n)"
proof -
  have a: "has_state a" "reachable a (\<sigma> 0)" "is_run step \<sigma> \<alpha>" "\<not> ct_panic (\<sigma> m)" for m
    using assms by (simp_all add: fair_run_def)
  show "\<not> ct_panic (\<sigma> n)" by (rule a(4))
  show r: "reachable a (\<sigma> n)"
  proof (induction n)
    case (Suc n)
    show ?case
    proof (cases "\<alpha> n")
      case None
      then have "\<sigma> (Suc n) = \<sigma> n" using a(3) unfolding is_run_def by (metis option.simps(4))
      with Suc show ?thesis by simp
    next
      case (Some l)
      from reachable.step [OF Suc run_step [OF a(3) Some] a(4)] show ?thesis .
    qed
  qed (rule a(2))
  show "ctl_inv (\<sigma> n)" using r a(1) by (rule ctl_inv_reachable)
qed

text \<open>The rank of an execution: a round of its loop does not change it.\<close>

fun rank_of :: "main_pc \<Rightarrow> nat" where
  "rank_of BTryLock = 11"
| "rank_of BFailed = 10"
| "rank_of BLocked = 9"
| "rank_of BLoop = 8"
| "rank_of BPrune = 8"
| "rank_of BAwaitChild = 7"
| "rank_of BAwaitState = 6"
| "rank_of BReset = 5"
| "rank_of BFinish = 4"
| "rank_of BUnlock = 3"
| "rank_of BRelease = 2"
| "rank_of BEnd = 1"

definition rank :: "nat \<Rightarrow> ctl \<Rightarrow> nat" where
  "rank i s = rank_of (main_of i s)"

text \<open>The steps that an execution takes once on its way to the end.\<close>

definition moves :: "nat \<Rightarrow> action set" where
  "moves i = {Locks i, GivesUp i, Spawns i, LoopEnds i, ChildAwaited i, StateLocks i, Resets i,
     Finishes i, Unlocks i, Releases i, FinishesFailed i}"

definition ending :: "nat \<Rightarrow> ctl \<Rightarrow> bool" where
  "ending i s \<longleftrightarrow> ctl_inv s \<and> \<not> ct_panic s \<and> i < length (ct_execs s) \<and>
     ex_cancelled (ct_execs s ! i) \<and> main_of i s \<noteq> BEnd"

lemma finish_main:
  assumes "ctl_inv s" "i < length (ct_execs s)"
    and "ex_main (ct_execs s ! i) = BFinish \<and> pc = BUnlock \<or> ex_main (ct_execs s ! i) = BFailed \<and> pc = BEnd"
  shows "main_of j (finish_at i pc s) = (if j = i then pc else main_of j s)"
proof -
  have "\<forall>i < length (ct_execs s). exec_ok (ct_execs s ! i)" using assms(1) by (simp add: ctl_inv_def)
  then obtain e where "finish_at i pc s = set_exec i (e\<lparr>ex_main := pc\<rparr>) s"
    using assms(2,3) by (rule finish_at_eq)
  then show ?thesis using assms(2) by (simp add: main_of_def nth_list_update)
qed

lemma Stop_main:
  assumes "ctl_inv s" "j < length (ct_execs s)"
  shows "main_of j (Stop s) = main_of j s"
proof -
  have "\<forall>i < length (ct_execs s). exec_ok (ct_execs s ! i)" "current_ok s"
    using assms(1) by (simp_all add: ctl_inv_def)
  then show ?thesis
    by (cases rule: Stop_cases) (simp_all add: main_of_def nth_list_update)
qed

lemma rank_le:
  assumes "step s act s'" "ctl_inv s" "j < length (ct_execs s)"
  shows "rank j s' \<le> rank j s"
  using assms(1)
proof (cases rule: step.cases)
  case (Finishes i)
  with finish_main [OF assms(2), of i BUnlock j] show ?thesis by (simp add: rank_def main_of_def)
next
  case (FinishesFailed i)
  with finish_main [OF assms(2), of i BEnd j] show ?thesis by (simp add: rank_def main_of_def)
next
  case StopCall
  with Stop_main [OF assms(2,3)] show ?thesis by (simp add: rank_def)
next
  case StartLaunches
  with assms(3) show ?thesis by (simp add: rank_def main_of_def launch_def nth_append)
qed (use assms(3) in \<open>auto simp: rank_def main_of_def nth_list_update split: sum.split\<close>)

lemma moves_change:
  assumes "step s act s'" "act \<in> moves i" "ctl_inv s" "\<not> ct_panic s'"
  shows "rank i s' \<noteq> rank i s"
  using assms(1)
proof (cases rule: step.cases)
  case (Finishes j)
  with assms(2) finish_main [OF assms(3), of j BUnlock i] show ?thesis
    by (simp add: moves_def rank_def main_of_def)
next
  case (FinishesFailed j)
  with assms(2) finish_main [OF assms(3), of j BEnd i] show ?thesis
    by (simp add: moves_def rank_def main_of_def)
next
  case (Unlocks j)
  then have "ct_leader s = Some (Exec j)" using assms(3) by (auto simp: ctl_inv_def locks_ok_def leads_def)
  with Unlocks assms(2) show ?thesis by (simp add: moves_def rank_def main_of_def)
qed (use assms(2,4) in \<open>auto simp: moves_def rank_def main_of_def split: if_splits\<close>)

interpretation coming_to_end: ranked step "ending i" "rank i" for i
  by unfold_locales (simp add: ending_def rank_le)

text \<open>The same for a call of \<open>Start\<close>.\<close>

definition starting :: "ctl \<Rightarrow> bool" where
  "starting s \<longleftrightarrow> ctl_inv s \<and> \<not> ct_panic s \<and> ct_start s \<noteq> SIdle"

lemma same_start [simp]: "ct_start (Stop s) = ct_start s" "ct_start (finish_at i pc s) = ct_start s"
  by (simp_all add: Stop_def finish_at_def Let_def split: option.split sum.split)

interpretation start_returns: ranked step starting "\<lambda>s. start_work (ct_start s)"
proof
  fix s l s' assume "step s l s'" "starting s" "starting s'"
  then show "start_work (ct_start s') \<le> start_work (ct_start s)"
    by (cases rule: step.cases) (auto simp: starting_def launch_def split: sum.split option.split)
qed

lemma same_start_move: "start_work pc = start_work pc' \<Longrightarrow> start_move pc = start_move pc'"
  by (cases pc; cases pc'; simp)

lemma start_move_changes:
  assumes "step s (start_move pc) s'" "pc \<noteq> SIdle" "starting s" "starting s'"
  shows "start_work (ct_start s') \<noteq> start_work (ct_start s)"
proof -
  have "start_move pc \<in> {StartGivesUp, StartComputes, StartStores, StartUnlocks, StartLaunches}"
    using assms(2) by (cases pc) simp_all
  then obtain act where act: "act \<in> {StartGivesUp, StartComputes, StartStores, StartUnlocks, StartLaunches}"
    "step s act s'" using assms(1) by blast
  from act(2) show ?thesis
  proof (cases rule: step.cases)
    case StartUnlocks
    then have "ct_leader s = Some Starter" using assms(3) by (auto simp: starting_def ctl_inv_def locks_ok_def)
    with StartUnlocks show ?thesis by simp
  qed (use act(1) assms(3,4) in \<open>auto simp: starting_def launch_def split: sum.splits\<close>)
qed

text \<open>\<open>stateLock\<close> becomes free again and again while no one who leads holds it.\<close>

lemma step_stateLock:
  assumes "step s act s'" "ct_stateLock s = Some j"
  shows "ct_stateLock s' = Some j \<or> ct_stateLock s' = None"
  using assms(1) by (cases rule: step.cases)
    (use assms(2) in \<open>auto simp: launch_def Stop_def finish_at_def Let_def split: sum.split option.split\<close>)

lemma state_lock_freed:
  assumes "fair_run a \<sigma> \<alpha>"
    and "\<forall>m \<ge> N. \<forall>j. ct_stateLock (\<sigma> m) = Some j \<longrightarrow> ct_leader (\<sigma> m) \<noteq> Some (Exec j)"
  shows "\<exists>m \<ge> N. ct_stateLock (\<sigma> m) = None"
proof (rule ccontr)
  assume never: "\<not> (\<exists>m \<ge> N. ct_stateLock (\<sigma> m) = None)"
  have run: "is_run step \<sigma> \<alpha>" and fair: "fair step winding_down \<sigma> \<alpha>"
    using assms(1) by (simp_all add: fair_run_def)
  obtain j where "ct_stateLock (\<sigma> N) = Some j" using never by fastforce
  have held: "ct_stateLock (\<sigma> m) = Some j" if "N \<le> m" for m
    using that
  proof (induction m rule: dec_induct)
    case (step k)
    have "ct_stateLock (\<sigma> (Suc k)) = Some j \<or> ct_stateLock (\<sigma> (Suc k)) = None"
    proof (cases "\<alpha> k")
      case None
      then have "\<sigma> (Suc k) = \<sigma> k" using run unfolding is_run_def by (metis option.simps(4))
      with step.IH show ?thesis by simp
    next
      case (Some l)
      from step_stateLock [OF run_step [OF run Some] step.IH] show ?thesis .
    qed
    then show ?case using never step(1) by (meson le_Suc_eq)
  qed fact
  have "enabled step (\<sigma> m) (Releases j)" if "N \<le> m" for m
    using state_lock_release [OF fair_run_states(2) [OF assms(1)] held [OF that]] assms(2) held [OF that] that
    by blast
  then obtain m where m: "N \<le> m" "\<alpha> m = Some (Releases j)"
    using fairD [OF fair, of "Releases j" N N] by fastforce
  have "ct_stateLock (\<sigma> (Suc m)) = None"
    using run_step [OF run m(2)] by (cases rule: step.cases) simp
  then show False using never m(1) by (meson le_Suc_eq)
qed

lemma start_move_again:
  assumes "fair_run a \<sigma> \<alpha>" "\<forall>m \<ge> N. starting (\<sigma> m) \<and> start_move (ct_start (\<sigma> m)) = l"
  shows "\<exists>m \<ge> N. enabled step (\<sigma> m) l"
proof -
  obtain m where m: "N \<le> m" "updating (ct_start (\<sigma> m)) \<longrightarrow> ct_stateLock (\<sigma> m) = None"
  proof (cases "l \<in> {StartComputes, StartStores}")
    case True
    have "ct_leader (\<sigma> m) = Some Starter" if "N \<le> m" for m
      using updating_leads [OF fair_run_states(2) [OF assms(1)]] assms(2) that True by (simp add: updating_def)
    then have "\<forall>m \<ge> N. \<forall>j. ct_stateLock (\<sigma> m) = Some j \<longrightarrow> ct_leader (\<sigma> m) \<noteq> Some (Exec j)" by simp
    from state_lock_freed [OF assms(1) this] that show thesis by blast
  next
    case False
    with that [of N] assms(2) show thesis by (auto simp: updating_def)
  qed
  then show ?thesis using start_move_enabled [of "\<sigma> m"] assms(2) by (auto simp: starting_def)
qed

lemma start_idle_again:
  assumes "fair_run a \<sigma> \<alpha>"
  shows "\<exists>m \<ge> n. ct_start (\<sigma> m) = SIdle"
proof (rule ccontr)
  assume "\<not> ?thesis"
  then have stay: "\<forall>m \<ge> n. starting (\<sigma> m)"
    using fair_run_states [OF assms] by (auto simp: starting_def)
  have run: "is_run step \<sigma> \<alpha>" and fair: "fair step winding_down \<sigma> \<alpha>"
    using assms by (simp_all add: fair_run_def)
  show False
  proof (rule start_returns.no_stay [OF run fair stay])
    fix N assume N: "n \<le> N" "\<forall>m \<ge> N. start_work (ct_start (\<sigma> m)) = start_work (ct_start (\<sigma> N))"
    let ?pc = "ct_start (\<sigma> N)"
    have same: "starting (\<sigma> m) \<and> start_move (ct_start (\<sigma> m)) = start_move ?pc" if "N \<le> m" for m
      using stay N(1) that same_start_move [OF N(2) [rule_format, OF that]] by (meson order_trans)
    have "\<exists>m \<ge> M. enabled step (\<sigma> m) (start_move ?pc)" if "N \<le> M" for M
      by (rule start_move_again [OF assms]) (use same that in \<open>meson order_trans\<close>)
    moreover have "?pc \<noteq> SIdle" using stay N(1) by (simp add: starting_def)
    ultimately show "\<exists>l. winding_down l \<and> (\<forall>M \<ge> N. \<exists>m \<ge> M. enabled step (\<sigma> m) l) \<and>
        (\<forall>s s'. step s l s' \<longrightarrow> starting s \<longrightarrow> starting s' \<longrightarrow> start_work (ct_start s') \<noteq> start_work (ct_start s))"
      using start_move_changes start_move_winds by blast
  qed
qed

text \<open>The parts of the way to the end at which an execution waits for something else.\<close>

lemma loop_returns:
  assumes "fair_run a \<sigma> \<alpha>" "\<forall>m \<ge> N. ending i (\<sigma> m) \<and> main_of i (\<sigma> m) \<in> {BLoop, BPrune}"
  shows "\<exists>m \<ge> N. main_of i (\<sigma> m) = BLoop"
proof (rule ccontr)
  assume never: "\<not> ?thesis"
  have run: "is_run step \<sigma> \<alpha>" and fair: "fair step winding_down \<sigma> \<alpha>"
    using assms(1) by (simp_all add: fair_run_def)
  have prune: "main_of i (\<sigma> m) = BPrune" "i < length (ct_execs (\<sigma> m))" "ctl_inv (\<sigma> m)" if "N \<le> m" for m
    using never assms(2) that by (auto simp: ending_def)
  have "\<exists>m \<ge> M. enabled step (\<sigma> m) (Prunes i)" if M: "N \<le> M" for M
  proof -
    have "ct_leader (\<sigma> m) \<noteq> Some (Exec j)" if "M \<le> m" "ct_stateLock (\<sigma> m) = Some j" for m j
      by (rule not_leading_holder [of _ i]) (use prune [of m] M that in auto)
    then obtain m where m: "M \<le> m" "ct_stateLock (\<sigma> m) = None"
      using state_lock_freed [OF assms(1)] by blast
    then have "enabled step (\<sigma> m) (Prunes i)" using prune [of m] M by (intro prunes_possible) simp_all
    with m(1) show ?thesis by blast
  qed
  then obtain m where m: "N \<le> m" "\<alpha> m = Some (Prunes i)"
    using fairD [OF fair, of "Prunes i" N N] by fastforce
  have "main_of i (\<sigma> (Suc m)) \<noteq> BPrune"
    using run_step [OF run m(2)] by (cases rule: step.cases) (auto simp: main_of_def split: sum.splits)
  then have "main_of i (\<sigma> (Suc m)) = BLoop" using assms(2) m(1) by (meson empty_iff insert_iff le_SucI)
  then show False using never m(1) by (meson le_Suc_eq)
qed

lemma child_leaves_ticker:
  assumes "fair_run a \<sigma> \<alpha>" "\<forall>m \<ge> N. i < length (ct_execs (\<sigma> m))"
    and no_loop: "\<forall>m \<ge> N. ex_child (ct_execs (\<sigma> m) ! i) \<noteq> ULoop"
  shows "\<exists>K \<ge> N. \<forall>m \<ge> K. ex_child (ct_execs (\<sigma> m) ! i) \<noteq> UTicker"
proof (rule ccontr)
  assume "\<not> ?thesis"
  then have "\<exists>m \<ge> K. enabled step (\<sigma> m) (ChildTicks i)" if "N \<le> K" for K
    using assms(2) that step.ChildTicks by (meson enabledI order_trans)
  moreover have run: "is_run step \<sigma> \<alpha>" and fair: "fair step winding_down \<sigma> \<alpha>"
    using assms(1) by (simp_all add: fair_run_def)
  ultimately obtain m where m: "N \<le> m" "\<alpha> m = Some (ChildTicks i)"
    using fairD [OF fair, of "ChildTicks i" N N] by fastforce
  have "ex_child (ct_execs (\<sigma> (Suc m)) ! i) = ULoop"
    using run_step [OF run m(2)] fair_run_states(3) [OF assms(1), of "Suc m"]
    by (cases rule: step.cases) (auto split: if_splits)
  then show False using no_loop m(1) by (meson le_Suc_eq)
qed

lemma child_loops_again:
  assumes "fair_run a \<sigma> \<alpha>" "\<forall>m \<ge> N. ending i (\<sigma> m) \<and> main_of i (\<sigma> m) = BAwaitChild"
    and works: "\<And>m. N \<le> m \<Longrightarrow> working (ex_child (ct_execs (\<sigma> m) ! i))"
  shows "\<exists>m \<ge> N. ex_child (ct_execs (\<sigma> m) ! i) = ULoop"
proof (rule ccontr)
  assume "\<not> ?thesis"
  then have no_loop: "\<forall>m \<ge> N. ex_child (ct_execs (\<sigma> m) ! i) \<noteq> ULoop" by blast
  have run: "is_run step \<sigma> \<alpha>" and fair: "fair step winding_down \<sigma> \<alpha>"
    using assms(1) by (simp_all add: fair_run_def)
  have i: "i < length (ct_execs (\<sigma> m))" "main_of i (\<sigma> m) = BAwaitChild" "ctl_inv (\<sigma> m)" if "N \<le> m" for m
    using assms(2) that by (simp_all add: ending_def)
  obtain M where M: "N \<le> M" "\<forall>m \<ge> M. ex_child (ct_execs (\<sigma> m) ! i) \<noteq> UTicker"
    using child_leaves_ticker [OF assms(1) _ no_loop] i(1) by blast
  have store: "\<exists>cur new. ex_child (ct_execs (\<sigma> m) ! i) = UStore cur new" if "M \<le> m" for m
  proof -
    have "N \<le> m" using M(1) that by simp
    with works [OF this] no_loop M(2) that show ?thesis by (cases "ex_child (ct_execs (\<sigma> m) ! i)") auto
  qed
  have "\<exists>m \<ge> K. enabled step (\<sigma> m) (ChildStores i)" if K: "M \<le> K" for K
  proof -
    have "ct_leader (\<sigma> m) \<noteq> Some (Exec j)" if "K \<le> m" "ct_stateLock (\<sigma> m) = Some j" for m j
      by (rule not_leading_holder [of _ i]) (use i [of m] M(1) K that in auto)
    then obtain m where "K \<le> m" "ct_stateLock (\<sigma> m) = None"
      using state_lock_freed [OF assms(1)] by blast
    with store [of m] i(1) [of m] M(1) K step.ChildStores show ?thesis by (meson enabledI order_trans)
  qed
  then obtain m where m: "M \<le> m" "\<alpha> m = Some (ChildStores i)"
    using fairD [OF fair, of "ChildStores i" M M] by fastforce
  have "ex_child (ct_execs (\<sigma> (Suc m)) ! i) = ULoop"
    using run_step [OF run m(2)] by (cases rule: step.cases) simp
  then show False using no_loop M(1) m(1) by (meson le_SucI order_trans)
qed

lemma child_ends:
  assumes "fair_run a \<sigma> \<alpha>" "\<forall>m \<ge> N. ending i (\<sigma> m) \<and> main_of i (\<sigma> m) = BAwaitChild"
  shows "\<exists>m \<ge> N. ex_child (ct_execs (\<sigma> m) ! i) = UEnd"
proof (rule ccontr)
  assume never: "\<not> ?thesis"
  have run: "is_run step \<sigma> \<alpha>" and fair: "fair step winding_down \<sigma> \<alpha>"
    using assms(1) by (simp_all add: fair_run_def)
  have i: "i < length (ct_execs (\<sigma> m))" "ex_cancelled (ct_execs (\<sigma> m) ! i)"
    "main_of i (\<sigma> m) = BAwaitChild" "ctl_inv (\<sigma> m)" if "N \<le> m" for m
    using assms(2) that by (simp_all add: ending_def)
  have works: "working (ex_child (ct_execs (\<sigma> m) ! i))" if "N \<le> m" for m
  proof -
    have "exec_ok (ct_execs (\<sigma> m) ! i)" using i(1,4) [OF that] by (simp add: ctl_inv_def)
    then have "ex_child (ct_execs (\<sigma> m) ! i) \<noteq> UNone"
      using i(3) [OF that] by (auto simp: exec_ok_def main_of_def)
    then show ?thesis using never that by (auto simp: working_def)
  qed
  have "\<exists>m \<ge> M. ex_child (ct_execs (\<sigma> m) ! i) = ULoop" if M: "N \<le> M" for M
    by (rule child_loops_again [OF assms(1)]) (use assms(2) works M order_trans in blast)+
  then have "\<exists>m \<ge> M. enabled step (\<sigma> m) (ChildEnds i)" if "N \<le> M" for M
    using i(1,2) that step.ChildEnds by (meson enabledI order_trans)
  then obtain m where m: "N \<le> m" "\<alpha> m = Some (ChildEnds i)"
    using fairD [OF fair, of "ChildEnds i" N N] by fastforce
  have "ex_child (ct_execs (\<sigma> (Suc m)) ! i) = UEnd"
    using run_step [OF run m(2)] by (cases rule: step.cases) simp
  then show False using never m(1) by (meson le_Suc_eq)
qed

lemma move_of_moves: "move_of i pc \<in> moves i"
  by (cases pc) (simp_all add: moves_def)

lemma rank_eq:
  "rank_of pc = rank_of pc' \<Longrightarrow> pc = pc' \<or> pc = BLoop \<and> pc' = BPrune \<or> pc = BPrune \<and> pc' = BLoop"
  by (cases pc; cases pc'; simp)

lemma same_move: "rank_of pc = rank_of pc' \<Longrightarrow> move_of i pc = move_of i pc'"
  using rank_eq [of pc pc'] by auto

lemma ready_again:
  assumes "fair_run a \<sigma> \<alpha>" "\<forall>m \<ge> N. ending i (\<sigma> m)" "\<forall>m \<ge> N. rank i (\<sigma> m) = rank i (\<sigma> N)"
  shows "\<exists>m \<ge> N. ready i (\<sigma> m)"
proof -
  have const: "rank_of (main_of i (\<sigma> m)) = rank_of (main_of i (\<sigma> N))" if "N \<le> m" for m
    using assms(3) that unfolding rank_def by blast
  show ?thesis
  proof (cases "main_of i (\<sigma> N) \<in> {BLoop, BPrune}")
    case True
    then have "main_of i (\<sigma> m) \<in> {BLoop, BPrune}" if "N \<le> m" for m
      using rank_eq [OF const [OF that]] by auto
    with assms(1,2) loop_returns [of a \<sigma> \<alpha> N i] obtain m where "N \<le> m" "main_of i (\<sigma> m) = BLoop" by blast
    then show ?thesis by (intro exI [of _ m]) (simp add: ready_def)
  next
    case False
    have pc: "main_of i (\<sigma> m) = main_of i (\<sigma> N)" if "N \<le> m" for m
      using rank_eq [OF const [OF that]] False by auto
    consider "main_of i (\<sigma> N) \<in> {BFailed, BFinish}" | "main_of i (\<sigma> N) = BAwaitChild"
      | "main_of i (\<sigma> N) = BAwaitState" | "main_of i (\<sigma> N) \<notin> {BFailed, BFinish, BAwaitChild, BAwaitState}"
      by blast
    then show ?thesis
    proof cases
      case 1
      obtain m where m: "N \<le> m" "ct_start (\<sigma> m) = SIdle" using start_idle_again [OF assms(1)] by blast
      with 1 pc [OF m(1)] show ?thesis by (intro exI [of _ m]) (auto simp: ready_def)
    next
      case 2
      then have "\<forall>m \<ge> N. ending i (\<sigma> m) \<and> main_of i (\<sigma> m) = BAwaitChild" using assms(2) pc by metis
      from child_ends [OF assms(1) this] obtain m where m: "N \<le> m" "ex_child (ct_execs (\<sigma> m) ! i) = UEnd" by blast
      with 2 pc [OF m(1)] show ?thesis by (intro exI [of _ m]) (simp add: ready_def)
    next
      case 3
      have "ct_leader (\<sigma> m) \<noteq> Some (Exec j)" if "N \<le> m" "ct_stateLock (\<sigma> m) = Some j" for m j
        using not_leading_holder [of "\<sigma> m" i j] assms(2) pc [OF that(1)] that 3 by (simp add: ending_def)
      then obtain m where m: "N \<le> m" "ct_stateLock (\<sigma> m) = None" using state_lock_freed [OF assms(1)] by blast
      with 3 pc [OF m(1)] show ?thesis by (intro exI [of _ m]) (simp add: ready_def)
    next
      case 4
      with False show ?thesis by (intro exI [of _ N]) (simp add: ready_def)
    qed
  qed
qed

lemma execution_ends:
  assumes "fair_run a \<sigma> \<alpha>" "i < length (ct_execs (\<sigma> n))" "ex_cancelled (ct_execs (\<sigma> n) ! i)"
  shows "\<exists>m \<ge> n. main_of i (\<sigma> m) = BEnd \<and> ex_closed (ct_execs (\<sigma> m) ! i)"
proof -
  have run: "is_run step \<sigma> \<alpha>" and fair: "fair step winding_down \<sigma> \<alpha>"
    using assms(1) by (simp_all add: fair_run_def)
  let ?P = "\<lambda>s. ctl_inv s \<and> i < length (ct_execs s) \<and> ex_cancelled (ct_execs s ! i)"
  have P: "?P (\<sigma> m)" if "n \<le> m" for m
    by (rule run_invariant [where P = ?P, OF run _ _ that])
      (use step_monotone ctl_inv_step fair_run_states(2) [OF assms(1)] assms(2,3) in blast)+
  have "\<exists>m \<ge> n. main_of i (\<sigma> m) = BEnd"
  proof (rule ccontr)
    assume "\<not> ?thesis"
    then have stay: "\<forall>m \<ge> n. ending i (\<sigma> m)"
      using P fair_run_states(3) [OF assms(1)] by (auto simp: ending_def)
    show False
    proof (rule coming_to_end.no_stay [OF run fair stay])
      fix N assume N: "n \<le> N" "\<forall>m \<ge> N. rank i (\<sigma> m) = rank i (\<sigma> N)"
      let ?l = "move_of i (main_of i (\<sigma> N))"
      have "\<exists>m \<ge> M. enabled step (\<sigma> m) ?l" if M: "N \<le> M" for M
      proof -
        have c: "rank i (\<sigma> m) = rank i (\<sigma> N)" if "M \<le> m" for m
          using N(2) [rule_format, of m] M that by linarith
        then have "\<forall>m \<ge> M. rank i (\<sigma> m) = rank i (\<sigma> M)" by (metis order_refl)
        moreover have "\<forall>m \<ge> M. ending i (\<sigma> m)" using stay N(1) M by simp
        ultimately obtain m where m: "M \<le> m" "ready i (\<sigma> m)" using ready_again [OF assms(1)] by blast
        then have "enabled step (\<sigma> m) (move_of i (main_of i (\<sigma> m)))"
          using stay N(1) M by (intro ready_enabled) (simp_all add: ending_def)
        moreover have "move_of i (main_of i (\<sigma> m)) = ?l"
          using c [OF m(1)] by (intro same_move) (simp add: rank_def)
        ultimately show ?thesis using m(1) by auto
      qed
      then show "\<exists>l. winding_down l \<and> (\<forall>M \<ge> N. \<exists>m \<ge> M. enabled step (\<sigma> m) l) \<and>
          (\<forall>s s'. step s l s' \<longrightarrow> ending i s \<longrightarrow> ending i s' \<longrightarrow> rank i s' \<noteq> rank i s)"
        using moves_change move_of_moves move_winds by (intro exI [of _ ?l]) (auto simp: ending_def)
    qed
  qed
  then obtain m where m: "n \<le> m" "main_of i (\<sigma> m) = BEnd" by blast
  have "exec_ok (ct_execs (\<sigma> m) ! i)" using P [OF m(1)] by (simp add: ctl_inv_def)
  with m show ?thesis by (auto simp: exec_ok_def finished_def main_of_def)
qed

text \<open>
  C12: under fair scheduling every call of \<open>Start\<close> returns, and every execution whose context is
  cancelled ends and closes its channel, unless the process ends in a panic. Take any infinite run
  of an Autopilot that has a state, as every one that \<open>New\<close> builds, that never forever neglects a
  step of a goroutine that is possible again and again, however many calls from outside and rounds
  of the loops it contains. Either it comes to a state in which the process has ended in a panic,
  or there is always a later moment at which no \<open>Start\<close> is in progress, and for each execution that
  is cancelled at some moment a later one at which it has ended.
\<close>

theorem fair_stop:
  assumes "has_state a" "reachable a (\<sigma> 0)" "is_run step \<sigma> \<alpha>" "fair step winding_down \<sigma> \<alpha>"
  shows "(\<exists>m. ct_panic (\<sigma> m)) \<or>
    (\<exists>m \<ge> n. ct_start (\<sigma> m) = SIdle) \<and>
    (\<forall>i < length (ct_execs (\<sigma> n)). ex_cancelled (ct_execs (\<sigma> n) ! i) \<longrightarrow>
      (\<exists>m \<ge> n. ex_main (ct_execs (\<sigma> m) ! i) = BEnd \<and> ex_closed (ct_execs (\<sigma> m) ! i)))"
proof (cases "\<exists>m. ct_panic (\<sigma> m)")
  case False
  then have "fair_run a \<sigma> \<alpha>" using assms by (simp add: fair_run_def)
  then show ?thesis
    using start_idle_again execution_ends [unfolded main_of_def] by blast
qed simp

section \<open>Witnesses\<close>

text \<open>
  An execution that is stopped before it gets the lock, while \<open>Start\<close> did not get it either; after
  its end the system stands still.
\<close>

definition sample_states :: "ctl list" where
  "sample_states =
     [sys sample_gather [] SIdle None, sys sample_gather [] STryLock None, sys sample_gather [] SLaunch None,
      sys sample_gather [exec_in Running False BTryLock UNone] SIdle None,
      sys sample_gather [exec_in ShuttingDown True BTryLock UNone] SIdle None,
      sys sample_gather [exec_in ShuttingDown True BFailed UNone] SIdle None,
      sys sample_gather [ended True BEnd UNone] SIdle None]"

definition sample_actions :: "action list" where
  "sample_actions = [StartCall, StartGivesUp, StartLaunches, StopCall, GivesUp 0, FinishesFailed 0]"

lemma sample_states_run:
  "is_run step (\<lambda>n. sample_states ! min n 6) (\<lambda>n. if n < 6 then Some (sample_actions ! n) else None)"
proof -
  let ?s = "\<lambda>n. sample_states ! n"
  have "step (?s 0) StartCall (?s 1)"
    using step.StartCall [of "?s 0"] by (simp add: sample_states_def schedule_defs)
  moreover have "step (?s 1) StartGivesUp (?s 2)"
    using step.StartGivesUp [of "?s 1" None] by (simp add: sample_states_def)
  moreover have "step (?s 2) StartLaunches (?s 3)"
    using step.StartLaunches [of "?s 2"] by (simp add: sample_states_def schedule_defs)
  moreover have "step (?s 3) StopCall (?s 4)"
    using step.StopCall [of "?s 3"] by (simp add: sample_states_def schedule_defs)
  moreover have "step (?s 4) (GivesUp 0) (?s 5)"
    using step.GivesUp [of 0 "?s 4" None] by (simp add: sample_states_def schedule_defs)
  moreover have "step (?s 5) (FinishesFailed 0) (?s 6)"
    using step.FinishesFailed [of 0 "?s 5"] by (simp add: sample_states_def schedule_defs)
  ultimately have "\<forall>n < 6. step (?s n) (sample_actions ! n) (?s (Suc n))"
    by (simp add: sample_actions_def All_less_Suc numeral_eq_Suc)
  moreover have "length sample_actions = 6" "length sample_states = Suc 6"
    by (simp_all add: sample_states_def sample_actions_def)
  ultimately show ?thesis using run_of_list [of sample_states sample_actions step] by simp
qed

lemma sample_rest:
  assumes "winding_down l"
  shows "\<not> enabled step (sample_states ! 6) l"
proof
  assume "enabled step (sample_states ! 6) l"
  then obtain s' where "step (sample_states ! 6) l s'" by (auto simp: enabled_def)
  then show False
    by (cases rule: step.cases) (use assms in \<open>auto simp: sample_states_def ended_def\<close>)
qed

theorem fair_stop_witness:
  "\<exists>\<sigma> \<alpha>. fair step winding_down \<sigma> \<alpha> \<and> ex_cancelled (ct_execs (\<sigma> 4) ! 0) \<and>
     (\<exists>m \<ge> 4. ex_main (ct_execs (\<sigma> m) ! 0) = BEnd \<and> ex_closed (ct_execs (\<sigma> m) ! 0))"
proof -
  let ?\<sigma> = "\<lambda>n. sample_states ! min n 6"
  let ?\<alpha> = "\<lambda>n. if n < 6 then Some (sample_actions ! n) else None"
  have f: "fair step winding_down ?\<sigma> ?\<alpha>"
    by (rule fair_at_rest [of 6]) (use sample_rest in \<open>simp_all add: min_def\<close>)
  have "?\<sigma> 0 = initial sample_gather" by (simp add: sample_states_def initial_def)
  then have r: "reachable sample_gather (?\<sigma> 0)" by (simp add: reachable.init)
  have "ct_execs (?\<sigma> 4) = [exec_in ShuttingDown True BTryLock UNone]" by (simp add: sample_states_def)
  moreover have "\<not> ct_panic (?\<sigma> m)" for m
  proof -
    have "?\<sigma> m \<in> set sample_states" by (rule nth_mem) (simp add: sample_states_def)
    then show ?thesis by (auto simp: sample_states_def)
  qed
  ultimately show ?thesis
    using fair_stop [OF sample_has_state r sample_states_run f, of 4] f
    by (intro exI [of _ ?\<sigma>] exI [of _ ?\<alpha>]) (simp add: exec_in_def)
qed

end
