(* ===== verification/AP_Cluster.thy ===== *)
theory AP_Cluster
  imports AP_Reconcile AP_Prune
begin

text \<open>
  What the operations that change the membership mean for the cluster. The configuration that
  raft holds is a function of the history of calls, and the only things assumed of raft are what
  its documentation says: a request that it answers without an error has been carried out
  (\<open>carried\<close>), and \<open>GetConfiguration\<close> returns the configuration as it is (\<open>raft_keeps\<close>). On top of
  the calls that AP_Raft and AP_Reconcile find, the lemmas give the configuration after a
  successful \<open>AddServer\<close>, \<open>RemoveServer\<close> and round of the default promoter. For pruning, which
  may end anywhere, a weaker assumption is enough: calls affect only the servers they name
  (\<open>raft_frames\<close>).
\<close>

section \<open>What raft promises\<close>

definition others :: "ServerID \<Rightarrow> raft_Server list \<Rightarrow> raft_Server set" where
  "others i srvs = {r \<in> set srvs. rs_ID r \<noteq> i}"

text \<open>
  The effect of a request on the configuration, before and after. A server that is added as a
  voter can be in staging for a while unless it already votes; one that is added as a non-voter
  and is already there keeps its suffrage, and only its address is updated. The application may
  change the configuration when it is told to remove a failed server or is notified of a state,
  and another leader may after a transfer; all other calls leave it alone.
\<close>

fun carried :: "call \<Rightarrow> raft_Server list \<Rightarrow> raft_Server list \<Rightarrow> bool" where
  "carried (CAddVoter i addr _ _) srvs srvs' \<longleftrightarrow>
     (\<exists>r. set srvs' = insert r (others i srvs) \<and> rs_ID r = i \<and> rs_Address r = addr \<and>
        rs_Suffrage r \<in> {raft_Voter, raft_Staging} \<and>
        (\<forall>r' \<in> set srvs. rs_ID r' = i \<and> is_voter r' \<longrightarrow> is_voter r))"
| "carried (CAddNonvoter i addr _ _) srvs srvs' \<longleftrightarrow>
     (\<exists>r. set srvs' = insert r (others i srvs) \<and> rs_ID r = i \<and> rs_Address r = addr \<and>
        (if i \<in> rs_ID ` set srvs then \<exists>r' \<in> set srvs. rs_ID r' = i \<and> rs_Suffrage r = rs_Suffrage r'
         else rs_Suffrage r = raft_Nonvoter))"
| "carried (CDemoteVoter i _ _) srvs srvs' \<longleftrightarrow>
     set srvs' = (\<lambda>r. if rs_ID r = i then r\<lparr>rs_Suffrage := raft_Nonvoter\<rparr> else r) ` set srvs"
| "carried (CRemoveServer i _ _) srvs srvs' \<longleftrightarrow> set srvs' = others i srvs"
| "carried (CLeadershipTransfer _ _) _ _ \<longleftrightarrow> True"
| "carried (CRemoveFailedServer _) _ _ \<longleftrightarrow> True"
| "carried (CNotifyState _) _ _ \<longleftrightarrow> True"
| "carried _ srvs srvs' \<longleftrightarrow> set srvs' = set srvs"

definition raft_keeps :: "Autopilot \<Rightarrow> (hist \<Rightarrow> raft_Server list) \<Rightarrow> bool" where
  "raft_keeps a cluster \<longleftrightarrow>
     (\<forall>h. conf_ok a h \<longrightarrow> conf_of a h = cluster h) \<and>
     (\<forall>h c. raft_error a h c = None \<longrightarrow> carried c (cluster h) (cluster (h @ [c])))"

lemma raft_keepsD:
  assumes "raft_keeps a cluster"
  shows "conf_ok a h \<Longrightarrow> conf_of a h = cluster h"
    and "raft_error a h c = None \<Longrightarrow> carried c (cluster h) (cluster (h @ [c]))"
  using assms by (simp_all add: raft_keeps_def)

text \<open>A sequence of requests without an error.\<close>

inductive carried_out :: "call list \<Rightarrow> raft_Server list \<Rightarrow> raft_Server list \<Rightarrow> bool" where
  nil: "carried_out [] srvs srvs"
| cons: "carried c srvs srvs1 \<Longrightarrow> carried_out cs srvs1 srvs' \<Longrightarrow> carried_out (c # cs) srvs srvs'"

inductive_cases carried_out_nilE: "carried_out [] srvs srvs'"
inductive_cases carried_out_consE: "carried_out (c # cs) srvs srvs'"

lemma carried_out_append:
  "carried_out (cs @ ds) srvs srvs' \<Longrightarrow> \<exists>srvs1. carried_out cs srvs srvs1 \<and> carried_out ds srvs1 srvs'"
proof (induction cs arbitrary: srvs)
  case (Cons c cs)
  then show ?case by (fastforce intro: carried_out.cons elim: carried_out_consE)
qed (auto intro: carried_out.nil)

lemma issue_carried_out:
  "raft_keeps a cluster \<Longrightarrow> issue a cs h = (None, h') \<Longrightarrow> h' = h @ cs \<and> carried_out cs (cluster h) (cluster h')"
proof (induction cs arbitrary: h)
  case (Cons c cs)
  then have c: "raft_error a h c = None" and cs: "issue a cs (h @ [c]) = (None, h')"
    by (auto split: option.splits)
  from Cons.IH [OF Cons.prems(1) cs] raft_keepsD(2) [OF Cons.prems(1) c] show ?case
    by (auto intro: carried_out.cons)
qed (simp add: carried_out.nil)

section \<open>Removals\<close>

lemma removals_carried_out:
  "carried_out (map rm_call ids) srvs srvs' \<Longrightarrow> set srvs' = {r \<in> set srvs. rs_ID r \<notin> set ids}"
  by (induction ids arbitrary: srvs)
    (auto simp: others_def elim!: carried_out_consE carried_out_nilE)

text \<open>
  After a successful \<open>RemoveServer\<close> the configuration is what it was without the server of that
  id, whether there was one or not.
\<close>

theorem RemoveServer_configuration:
  assumes "raft_keeps a cluster" "conf_ok a h" "RemoveServer a i h = (None, h')"
  shows "set (cluster h') = others i (cluster h)"
proof -
  have read: "set (cluster (h @ [CGetConfiguration])) = set (cluster h)"
    using raft_keepsD(2) [OF assms(1), of h CGetConfiguration] by simp
  show ?thesis
  proof (cases "i \<in> rs_ID ` set (cluster h)")
    case True
    then have "r_RemoveServer (ap_raft a) (h @ [CGetConfiguration]) i 0 0 = None"
      "h' = h @ [CGetConfiguration] @ [rm_call i]"
      using assms(2,3) by (simp_all add: RemoveServer_iff_member raft_keepsD(1) [OF assms(1)])
    with raft_keepsD(2) [OF assms(1), of "h @ [CGetConfiguration]" "rm_call i"] read show ?thesis
      by (simp add: others_def)
  next
    case False
    then have "h' = h @ [CGetConfiguration]"
      using assms(2,3) by (simp add: RemoveServer_iff_member raft_keepsD(1) [OF assms(1)])
    with False read show ?thesis by (auto simp: others_def)
  qed
qed

section \<open>AddServer\<close>

lemma removeDuplicates_issue:
  "snd (removeDuplicates a addr ids h) = snd (issue a (map rm_call ids) h) \<and>
   (fst (removeDuplicates a addr ids h) = None \<longleftrightarrow> fst (issue a (map rm_call ids) h) = None)"
  by (induction ids arbitrary: h) (auto split: option.split)

lemma removeDuplicates_None:
  "removeDuplicates a addr ids h = (None, h') \<longleftrightarrow> issue a (map rm_call ids) h = (None, h')"
  using removeDuplicates_issue [of a addr ids h] by (auto simp: prod_eq_iff)

text \<open>A successful \<open>AddServer\<close> of a new server has issued its removals and the addition.\<close>

lemma AddServer_issue:
  assumes "conf_ok a h" "\<forall>r \<in> set (conf_of a h). \<not> same_server s r"
    and "AddServer a s h = ((None, a'), h')"
  shows "issue a (map rm_call (voter_clashes s (conf_of a h) @ nonvoter_clashes s (conf_of a h)) @
    [add_call s (conf_of a h)]) (h @ [CGetConfiguration]) = (None, h')"
proof -
  let ?srvs = "conf_of a h"
  have scan: "AddServer_scan s ?srvs add_scan_zero = Some (scan_result s ?srvs add_scan_zero)"
    using assms(2) by (simp add: AddServer_scan_eq)
  have "\<exists>h1 h2. removeDuplicates a (srv_Address s) (voter_clashes s ?srvs) (h @ [CGetConfiguration]) = (None, h1) \<and>
      removeDuplicates a (srv_Address s) (nonvoter_clashes s ?srvs) h1 = (None, h2) \<and>
      raft_error a h2 (add_call s ?srvs) = None \<and> h' = h2 @ [add_call s ?srvs]"
    using assms(3) unfolding AddServer_def getRaftConfiguration_cases assms(1) option.case prod.case
      sum.case scan Let_def
    by (auto simp: scan_result_def add_scan_zero_def add_call_def split: prod.splits option.splits if_splits)
  then show ?thesis by (auto simp: removeDuplicates_None issue_append)
qed

text \<open>The configuration after the removals and the addition.\<close>

definition added_to :: "Server \<Rightarrow> raft_Server list \<Rightarrow> raft_Server \<Rightarrow> raft_Server set" where
  "added_to s srvs r = insert r {r' \<in> set srvs. rs_ID r' \<noteq> srv_ID s \<and> rs_Address r' \<noteq> srv_Address s}"

lemma clash_ids:
  assumes "distinct (map rs_ID srvs)" "r \<in> set srvs"
  shows "rs_ID r \<in> set (voter_clashes s srvs @ nonvoter_clashes s srvs) \<longleftrightarrow> address_clash s r"
  using assms by (auto simp: distinct_map inj_on_def)

text \<open>What the removal of the servers with the new server's address leaves.\<close>

lemma survivors:
  assumes "set srvs1 = {r \<in> set srvs. \<not> address_clash s r}"
  shows "rs_ID r = srv_ID s \<Longrightarrow> r \<in> set srvs1 \<longleftrightarrow> r \<in> set srvs"
    and "others (srv_ID s) srvs1 = {r' \<in> set srvs. rs_ID r' \<noteq> srv_ID s \<and> rs_Address r' \<noteq> srv_Address s}"
    and "srv_ID s \<in> rs_ID ` set srvs1 \<longleftrightarrow> srv_ID s \<in> rs_ID ` set srvs"
  unfolding assms others_def address_clash_def by auto

text \<open>
  What becomes of the suffrage of a server that is added again: it is kept, except that one in
  staging may have become a voter.
\<close>

definition suffrage_kept :: "raft_Server \<Rightarrow> raft_Server \<Rightarrow> bool" where
  "suffrage_kept r r' \<longleftrightarrow>
     (if rs_Suffrage r = raft_Staging then rs_Suffrage r' \<in> {raft_Voter, raft_Staging}
      else rs_Suffrage r' = rs_Suffrage r)"

lemma add_carried:
  assumes "distinct (map rs_ID srvs)" "set srvs1 = {r \<in> set srvs. \<not> address_clash s r}"
    and "carried (add_call s srvs) srvs1 srvs'"
  shows "\<exists>r. same_server s r \<and> set srvs' = added_to s srvs r \<and>
    (\<forall>r' \<in> set srvs. rs_ID r' = srv_ID s \<longrightarrow> suffrage_kept r' r) \<and>
    (srv_ID s \<notin> rs_ID ` set srvs \<longrightarrow> rs_Suffrage r = raft_Nonvoter)"
proof -
  have same: "r = r'" if "r \<in> set srvs" "r' \<in> set srvs" "rs_ID r = rs_ID r'" for r r'
    using assms(1) that by (auto simp: distinct_map inj_on_def)
  note keep = survivors(1) [OF assms(2)] and rest = survivors(2) [OF assms(2)] and ids = survivors(3) [OF assms(2)]
  show ?thesis
  proof (cases "\<exists>r \<in> set srvs. rs_ID r = srv_ID s \<and> rs_Suffrage r \<in> {raft_Voter, raft_Staging}")
    case True
    then obtain r0 where r0: "r0 \<in> set srvs" "rs_ID r0 = srv_ID s" "rs_Suffrage r0 \<in> {raft_Voter, raft_Staging}"
      by blast
    have "carried (CAddVoter (srv_ID s) (srv_Address s) 0 0) srvs1 srvs'"
      using assms(3) True by (simp add: add_call_def)
    then obtain r where r: "set srvs' = insert r (others (srv_ID s) srvs1)" "rs_ID r = srv_ID s"
      "rs_Address r = srv_Address s" "\<forall>r' \<in> set srvs1. rs_ID r' = srv_ID s \<and> is_voter r' \<longrightarrow> is_voter r"
      "rs_Suffrage r \<in> {raft_Voter, raft_Staging}"
      by auto
    have "suffrage_kept r' r" if "r' \<in> set srvs" "rs_ID r' = srv_ID s" for r'
    proof -
      have "r' = r0" using same [OF that(1) r0(1)] r0(2) that(2) by simp
      then show ?thesis
        using r0 r(4,5) keep [of r0] by (auto simp: suffrage_kept_def is_voter_def)
    qed
    moreover have "srv_ID s \<in> rs_ID ` set srvs" using r0 by force
    ultimately show ?thesis
      using r by (intro exI [of _ r]) (auto simp: same_server_def added_to_def rest)
  next
    case False
    have "carried (CAddNonvoter (srv_ID s) (srv_Address s) 0 0) srvs1 srvs'"
      using assms(3) unfolding add_call_def if_not_P [OF False] .
    then obtain r where r: "set srvs' = insert r (others (srv_ID s) srvs1)" "rs_ID r = srv_ID s"
      "rs_Address r = srv_Address s"
      "if srv_ID s \<in> rs_ID ` set srvs
       then \<exists>r' \<in> set srvs1. rs_ID r' = srv_ID s \<and> rs_Suffrage r = rs_Suffrage r'
       else rs_Suffrage r = raft_Nonvoter"
      by (auto simp: ids)
    have "suffrage_kept r' r" if r': "r' \<in> set srvs" "rs_ID r' = srv_ID s" for r'
    proof -
      have "srv_ID s \<in> rs_ID ` set srvs" using r' by force
      then obtain r2 where r2: "r2 \<in> set srvs1" "rs_ID r2 = srv_ID s" "rs_Suffrage r = rs_Suffrage r2"
        using r(4) by auto
      then have "r2 = r'" using keep same r' by metis
      with r2 show ?thesis by (simp add: suffrage_kept_def)
    qed
    then show ?thesis
      using r by (intro exI [of _ r]) (auto simp: same_server_def added_to_def rest)
  qed
qed

lemma add_carried_out:
  assumes "distinct (map rs_ID srvs)" "set srvs0 = set srvs"
    and "carried_out (map rm_call (voter_clashes s srvs @ nonvoter_clashes s srvs) @ [add_call s srvs]) srvs0 srvs'"
  shows "\<exists>r. same_server s r \<and> set srvs' = added_to s srvs r \<and>
    (\<forall>r' \<in> set srvs. rs_ID r' = srv_ID s \<longrightarrow> suffrage_kept r' r) \<and>
    (srv_ID s \<notin> rs_ID ` set srvs \<longrightarrow> rs_Suffrage r = raft_Nonvoter)"
proof -
  obtain srvs1 where rm: "carried_out (map rm_call (voter_clashes s srvs @ nonvoter_clashes s srvs)) srvs0 srvs1"
    and add: "carried_out [add_call s srvs] srvs1 srvs'"
    using carried_out_append [OF assms(3)] by blast
  have "set srvs1 = {r \<in> set srvs. \<not> address_clash s r}"
    unfolding removals_carried_out [OF rm] assms(2) using clash_ids [OF assms(1)] by blast
  moreover have "carried (add_call s srvs) srvs1 srvs'"
    using add by (auto elim!: carried_out_consE carried_out_nilE)
  ultimately show ?thesis by (rule add_carried [OF assms(1)])
qed

text \<open>
  C39: a successful \<open>AddServer\<close> leaves the cluster as it should. If raft does what it reports to
  have done, the configuration afterwards is the one before if the server was there already at
  this address; otherwise it holds the server at its address, no other server with its id or its
  address, and every other server unchanged. A server that was there under another address keeps
  its suffrage, except that one in staging, which \<open>AddServer\<close> asks raft to make a voter, is then in
  staging or a voter; a new one starts without a vote.
\<close>

theorem AddServer_configuration:
  assumes "raft_keeps a cluster" "conf_ok a h" "distinct (map rs_ID (cluster h))"
    and "AddServer a s h = ((None, a'), h')"
  shows "if \<exists>r \<in> set (cluster h). same_server s r then set (cluster h') = set (cluster h)
    else \<exists>r. same_server s r \<and> set (cluster h') = added_to s (cluster h) r \<and>
      (\<forall>r' \<in> set (cluster h). rs_ID r' = srv_ID s \<longrightarrow> suffrage_kept r' r) \<and>
      (srv_ID s \<notin> rs_ID ` set (cluster h) \<longrightarrow> rs_Suffrage r = raft_Nonvoter)"
proof -
  have conf: "conf_of a h = cluster h" by (rule raft_keepsD(1) [OF assms(1,2)])
  have read: "set (cluster (h @ [CGetConfiguration])) = set (cluster h)"
    using raft_keepsD(2) [OF assms(1), of h CGetConfiguration] by simp
  show ?thesis
  proof (cases "\<exists>r \<in> set (cluster h). same_server s r")
    case True
    then have "h' = h @ [CGetConfiguration]" using AddServer_early(2) [OF assms(2), of s] assms(4) conf by simp
    with True read show ?thesis by simp
  next
    case False
    then have "issue a (map rm_call (voter_clashes s (cluster h) @ nonvoter_clashes s (cluster h)) @
        [add_call s (cluster h)]) (h @ [CGetConfiguration]) = (None, h')"
      using AddServer_issue [OF assms(2) _ assms(4)] conf by simp
    from add_carried_out [OF assms(3) read conjunct2 [OF issue_carried_out [OF assms(1) this]]] False
    show ?thesis by (simp only: if_False)
  qed
qed

section \<open>Rounds of the default promoter\<close>

lemma promotions_carried_out:
  "carried_out (map promote_call vs) srvs srvs' \<Longrightarrow> distinct (map (\<lambda>v. srv_ID (ss_Server v)) vs) \<Longrightarrow>
    (\<forall>v \<in> set vs. \<exists>r \<in> set srvs'. same_server (ss_Server v) r \<and> rs_Suffrage r \<in> {raft_Voter, raft_Staging}) \<and>
    (\<forall>r. rs_ID r \<notin> (\<lambda>v. srv_ID (ss_Server v)) ` set vs \<longrightarrow> (r \<in> set srvs' \<longleftrightarrow> r \<in> set srvs)) \<and>
    (\<forall>r \<in> set srvs. is_voter r \<longrightarrow> (\<exists>r' \<in> set srvs'. rs_ID r' = rs_ID r \<and> is_voter r'))"
proof (induction vs arbitrary: srvs)
  case Nil
  then show ?case by (auto elim: carried_out_nilE)
next
  case (Cons v vs)
  from Cons.prems(1) obtain srvs1 where step: "carried (promote_call v) srvs srvs1"
    and rest: "carried_out (map promote_call vs) srvs1 srvs'"
    unfolding list.map by (rule carried_out_consE)
  from step obtain r where r: "set srvs1 = insert r (others (srv_ID (ss_Server v)) srvs)"
    "same_server (ss_Server v) r" "rs_Suffrage r \<in> {raft_Voter, raft_Staging}"
    "\<forall>r' \<in> set srvs. rs_ID r' = srv_ID (ss_Server v) \<and> is_voter r' \<longrightarrow> is_voter r"
    by (auto simp: same_server_def)
  have IH: "\<forall>v \<in> set vs. \<exists>r \<in> set srvs'. same_server (ss_Server v) r \<and> rs_Suffrage r \<in> {raft_Voter, raft_Staging}"
    "\<forall>r. rs_ID r \<notin> (\<lambda>v. srv_ID (ss_Server v)) ` set vs \<longrightarrow> (r \<in> set srvs' \<longleftrightarrow> r \<in> set srvs1)"
    "\<forall>r \<in> set srvs1. is_voter r \<longrightarrow> (\<exists>r' \<in> set srvs'. rs_ID r' = rs_ID r \<and> is_voter r')"
    using Cons.IH [OF rest] Cons.prems(2) by simp_all
  have "rs_ID r \<notin> (\<lambda>v. srv_ID (ss_Server v)) ` set vs"
    using r(2) Cons.prems(2) by (auto simp: same_server_def)
  then have "r \<in> set srvs'" using IH(2) r(1) by blast
  moreover have "\<exists>r2 \<in> set srvs1. rs_ID r2 = rs_ID r' \<and> is_voter r2" if "r' \<in> set srvs" "is_voter r'" for r'
    using that r by (cases "rs_ID r' = srv_ID (ss_Server v)") (auto simp: others_def same_server_def)
  ultimately show ?case
    using IH r by (auto simp: others_def same_server_def)
qed

text \<open>The servers of a state are filed under their own ids.\<close>

definition keyed_state :: "State \<Rightarrow> bool" where
  "keyed_state st \<longleftrightarrow> (\<forall>i v. map_of (st_Servers st) i = Some v \<longrightarrow> srv_ID (ss_Server v) = i)"

lemma promotable_ids:
  assumes "keyed_state st" "distinct ids"
  shows "distinct (map (\<lambda>v. srv_ID (ss_Server v)) (promotable st ids)) \<and>
    (\<lambda>v. srv_ID (ss_Server v)) ` set (promotable st ids) \<subseteq> set ids"
  using assms(2)
proof (induction ids)
  case (Cons i ids)
  then show ?case using assms(1)
    by (auto simp: selection_defs keyed_state_def split: option.split)
qed (simp add: selection_defs)

text \<open>
  C21: a successful round of the default promoter gives every server a vote that the state shows
  as a healthy non-voter with a \<open>StableSince\<close> as old as the stabilization time in force, and takes
  none. If raft does what it reports to
  have done, all of these servers are afterwards in its configuration at their address, as voters
  or in staging; every voter is still one, and the entries of all other servers are what they were.
\<close>

theorem stable_round_configuration:
  assumes "raft_keeps a cluster" "active_round a h conf st" "ap_promoter a = StablePromoter rng wall since"
    and "go_range rng" "gomap_wf (st_Servers st)" "keyed_state st" "representable_stabilization conf"
    and "reconcile a h = (None, h')"
  shows "(\<forall>i v. map_of (st_Servers st) i = Some v \<and>
      ready_voter (wall (h @ [CAutopilotConfig])) (since (h @ [CAutopilotConfig])) conf st v \<longrightarrow>
      (\<exists>r \<in> set (cluster h'). same_server (ss_Server v) r \<and> rs_Suffrage r \<in> {raft_Voter, raft_Staging})) \<and>
    (\<forall>r. (\<nexists>v. map_of (st_Servers st) (rs_ID r) = Some v \<and>
        ready_voter (wall (h @ [CAutopilotConfig])) (since (h @ [CAutopilotConfig])) conf st v) \<longrightarrow>
      (r \<in> set (cluster h') \<longleftrightarrow> r \<in> set (cluster h))) \<and>
    (\<forall>r \<in> set (cluster h). is_voter r \<longrightarrow> (\<exists>r' \<in> set (cluster h'). rs_ID r' = rs_ID r \<and> is_voter r'))"
proof -
  let ?h = "h @ [CAutopilotConfig]" and ?ps = "ch_Promotions (round_changes a h conf st)"
  let ?ready = "ready_voter (wall ?h) (since ?h) conf st" and ?vs = "promotable st ?ps"
  have "set (cluster (?h @ [CCalculate conf st])) = set (cluster h)"
    using raft_keepsD(2) [OF assms(1), of h CAutopilotConfig]
      raft_keepsD(2) [OF assms(1), of ?h "CCalculate conf st"] by simp
  then have start: "set (cluster (h @ [CAutopilotConfig, CCalculate conf st])) = set (cluster h)" by simp
  have plan: "round_plan st (round_changes a h conf st) = map promote_call ?vs"
    unfolding assms(3) by (rule stable_changes.plan_promotes)
  have "issue a (map promote_call ?vs) (h @ [CAutopilotConfig, CCalculate conf st]) = (None, h')"
    using reconcile_issue [OF assms(2)] assms(8) unfolding plan by (simp add: prod_eq_iff)
  from conjunct2 [OF issue_carried_out [OF assms(1) this]]
  have run: "carried_out (map promote_call ?vs) (cluster (h @ [CAutopilotConfig, CCalculate conf st])) (cluster h')" .
  have mem: "i \<in> set ?ps \<longleftrightarrow> (\<exists>v. map_of (st_Servers st) i = Some v \<and> ?ready v)" for i
    using stable_promotions_mem(2) [OF assms(4,5,7), where i = i] by (simp add: assms(3) StablePromoter_def)
  have dist: "distinct ?ps"
    using stable_promotions_mem(1) [OF assms(4,5,7)] by (simp add: assms(3) StablePromoter_def)
  note ids = promotable_ids [OF assms(6) dist]
  note result = promotions_carried_out [OF run conjunct1 [OF ids], unfolded start]
  have "v \<in> set ?vs" if "map_of (st_Servers st) i = Some v" "?ready v" for i v
    unfolding promotable_mem using that mem by (auto simp: ready_voter_def HasVotingRights_def)
  moreover have "rs_ID r \<notin> (\<lambda>v. srv_ID (ss_Server v)) ` set ?vs"
    if "\<nexists>v. map_of (st_Servers st) (rs_ID r) = Some v \<and> ?ready v" for r :: raft_Server
    using that ids mem by blast
  ultimately show ?thesis using result by blast
qed

section \<open>Pruning\<close>

text \<open>
  For pruning less is needed of raft and the application: whether a call succeeds or fails, it
  changes at most the entry of the server that it names. The application may get round to a
  removal that it is asked for at any later time.
\<close>

fun affects :: "call \<Rightarrow> raft_Server \<Rightarrow> bool" where
  "affects (CAddVoter i _ _ _) r \<longleftrightarrow> rs_ID r = i"
| "affects (CAddNonvoter i _ _ _) r \<longleftrightarrow> rs_ID r = i"
| "affects (CDemoteVoter i _ _) r \<longleftrightarrow> rs_ID r = i"
| "affects (CRemoveServer i _ _) r \<longleftrightarrow> rs_ID r = i"
| "affects (CRemoveFailedServer srv) r \<longleftrightarrow> rs_ID r = srv_ID srv"
| "affects (CLeadershipTransfer _ _) r \<longleftrightarrow> True"
| "affects (CNotifyState _) r \<longleftrightarrow> True"
| "affects _ r \<longleftrightarrow> False"

definition asked_to_leave :: "hist \<Rightarrow> raft_Server \<Rightarrow> bool" where
  "asked_to_leave h r \<longleftrightarrow> list_ex (\<lambda>c. case c of CRemoveFailedServer srv \<Rightarrow> srv_ID srv = rs_ID r | _ \<Rightarrow> False) h"

definition raft_frames :: "Autopilot \<Rightarrow> (hist \<Rightarrow> raft_Server list) \<Rightarrow> bool" where
  "raft_frames a cluster \<longleftrightarrow>
     (\<forall>h. conf_ok a h \<longrightarrow> conf_of a h = cluster h) \<and>
     (\<forall>h c r. r \<in> set (cluster h) \<and> \<not> asked_to_leave h r \<and> \<not> affects c r \<longrightarrow> r \<in> set (cluster (h @ [c])))"

lemma raft_framesD:
  assumes "raft_frames a cluster"
  shows "conf_ok a h \<Longrightarrow> conf_of a h = cluster h"
    and "r \<in> set (cluster h) \<Longrightarrow> \<not> asked_to_leave h r \<Longrightarrow> \<not> affects c r \<Longrightarrow> r \<in> set (cluster (h @ [c]))"
  using assms by (simp_all add: raft_frames_def)

lemma frame_kept:
  assumes "raft_frames a cluster" "r \<in> set (cluster h)" "\<not> asked_to_leave h r"
  shows "\<forall>c \<in> set cs. \<not> affects c r \<Longrightarrow> r \<in> set (cluster (h @ cs)) \<and> \<not> asked_to_leave (h @ cs) r"
proof (induction cs rule: rev_induct)
  case (snoc c cs)
  then have "r \<in> set (cluster ((h @ cs) @ [c]))" by (intro raft_framesD(2) [OF assms(1)]) simp_all
  moreover have "\<not> asked_to_leave ((h @ cs) @ [c]) r"
    using snoc by (auto simp: asked_to_leave_def split: call.split)
  ultimately show ?case by simp
qed (use assms in simp)

text \<open>What pruning does between reading the configuration and its end.\<close>

lemma prune_affects:
  assumes "active_prune rng a h conf failed vr" "gomap_wf (known_at a h)" "go_range rng" "min_quorum a q"
  shows "\<exists>cs vr'. snd (pruneDeadServers rng a h) = (h @ [CAutopilotConfig]) @ cs \<and> step_ok q vr cs vr' \<and>
    (\<forall>c \<in> set cs. \<forall>r. affects c r \<longrightarrow> rs_ID r \<in> removed_ids cs) \<and> set cs \<subseteq> set (calls (pruneDeadServers rng a) h)"
proof -
  obtain ds vr' where ds: "calls (pruneDeadServers rng a) h =
      [CAutopilotConfig, CGetConfiguration, CKnownServers, CFilterFailed conf (GetState a) failed] @ ds"
    "step_ok q vr ds vr'"
    "set ds \<subseteq> insert CAutopilotConfig
      (case filter_of a h conf failed of None \<Rightarrow> {} | Some f \<Rightarrow> allowed_removals f)"
    using prune_run_calls [OF assms] by blast
  let ?cs = "[CGetConfiguration, CKnownServers, CFilterFailed conf (GetState a) failed] @ ds"
  have same: "removed_ids ?cs = removed_ids ds" by (simp add: removed_ids_def)
  have "c = CAutopilotConfig \<or> (\<exists>i. c = rm_stale i) \<or> (\<exists>srv. c = CRemoveFailedServer srv)" if "c \<in> set ds" for c
    using subsetD [OF ds(3) that] by (auto split: option.splits)
  then have "rs_ID r \<in> removed_ids ds" if "c \<in> set ?cs" "affects c r" for c r
    using that by (fastforce simp: removed_ids_def)
  moreover have "snd (pruneDeadServers rng a h) = (h @ [CAutopilotConfig]) @ ?cs"
    using prunes.hist_split [of rng a h] ds(1) by simp
  moreover have "step_ok q vr ?cs vr'" using ds(2) same by (simp add: step_ok_def)
  ultimately show ?thesis using same ds(1) by (intro exI [of _ ?cs] exI [of _ vr']) auto
qed

text \<open>The members of a configuration that the application reports alive, and the potential voters.\<close>

definition alive_members :: "(ServerID, Server) gomap \<Rightarrow> raft_Server list \<Rightarrow> raft_Server set" where
  "alive_members known srvs =
     {r \<in> set srvs. \<exists>srv. map_of known (rs_ID r) = Some srv \<and> srv_NodeStatus srv = NodeAlive}"

definition potential_members :: "(NodeType \<Rightarrow> bool) \<Rightarrow> (ServerID, Server) gomap \<Rightarrow> raft_Server list \<Rightarrow> raft_Server set" where
  "potential_members pot known srvs =
     {r \<in> set srvs. \<exists>srv. map_of known (rs_ID r) = Some srv \<and> pot (srv_NodeType srv)}"

lemma pot_set_members:
  assumes "active_prune rng a h conf failed vr" "gomap_wf (known_at a h)" "go_range rng"
    and "distinct (map rs_ID (conf_of a (h @ [CAutopilotConfig])))"
  shows "pot_set vr = rs_ID ` potential_members (p_IsPotentialVoter (ap_promoter a)) (known_at a h)
    (conf_of a (h @ [CAutopilotConfig]))"
proof -
  have reg: "map_of (eligibility vr) = registered (p_IsPotentialVoter (ap_promoter a))
      (conf_of a (h @ [CAutopilotConfig])) (known_at a h)"
    using getFailedServers_result [of rng a "h @ [CAutopilotConfig]" failed vr] assms(1-3)
    by (simp add: active_prune_def)
  show ?thesis
    unfolding pot_set_def potential_members_def reg registered_def
    using raft_of_distinct [OF assms(4)] by (auto split: option.splits)
qed

lemma alive_not_removed:
  assumes "active_prune rng a h conf failed vr" "go_range rng" "keyed_by_id (known_at a h)"
    and "ap_promoter a = StablePromoter rng' wall since"
    and alive: "map_of (known_at a h) i = Some srv" "srv_NodeStatus srv = NodeAlive"
  shows "i \<notin> removed_ids (calls (pruneDeadServers rng a) h)"
proof -
  have wf: "gomap_wf (known_at a h)" using assms(3) by (simp add: keyed_by_id_def)
  note dead = removals_dead [OF assms(1) wf assms(2,4)]
  have "rm_stale i \<notin> set (calls (pruneDeadServers rng a) h)"
    using dead [of i] map_of_SomeD [OF alive(1)] by force
  moreover have "CRemoveFailedServer s \<notin> set (calls (pruneDeadServers rng a) h)" if s: "srv_ID s = i" for s
  proof
    assume "CRemoveFailedServer s \<in> set (calls (pruneDeadServers rng a) h)"
    then obtain j where j: "srv_NodeStatus s \<noteq> NodeAlive" "(j, s) \<in> set (known_at a h)"
      using dead [of _ s] by blast
    then have "j = i" using assms(3) s by (auto simp: keyed_by_id_def)
    then show False using j alive map_of_mem [OF wf] by simp
  qed
  ultimately show ?thesis by (auto simp: removed_ids_def)
qed

text \<open>Counting servers by their ids.\<close>

lemma quorum_left:
  assumes "removed \<inter> rs_ID ` members = {} \<or> q \<le> card (rs_ID ` members - removed)"
    and "\<And>r. r \<in> members \<Longrightarrow> rs_ID r \<notin> removed \<Longrightarrow> r \<in> set srvs"
  shows "members \<subseteq> set srvs \<or> q \<le> card (members \<inter> set srvs)"
  using assms(1)
proof
  assume "q \<le> card (rs_ID ` members - removed)"
  also have "\<dots> \<le> card (rs_ID ` (members \<inter> set srvs))" by (rule card_mono) (use assms(2) in auto)
  also have "\<dots> \<le> card (members \<inter> set srvs)" by (rule card_image_le) simp
  finally show ?thesis ..
qed (use assms(2) in blast)

text \<open>
  C31: pruning leaves the cluster a quorum and its living members. With the default promoter,
  whatever raft and the application answer and however the run ends, every member of the
  configuration that was read which the application reports alive is still a member, with its
  vote or without as before, and either all potential voters still are or at least MinQuorum of
  them, where MinQuorum may change meanwhile: the bound is any number that no configuration
  returned by the application is below. This rests on raft and the application changing no other entries than those they are
  asked to change, and on no earlier removal being still on its way.
\<close>

theorem prune_keeps_cluster:
  assumes "raft_frames a cluster" "active_prune rng a h conf failed vr" "go_range rng" "min_quorum a q"
    and "keyed_by_id (known_at a h)" "ap_promoter a = StablePromoter rng' wall since"
    and "distinct (map rs_ID (cluster (h @ [CAutopilotConfig])))"
    and "\<forall>r \<in> set (cluster (h @ [CAutopilotConfig])). \<not> asked_to_leave h r"
  defines "srvs \<equiv> cluster (h @ [CAutopilotConfig])" and "srvs' \<equiv> cluster (snd (pruneDeadServers rng a h))"
    and "potential \<equiv> potential_members stable_IsPotentialVoter (known_at a h) (cluster (h @ [CAutopilotConfig]))"
  shows "alive_members (known_at a h) srvs \<subseteq> set srvs' \<and>
    (potential \<subseteq> set srvs' \<or> q \<le> card (potential \<inter> set srvs'))"
proof
  let ?h = "h @ [CAutopilotConfig]"
  have wf: "gomap_wf (known_at a h)" using assms(5) by (simp add: keyed_by_id_def)
  have conf: "conf_of a ?h = srvs"
    using assms(1,2) unfolding raft_frames_def srvs_def active_prune_def
    by (auto simp: getFailedServers_def getRaftConfiguration_cases split: option.splits)
  obtain cs vr' where cs: "snd (pruneDeadServers rng a h) = ?h @ cs" "step_ok q vr cs vr'"
    "\<forall>c \<in> set cs. \<forall>r. affects c r \<longrightarrow> rs_ID r \<in> removed_ids cs"
    "set cs \<subseteq> set (calls (pruneDeadServers rng a) h)"
    using prune_affects [OF assms(2) wf assms(3,4)] by blast
  have stays: "r \<in> set srvs'" if "r \<in> set srvs" "rs_ID r \<notin> removed_ids cs" for r
    using frame_kept [OF assms(1), of r ?h cs] that cs(3) assms(8)
    by (auto simp: srvs_def srvs'_def cs(1) asked_to_leave_def)
  show "alive_members (known_at a h) srvs \<subseteq> set srvs'"
  proof
    fix r assume "r \<in> alive_members (known_at a h) srvs"
    then obtain srv where r: "r \<in> set srvs" "map_of (known_at a h) (rs_ID r) = Some srv" "srv_NodeStatus srv = NodeAlive"
      by (auto simp: alive_members_def)
    have "rs_ID r \<notin> removed_ids cs"
      using alive_not_removed [OF assms(2,3,5,6) r(2,3)] cs(4) by (auto simp: removed_ids_def)
    with stays r(1) show "r \<in> set srvs'" by blast
  qed
  have pot: "pot_set vr = rs_ID ` potential"
    using pot_set_members [OF assms(2) wf assms(3)] assms(6,7) conf
    by (simp add: potential_def srvs_def StablePromoter_def)
  have sub: "potential \<subseteq> set srvs" by (auto simp: potential_def potential_members_def srvs_def)
  show "potential \<subseteq> set srvs' \<or> q \<le> card (potential \<inter> set srvs')"
    using step_ok_quorum [OF cs(2)] sub stays unfolding pot by (intro quorum_left) auto
qed

section \<open>Witnesses\<close>

text \<open>A raft that carries out every request at once.\<close>

fun carry :: "call \<Rightarrow> raft_Server list \<Rightarrow> raft_Server list" where
  "carry (CAddVoter i addr _ _) srvs =
     \<lparr>rs_Suffrage = raft_Voter, rs_ID = i, rs_Address = addr\<rparr> # filter (\<lambda>r. rs_ID r \<noteq> i) srvs"
| "carry (CAddNonvoter i addr _ _) srvs =
     \<lparr>rs_Suffrage = (case List.find (\<lambda>r. rs_ID r = i) srvs of Some r \<Rightarrow> rs_Suffrage r | None \<Rightarrow> raft_Nonvoter),
      rs_ID = i, rs_Address = addr\<rparr> # filter (\<lambda>r. rs_ID r \<noteq> i) srvs"
| "carry (CDemoteVoter i _ _) srvs =
     map (\<lambda>r. if rs_ID r = i then r\<lparr>rs_Suffrage := raft_Nonvoter\<rparr> else r) srvs"
| "carry (CRemoveServer i _ _) srvs = filter (\<lambda>r. rs_ID r \<noteq> i) srvs"
| "carry (CRemoveFailedServer srv) srvs = filter (\<lambda>r. rs_ID r \<noteq> srv_ID srv) srvs"
| "carry _ srvs = srvs"

lemma find_id:
  "List.find (\<lambda>r. rs_ID r = i) srvs = Some r \<Longrightarrow> r \<in> set srvs \<and> rs_ID r = i"
  "List.find (\<lambda>r. rs_ID r = i) srvs = None \<Longrightarrow> i \<notin> rs_ID ` set srvs"
  by (induction srvs) (auto split: if_splits)

lemma carry_carried: "carried c srvs (carry c srvs)"
proof (cases "(c, srvs)" rule: carry.cases)
  case (2 i addr x y srvs')
  let ?sf = "case List.find (\<lambda>r. rs_ID r = i) srvs of Some r \<Rightarrow> rs_Suffrage r | None \<Rightarrow> raft_Nonvoter"
  have "if i \<in> rs_ID ` set srvs then \<exists>r' \<in> set srvs. rs_ID r' = i \<and> ?sf = rs_Suffrage r'
      else ?sf = raft_Nonvoter"
    using find_id [of i srvs] by (cases "List.find (\<lambda>r. rs_ID r = i) srvs") force+
  then have "carried (CAddNonvoter i addr x y) srvs (carry (CAddNonvoter i addr x y) srvs)"
    unfolding carried.simps
    by (intro exI [of _ "\<lparr>rs_Suffrage = ?sf, rs_ID = i, rs_Address = addr\<rparr>"]) (simp add: others_def)
  with 2 show ?thesis by simp
qed (auto simp: others_def is_voter_def)

definition tracking :: "raft_Server list \<Rightarrow> Autopilot \<Rightarrow> Autopilot" where
  "tracking srvs a = a\<lparr>ap_raft := (sample_raft srvs)\<lparr>r_GetConfiguration :=
     (\<lambda>h. \<lparr>cf_Error = None, cf_Configuration = \<lparr>rc_Servers = fold carry h srvs\<rparr>\<rparr>)\<rparr>\<rparr>"

lemma tracking_simps [simp]:
  "conf_ok (tracking srvs a) h" "conf_of (tracking srvs a) h = fold carry h srvs"
  "raft_error (tracking srvs a) h c = None"
  "ap_promoter (tracking srvs a) = ap_promoter a"
  by (simp_all add: tracking_def) (cases c; simp add: sample_raft_def)

lemma tracking_keeps: "raft_keeps (tracking srvs a) (\<lambda>h. fold carry h srvs)"
  by (simp add: raft_keeps_def carry_carried)

theorem RemoveServer_configuration_witness:
  "\<exists>h'. RemoveServer (tracking sample_srvs sample_ap) ''b'' [] = (None, h') \<and>
     set (fold carry h' sample_srvs) = others ''b'' sample_srvs"
proof -
  have "RemoveServer (tracking sample_srvs sample_ap) ''b'' [] = (None, [CGetConfiguration, rm_call ''b''])"
    by (simp add: RemoveServer_iff_member) (simp add: tracking_def sample_raft_def sample_srvs_def)
  with RemoveServer_configuration [OF tracking_keeps _ this] show ?thesis by auto
qed

theorem AddServer_configuration_witness:
  "\<exists>a' h' r. AddServer (tracking sample_srvs sample_ap) (sample_server ''n'' ''y'' NodeAlive) [] = ((None, a'), h') \<and>
     rs_Suffrage r = raft_Nonvoter \<and>
     set (fold carry h' sample_srvs) = {r, sample_srvs ! 0, sample_srvs ! 2}"
proof -
  let ?a = "tracking sample_srvs sample_ap" and ?s = "sample_server ''n'' ''y'' NodeAlive"
  obtain a' h' where add: "AddServer ?a ?s [] = ((None, a'), h')"
    by (simp add: AddServer_def getRaftConfiguration_cases AddServer_scan_eq scan_result_def
        add_scan_zero_def sample_add_defs requiredQuorum_eq)
      (simp add: tracking_def sample_raft_def)
  have "distinct (map rs_ID (fold carry [] sample_srvs))" by (simp add: sample_srvs_def)
  from AddServer_configuration [OF tracking_keeps _ this add] obtain r where
    "set (fold carry h' sample_srvs) = added_to ?s sample_srvs r" "rs_Suffrage r = raft_Nonvoter"
    by (auto simp: sample_add_defs)
  moreover have "added_to ?s sample_srvs r = {r, sample_srvs ! 0, sample_srvs ! 2}"
    by (auto simp: added_to_def sample_add_defs)
  ultimately show ?thesis using add by blast
qed

abbreviation sample_pair :: "raft_Server list" where
  "sample_pair \<equiv> [\<lparr>rs_Suffrage = raft_Voter, rs_ID = ''a'', rs_Address = ''x''\<rparr>,
     \<lparr>rs_Suffrage = raft_Nonvoter, rs_ID = ''b'', rs_Address = ''y''\<rparr>]"

theorem stable_round_configuration_witness:
  "\<exists>h' r. reconcile (tracking sample_pair sample_stable) [] = (None, h') \<and>
     r \<in> set (fold carry h' sample_pair) \<and> rs_ID r = ''b'' \<and> rs_Suffrage r \<in> {raft_Voter, raft_Staging}"
proof -
  let ?a = "tracking sample_pair sample_stable" and ?b = "sample_ss ''b'' ''y'' RaftNonVoter True 900"
  have act: "active_round ?a [] sample_conf sample_quorum"
    by (simp add: tracking_def sample_stable_def sample_round_defs)
  have pro: "ap_promoter ?a = StablePromoter rev (\<lambda>_. 500) (\<lambda>_. 500)" by (simp add: sample_stable_def)
  have wf: "gomap_wf (st_Servers sample_quorum)" by (simp add: sample_quorum_def)
  have keyed: "keyed_state sample_quorum"
    by (auto simp: keyed_state_def sample_quorum_def sample_ss_def sample_server_def split: if_splits)
  obtain h' where rec: "reconcile ?a [] = (None, h')"
    using stable_round_succeeds [OF act pro] by (metis prod.collapse tracking_simps(3))
  have b: "map_of (st_Servers sample_quorum) ''b'' = Some ?b" by (simp add: sample_quorum_def)
  have "ready_voter 500 500 sample_conf sample_quorum ?b"
    by (simp add: ready_voter_def sample_quorum_def sample_ss_def sample_conf_def zero_State_def)
  with b conjunct1 [OF stable_round_configuration [OF tracking_keeps act pro go_range_rev wf keyed sample_cluster_wf(2) rec]]
  obtain r where r: "r \<in> set (fold carry h' sample_pair)" "same_server (ss_Server ?b) r"
    "rs_Suffrage r \<in> {raft_Voter, raft_Staging}" by blast
  have "rs_ID r = ''b''" using r(2) by (simp add: same_server_def sample_ss_def sample_server_def)
  with rec r(1,3) show ?thesis by (intro exI conjI)
qed

lemma carry_frames: "r \<in> set srvs \<Longrightarrow> \<not> affects c r \<Longrightarrow> r \<in> set (carry c srvs)"
  by (cases "(c, srvs)" rule: carry.cases) auto

lemma tracking_frames: "raft_frames (tracking srvs a) (\<lambda>h. fold carry h srvs)"
  by (simp add: raft_frames_def carry_frames)

theorem prune_keeps_cluster_witness:
  "\<exists>h'. h' = snd (pruneDeadServers rev (tracking sample_raft_servers sample_prune) []) \<and>
     ''a'' \<in> rs_ID ` set (fold carry h' sample_raft_servers) \<and>
     (''b'' \<in> rs_ID ` set (fold carry h' sample_raft_servers) \<or> 3 \<le> card (set (fold carry h' sample_raft_servers)))"
proof -
  let ?a = "tracking sample_raft_servers sample_prune"
  let ?c = "\<lambda>h. fold carry h sample_raft_servers"
  let ?s = "set (?c (snd (pruneDeadServers rev ?a [])))"
  let ?pot = "potential_members stable_IsPotentialVoter (known_at ?a []) (?c ([] @ [CAutopilotConfig]))"
  have "fst (getFailedServers rev ?a ([] @ [CAutopilotConfig])) = Inr (sample_failed, sample_eligibility)"
    by (simp add: tracking_def getFailedServers_def getRaftConfiguration_def sample_prune_defs newVoterRegistry_def
        stable_IsPotentialVoter_def setPotentialVoter_def sort_failed_def sort_pure_def zero_FailedServers_def
        sample_failed_def sample_eligibility_def)
  then have act: "active_prune rev ?a [] sample_conf sample_failed sample_eligibility"
    by (simp add: active_prune_def tracking_def) (simp add: sample_prune_defs ReconciliationEnabled_def sample_conf_def)
  have q: "min_quorum ?a 3" using sample_configured(1) by (simp add: min_quorum_def tracking_def)
  have keyed: "keyed_by_id (known_at ?a [])" by (simp add: keyed_by_id_def tracking_def sample_prune_defs)
  have pro: "ap_promoter ?a = StablePromoter rev (\<lambda>_. 0) (\<lambda>_. 0)" by (simp add: sample_prune_def)
  have ids: "distinct (map rs_ID (?c ([] @ [CAutopilotConfig])))" by (simp add: sample_raft_servers_def)
  have settled: "\<forall>r \<in> set (?c ([] @ [CAutopilotConfig])). \<not> asked_to_leave [] r"
    by (simp add: asked_to_leave_def)
  note keeps = prune_keeps_cluster [OF tracking_frames act go_range_rev q keyed pro ids settled]
  have a: "\<lparr>rs_Suffrage = raft_Voter, rs_ID = ''a'', rs_Address = ''x''\<rparr> \<in>
      alive_members (known_at ?a []) (?c ([] @ [CAutopilotConfig]))"
    by (simp add: alive_members_def tracking_def sample_prune_defs)
  have b: "\<lparr>rs_Suffrage = raft_Voter, rs_ID = ''b'', rs_Address = ''y''\<rparr> \<in> ?pot"
    by (simp add: potential_members_def stable_IsPotentialVoter_def tracking_def sample_prune_defs)
  have "''b'' \<in> rs_ID ` ?s \<or> 3 \<le> card ?s"
    using conjunct2 [OF keeps]
  proof
    assume "?pot \<subseteq> ?s"
    with b show ?thesis by force
  next
    assume "3 \<le> card (?pot \<inter> ?s)"
    moreover have "card (?pot \<inter> ?s) \<le> card ?s" by (rule card_mono) auto
    ultimately show ?thesis by linarith
  qed
  moreover have "''a'' \<in> rs_ID ` ?s" using subsetD [OF conjunct1 [OF keeps] a] by force
  ultimately show ?thesis by blast
qed

end
