(* ===== verification/Spec2Isabelle.thy ===== *)
theory Spec2Isabelle
  imports AP_RunFair AP_Cluster
begin

text \<open>
  A verification of raft-autopilot: the Go package that watches a raft cluster, promotes and
  demotes servers, transfers leadership, and removes dead servers.

  \<^bold>\<open>The program.\<close> An \<open>Autopilot\<close> (autopilot.go) is built by \<open>New\<close> from a raft library handle, an
  application delegate and a promoter. \<open>Start\<close> (run.go) launches an execution of two goroutines:
  one calls \<open>updateState\<close> (state.go) on a ticker, which gathers inputs from the delegate and from
  raft, builds the next \<open>State\<close> and stores it; the other calls \<open>reconcile\<close> and \<open>pruneDeadServers\<close>
  (reconcile.go) on its own ticker, or prunes alone when \<open>RemoveDeadServers\<close> has put a token into
  a channel. Both act on raft through the wrappers of raft.go. \<open>leaderLock\<close> (mutex.go) lets one
  execution at a time do this work.

  \<^bold>\<open>Theories.\<close> Definitions carry the names of the code; record fields and methods that would
  clash have a short prefix (\<open>st_Leader\<close> is \<open>Leader\<close> of \<open>State\<close>).
  \<^item> AP_Prelude, AP_GoStd, AP_Sort: what the code uses of Go and its standard library. Maps are
    association lists with different keys, the type \<open>gomap\<close>; the order in which a loop over a map
    visits them is a parameter \<open>rng\<close> that is any permutation (\<open>go_range\<close>). Panics are a value
    (\<open>NilDeref\<close>). \<open>uint64\<close> is a 64 bit word, \<open>time.Time\<close> an integer count of nanoseconds since the
    zero time, and \<open>Time.Sub\<close> clamps as it does in Go. \<open>strconv.ParseUint\<close> and the insertion sort
    of \<open>sort.Slice\<close> are modelled as code.
  \<^item> AP_Types, AP_Registry: types.go.
  \<^item> AP_Env: the interfaces of types.go, and the struct, constructor, options and accessors of
    autopilot.go.
  \<^item> AP_Raft: raft.go.
  \<^item> AP_Order: \<open>ServerLessThan\<close> and \<open>SortServers\<close> of state.go.
  \<^item> AP_Build: \<open>buildServerState\<close>, \<open>nextServers\<close>, \<open>nextStateWithInputs\<close> of state.go.
  \<^item> AP_Gather: \<open>gatherNextStateInputs\<close>, \<open>nextState\<close>, \<open>ComputeState\<close>, \<open>updateState\<close> of state.go.
  \<^item> AP_Stable: stable_promoter.go, and what clients may assume of a promoter.
  \<^item> AP_Reconcile: \<open>reconcile\<close>, \<open>applyPromotions\<close>, \<open>applyDemotions\<close> of reconcile.go.
  \<^item> AP_Cluster: what the changes of the membership mean for the configuration that raft holds.
  \<^item> AP_Failed, AP_Adjudicate, AP_Prune: \<open>getFailedServers\<close>, \<open>adjudicateRemoval\<close>, \<open>pruneDeadServers\<close> and
    the removals of reconcile.go.
  \<^item> AP_Run: run.go, mutex.go and \<open>execInfo\<close>, as a transition system: the relation \<open>step\<close>, with one
    action for each thing that a goroutine or a client does, and the states that are \<open>reachable\<close>
    from an Autopilot; the properties ask of it no more than that it has a state (\<open>has_state\<close>), as
    every one that \<open>New\<close> builds.
  \<^item> AP_RunInv: its invariants (\<open>ctl_inv\<close>), when a step can panic, and which states are kept.
  \<^item> AP_RunSafe: what is always true of the running system, and two schedules.
  \<^item> AP_Fair: infinite runs of any transition system and strong fairness.
  \<^item> AP_RunLive, AP_RunFair: deadlock, termination, and what happens eventually.
  \<^item> Spec2Isabelle (this file): properties that span gathering, building and reconciling.

  \<^bold>\<open>The outside world.\<close> Raft, the delegate, the promoter, the clock and contexts are parameters:
  records of functions of the history of all calls made so far, so that two calls of one method
  may answer differently. Every operation takes the history and returns it with its own calls
  appended (locale \<open>logged\<close>); \<open>calls\<close> is the part it added. A property about what an operation
  does to the cluster is a property of that list. A future of raft is the result of waiting for
  it. What a theorem assumes of these parameters is in its hypotheses, for example that the
  application keys its servers by their id (\<open>keyed_by_id\<close>), that a context keeps its error
  (\<open>sticky_context\<close>), that raft carries out what it answers without an error (\<open>raft_keeps\<close>), or
  that no call changes another server's entry than the one it names (\<open>raft_frames\<close>).

  \<^bold>\<open>Interfaces.\<close> \<open>logged\<close> (AP_Env) is interpreted on the operations of each component;
  \<open>less_order\<close> and \<open>total_less\<close> (AP_Sort) say what a comparator needs for a deterministic sort,
  and are interpreted on the order behind \<open>ServerLessThan\<close>, on ids and on servers by id;
  \<open>promote_only\<close>, \<open>honest_filter\<close> and \<open>conservative_promoter\<close> (AP_Stable) are contracts of
  promoters, interpreted on \<open>StablePromoter\<close>; \<open>ranked\<close> (AP_Fair) is a rank that no step of a
  system raises, interpreted on \<open>step\<close> for an execution that is to end and for a call of \<open>Start\<close>.

  \<^bold>\<open>What is shown.\<close>
  \<^item> Data: when a server counts as healthy (C26), and that a huge \<open>MaxTrailingLogs\<close> makes the test
    wrap around (\<open>isHealthy_overflow\<close>).
  \<^item> raft.go: \<open>AddServer\<close> keeps the quorum and does exactly the removals and the addition it should
    (C1, C32); the term is read back from the statistics (C37).
  \<^item> State building: contents, leader, voters, failure tolerance, precedence of the sources,
    independence of the enumeration of maps, the sort order (C5, C6, C28, C29, C30, \<open>buildServerState_fields\<close>), and
    that \<open>StableSince\<close> is never renewed for a server already tracked (C25).
  \<^item> State updates: order of the calls, contents of the inputs, all or nothing, the first-state
    time (C19, C20, C22, C23), absence of panics (\<open>updateState_no_panic\<close>).
  \<^item> Reconciliation: the calls of a round are an initial part of an explicit plan, what a round
    never mixes, whom it touches, the default promoter, a demotion that is asked for twice (C3,
    C10, C15, C16, C33, \<open>stable_promotions\<close>).
  \<^item> The cluster itself, if raft carries out what it accepts: the configuration after a successful
    \<open>AddServer\<close> (C39) or \<open>RemoveServer\<close> (\<open>RemoveServer_configuration\<close>) and after a successful
    round of the default promoter (C21). If calls affect only the servers they name: what pruning
    leaves in the cluster, however it ends (C31).
  \<^item> Gathering, building, promoting and reconciling together: what justifies a promotion (C7), and
    that a healthy server is promoted (C40).
  \<^item> Pruning: classification, the MinQuorum bound over a whole run and in one adjudication, whom
    it touches, panics, independence of enumeration (C2, C8, C9, C17, C36,
    \<open>getFailedServers_order\<close>, \<open>prune_no_panic\<close>, \<open>adjudicate_uncapped\<close>).
  \<^item> Executions: mutual exclusion, no lost update, consistency, what \<open>IsRunning\<close> reports, reset of
    the state, refinement of the life cycle of an execution (C4, C11, C14, C34, C35, C38); no
    deadlock, termination of winding down, and under fair scheduling the return of every \<open>Start\<close> and
    the end of every execution that is stopped, unless the process ends in a panic (C12, C13, C24).
  \<^item> The system as a whole, from \<open>New\<close> on, with all components together: every state that a client
    can observe is well-formed (C27), where panics can begin (C11), and that under documented
    behaviour of the application and the promoter there is none (C18).

  \<^bold>\<open>Bounds.\<close> There is no fuel: every loop of the code runs over a list or a map, and its model is
  structural recursion. The one loop without an end, that of the goroutines, is the step
  relation; the measure \<open>work\<close> shows that the steps by which the routines wind down are finitely
  many, and an execution that is stopped ends in every run that is fair to these steps and does not panic (Go's
  scheduler, its mutexes and the random choice of \<open>select\<close> are). Counters and \<open>int\<close> values are unbounded integers; they count servers, far below 2^63.
  \<open>MinQuorum\<close> is converted from 64 bits with the wrap-around (\<open>int_of_uint\<close>).

  \<^bold>\<open>Not modelled.\<close> Logging, the option \<open>WithLogger\<close>, and the texts of error messages; \<open>nil\<close>
  pointers inside the maps and lists that delegate and promoter hand over; a delegate or promoter
  that changes the values it was passed, which the documentation forbids, or that calls back into
  Autopilot; the periods of the two tickers (a step of the loop may happen at any time); the
  memory model of Go beyond what the locks order (the one read of \<open>a.state\<close> without its lock is
  the argument \<open>reread\<close>; within the transition system it finds the state that \<open>GetState\<close> found).
  \<open>reconcile\<close>, \<open>pruneDeadServers\<close> and the computation of a state are one step each, as they read
  the fields of Autopilot only at their beginning; \<open>NumVoters\<close>, \<open>RemoveServer\<close> and \<open>ComputeState\<close>
  change none of them and have no action. A panic of an execution's main goroutine lets it go through its
  deferred cleanup first, which waits for the child while everything else goes on, and then ends
  the process; a panic anywhere else ends it in the same step, so that the deferred calls of the
  child and of \<open>Start\<close> on the way out of a panic are not steps of their own. No step follows the
  end of the process. When panics occur is C11, C18, C36, \<open>updateState_no_panic\<close> and
  \<open>prune_no_panic\<close>. Interface values for raft, the delegate and the time provider that are nil (one
  can be handed to \<open>New\<close> and to \<open>WithTimeProvider\<close>), which panic when they are first used, have no
  counterpart; a nil promoter is replaced by the default one, as in the code. \<open>sort.Slice\<close> is
  modelled by its insertion sort for slices of every length, although it uses other algorithms
  above twelve elements; nothing but the sortedness of the result is used, which determines it,
  as the comparators are strict total orders on servers with different ids. The
  mocks (mock_*.go) are generated, and the test files are not part of the program.
\<close>

section \<open>From the gathered inputs to a promotion\<close>

lemma built_server:
  fixes inputs r
  defines "b \<equiv> buildServerState inputs r"
  assumes "core v = core b" "sh_Healthy (ss_Health v)"
  shows "ss_State v = (if rs_ID r = in_LeaderID inputs then RaftLeader else suffrage_state (rs_Suffrage r)) \<and>
    srv_Address (ss_Server v) = rs_Address r \<and>
    (\<exists>known. map_of (in_KnownServers inputs) (rs_ID r) = Some known \<and>
      srv_NodeStatus known = NodeAlive \<and> srv_ID (ss_Server v) = srv_ID known) \<and>
    stat_LastTerm (stats_of inputs (rs_ID r)) = fst (leader_position inputs)"
proof -
  note c = core_fields [OF assms(2)]
  note fields = build_fields [of inputs r, folded b_def]
  have ids: "map_of (in_KnownServers inputs) (rs_ID r) = Some known \<Longrightarrow> srv_ID (ss_Server b) = srv_ID known" for known
    unfolding b_def by (simp add: build_defs split: option.split prod.split)
  have "isHealthy b (fst (leader_position inputs)) (snd (leader_position inputs)) (in_Config inputs)"
    using fields assms(3) c(2) by simp
  then have "srv_NodeStatus (ss_Server b) = NodeAlive" "stat_LastTerm (ss_Stats b) = fst (leader_position inputs)"
    by (auto simp: isHealthy_def split: if_splits)
  then show ?thesis
    using c fields ids
    by (auto split: option.splits)
qed

text \<open>
  C7: a promotion is justified by what was gathered for the state it works from. When the state
  of a round is the one that the last update stored, then every server that the round asks raft
  to promote, whatever the promoter says, was at that time a server of the raft configuration
  without a vote and not the leader, is promoted at its address there, was known to the
  application and alive, and had the leader's last term.
\<close>

theorem promotion_justified:
  assumes "go_range rng" "fst (updateState rng ctx a reread h) = Inr a'" "a' \<noteq> a"
    and "\<forall>h. keyed_by_id (d_KnownServers (ap_delegate a) h)"
    and "CAddVoter i addr x y \<in> set (calls (reconcile a') h')"
  shows "\<exists>inputs r. fst (gatherNextStateInputs ctx a reread h) = Inr (Inr (Some inputs)) \<and>
    r \<in> set (rc_Servers (in_RaftConfig inputs)) \<and> rs_ID r = i \<and> rs_Address r = addr \<and>
    rs_Suffrage r \<noteq> raft_Voter \<and> i \<noteq> in_LeaderID inputs \<and>
    (\<exists>known. map_of (in_KnownServers inputs) i = Some known \<and> srv_NodeStatus known = NodeAlive) \<and>
    stat_LastTerm (stats_of inputs i) = fst (leader_position inputs)"
proof -
  obtain inputs h1 st h2 where g: "gatherNextStateInputs ctx a reread h = (Inr (Inr (Some inputs)), h1)"
    and n: "nextStateWithInputs rng a inputs h1 = (Inr st, h2)" and a': "a' = a\<lparr>ap_state := Some st\<rparr>"
    using assms(2,3) by (rule updateState_state)
  have known: "keyed_by_id (in_KnownServers inputs)"
    using gather_result [of ctx a reread h inputs] g assms(4) by simp
  obtain conf st' where act: "active_round a' h' conf st'"
    and t: "targets_ok st' (round_changes a' h' conf st') (CAddVoter i addr x y)"
    using reconcile_round_target [OF assms(5)] by auto
  have "st' = st" using act by (simp add: active_round_def GetState_def a')
  with t obtain j v where v: "map_of (st_Servers st) j = Some v" "\<not> HasVotingRights v"
    "sh_Healthy (ss_Health v)" "srv_ID (ss_Server v) = i" "srv_Address (ss_Server v) = addr"
    by (auto simp: targets_ok_def)
  obtain m h0 where m: "nextServers a inputs h1 = (m, h0)" by fastforce
  have "cores (st_Servers st) = cores m" using nextState_result [OF assms(1) m] n by auto
  then obtain w where w: "map_of m j = Some w" "core v = core w"
    using v(1) by (rule cores_lookup)
  then obtain r where r: "r \<in> set (rc_Servers (in_RaftConfig inputs))" "rs_ID r = j"
    "core v = core (buildServerState inputs r)"
    using nextServers_built(1) [OF m w(1)] by (auto simp: built_def)
  note b = built_server [OF r(3) v(3)]
  then obtain k where k: "map_of (in_KnownServers inputs) j = Some k" "srv_NodeStatus k = NodeAlive"
    "srv_ID (ss_Server v) = srv_ID k" using r(2) by blast
  have "srv_ID k = j" using known map_of_SomeD [OF k(1)] by (auto simp: keyed_by_id_def)
  then have "j = i" using k(3) v(4) by simp
  moreover have "rs_Suffrage r \<noteq> raft_Voter \<and> j \<noteq> in_LeaderID inputs"
    using b v(2) r(2) by (auto simp: HasVotingRights_def split: if_splits)
  ultimately show ?thesis
    using g r(1,2) b v(5) k(1,2) by (intro exI [of _ inputs] exI [of _ r]) auto
qed

text \<open>
  C40: a healthy server is promoted. With the default promoter, take a raft non-voter of a cluster
  with a leader that the gathered inputs show as healthy, and whose time stamp \<open>StableSince\<close> is as
  old as the stabilization time in force. After the update made from these inputs, a round of reconciliation
  that reports success has asked raft to make this server a voter at its address.
\<close>

theorem healthy_server_promoted:
  assumes rng: "go_range rng" "go_range rng'" "ap_promoter a = StablePromoter rng' wall since"
    and gathered: "fst (gatherNextStateInputs ctx a reread h) = Inr (Inr (Some inputs))"
    and updated: "fst (updateState rng ctx a reread h) = Inr a'"
    and keyed: "keyed_by_id (in_KnownServers inputs)" "distinct (map rs_ID (rc_Servers (in_RaftConfig inputs)))"
    and server: "r \<in> set (rc_Servers (in_RaftConfig inputs))" "rs_Suffrage r = raft_Nonvoter"
    and leader: "in_LeaderID inputs \<in> rs_ID ` set (rc_Servers (in_RaftConfig inputs))"
      "in_LeaderID inputs \<noteq> []" "rs_ID r \<noteq> in_LeaderID inputs"
    and healthy: "sh_Healthy (ss_Health (buildServerState inputs r))"
    and conf: "ReconciliationEnabled a" "d_AutopilotConfig (ap_delegate a) h' = Some conf"
      "representable_stabilization conf"
    and stable: "(if cfg_ServerStabilizationTime conf < since (h' @ [CAutopilotConfig]) - in_FirstStateTime inputs
        then cfg_ServerStabilizationTime conf else 0)
      \<le> wall (h' @ [CAutopilotConfig]) - sh_StableSince (ss_Health (buildServerState inputs r))"
    and success: "fst (reconcile a' h') = None"
  shows "CAddVoter (rs_ID r) (rs_Address r) 0 0 \<in> set (calls (reconcile a') h')"
proof -
  obtain h1 where g: "gatherNextStateInputs ctx a reread h = (Inr (Inr (Some inputs)), h1)"
    using gathered by (metis fst_conv surj_pair)
  obtain m h2 where m: "nextServers a inputs h1 = (m, h2)" by fastforce
  obtain st cs where st: "nextStateWithInputs rng a inputs h1 = (Inr st, h2 @ cs)"
    "cores (st_Servers st) = cores m" "st_firstStateTime st = in_FirstStateTime inputs"
    "st_Leader st = (if in_LeaderID inputs \<in> fst ` set m then in_LeaderID inputs else [])"
    using nextState_result [OF rng(1) m] by blast
  have a': "a' = a\<lparr>ap_state := Some st\<rparr>"
    using updated g st(1) by (simp add: updateState_def nextState_def)
  have act: "active_round a' h' conf st"
    using conf(1,2) st(4) leader(1,2) nextServers_built(3) [OF m]
    by (simp add: a' active_round_def GetState_def ReconciliationEnabled_def)
  have wf: "gomap_wf (st_Servers st)"
    using arg_cong [OF st(2), of keys] nextServers_built(2) [OF m] by simp
  obtain w where w: "map_of m (rs_ID r) = Some w"
    using server(1) nextServers_built(3) [OF m] by (fastforce simp: in_keys_iff)
  then have "core w = core (buildServerState inputs r)"
    using nextServers_built(1) [OF m w] server(1) keyed(2) by (auto simp: built_def distinct_map inj_on_def)
  with w obtain v where v: "map_of (st_Servers st) (rs_ID r) = Some v" "core v = core (buildServerState inputs r)"
    using cores_lookup [OF st(2) [symmetric]] by metis
  have hv: "sh_Healthy (ss_Health v)" using healthy core_health [OF v(2)] by simp
  note b = built_server [OF v(2) hv]
  obtain k where k: "map_of (in_KnownServers inputs) (rs_ID r) = Some k" "srv_ID (ss_Server v) = srv_ID k"
    using b by blast
  have "srv_ID k = rs_ID r" using keyed(1) map_of_SomeD [OF k(1)] by (auto simp: keyed_by_id_def)
  then have call: "promote_call v = CAddVoter (rs_ID r) (rs_Address r) 0 0" using b k(2) by simp
  have "ready_voter (wall (h' @ [CAutopilotConfig])) (since (h' @ [CAutopilotConfig])) conf st v"
    using b server(2) leader(3) hv stable st(3) core_fields(2) [OF v(2)] by (simp add: ready_voter_def)
  with stable_round_calls(2) [OF act _ rng(2) wf conf(3) success v(1)] call rng(3) show ?thesis
    by (simp add: a')
qed

definition sample_pair :: "raft_Server list" where
  "sample_pair = [\<lparr>rs_Suffrage = raft_Voter, rs_ID = ''a'', rs_Address = ''x''\<rparr>,
     \<lparr>rs_Suffrage = raft_Nonvoter, rs_ID = ''b'', rs_Address = ''y''\<rparr>]"

definition sample_pair_known :: "(ServerID, Server) gomap" where
  "sample_pair_known = [(''a'', sample_server ''a'' ''x'' NodeAlive), (''b'', sample_server ''b'' ''y'' NodeAlive)]"

definition sample_growing :: Autopilot where
  "sample_growing =
     (sample_autopilot sample_pair sample_pair_known (no_changes\<lparr>ch_Promotions := [''b'']\<rparr>))
       \<lparr>ap_delegate := (sample_delegate sample_conf sample_pair_known)
          \<lparr>d_FetchServerStats := (\<lambda>_ _ _. [(''a'', sample_stats), (''b'', sample_stats)])\<rparr>\<rparr>"

definition sample_pair_inputs :: nextStateInputs where
  "sample_pair_inputs = \<lparr>in_Now = 100, in_FirstStateTime = 100, in_Config = sample_conf,
     in_RaftConfig = \<lparr>rc_Servers = sample_pair\<rparr>, in_KnownServers = sample_pair_known,
     in_LatestIndex = 1000, in_LastTerm = 3,
     in_FetchedStats = [(''a'', sample_stats), (''b'', sample_stats)], in_LeaderID = ''a'',
     in_IsLeader = True, in_CurrentState = Some zero_State\<rparr>"

lemmas sample_growing_defs = sample_growing_def sample_env_defs sample_pair_def sample_pair_known_def
  sample_stats_def sample_server_def

lemma sample_growing_gathers:
  "\<exists>h1. gatherNextStateInputs (\<lambda>_. None) sample_growing (Some zero_State) [] =
     (Inr (Inr (Some sample_pair_inputs)), h1)"
  by (simp add: gatherNextStateInputs_def gather_fetch_def getRaftConfiguration_def find_leader_def
      lastTerm_def first_state_time_def GetState_def ParseUint_def is_digit_def digit_val_def cutoff_def
      sample_pair_inputs_def sample_growing_defs zero_State_def time_IsZero_def)

lemma sample_growing_state:
  "\<exists>st h2. nextStateWithInputs (\<lambda>m. m) sample_growing sample_pair_inputs h = (Inr st, h2) \<and>
     st_Leader st = ''a'' \<and> st_Voters st = [''a''] \<and>
     (\<exists>v. map_of (st_Servers st) ''b'' = Some v \<and> ss_State v = RaftNonVoter \<and>
       sh_Healthy (ss_Health v) \<and> srv_ID (ss_Server v) = ''b'' \<and> srv_Address (ss_Server v) = ''y'')"
  by (simp add: nextStateWithInputs_def nextServers_def sample_pair_inputs_def build_defs
      getCurrentServerState_def leader_position_def isHealthy_def sample_growing_defs sample_conf_def
      requiredQuorum_def SortServers_def sort_slice_def zero_State_def)

lemma sample_growing_update:
  "\<exists>a'. fst (updateState (\<lambda>m. m) (\<lambda>_. None) sample_growing (Some zero_State) []) = Inr a' \<and>
     a' \<noteq> sample_growing \<and> CAddVoter ''b'' ''y'' 0 0 \<in> set (calls (reconcile a') [])"
proof -
  obtain h1 where g: "gatherNextStateInputs (\<lambda>_. None) sample_growing (Some zero_State) [] =
      (Inr (Inr (Some sample_pair_inputs)), h1)"
    using sample_growing_gathers by blast
  obtain st h2 v where n: "nextStateWithInputs (\<lambda>m. m) sample_growing sample_pair_inputs h1 = (Inr st, h2)"
    and st: "st_Leader st = ''a''" "st_Voters st = [''a'']" "map_of (st_Servers st) ''b'' = Some v"
      "ss_State v = RaftNonVoter" "sh_Healthy (ss_Health v)" "srv_ID (ss_Server v) = ''b''"
      "srv_Address (ss_Server v) = ''y''"
    using sample_growing_state [of h1] by blast
  let ?a = "sample_growing\<lparr>ap_state := Some st\<rparr>"
  have "fst (updateState (\<lambda>m. m) (\<lambda>_. None) sample_growing (Some zero_State) []) = Inr ?a"
    using g n by (simp add: updateState_def nextState_def)
  moreover have "?a \<noteq> sample_growing"
  proof
    assume "?a = sample_growing"
    then have "ap_state ?a = ap_state sample_growing" by simp
    then have "st = zero_State" by (simp add: sample_growing_defs)
    with st(1) show False by (simp add: zero_State_def)
  qed
  moreover have "CAddVoter ''b'' ''y'' 0 0 \<in> set (calls (reconcile ?a) [])"
    using st by (simp add: calls_def reconcile_def ReconciliationEnabled_def GetState_def
        demote_failed_first_def applyDemotions_def apply_changes_def applyPromotions_def
        HasVotingRights_def sample_growing_defs)
  ultimately show ?thesis by blast
qed

theorem promotion_justified_witness:
  "\<exists>inputs r. fst (gatherNextStateInputs (\<lambda>_. None) sample_growing (Some zero_State) []) =
      Inr (Inr (Some inputs)) \<and> r \<in> set (rc_Servers (in_RaftConfig inputs)) \<and> rs_ID r = ''b'' \<and>
    rs_Suffrage r \<noteq> raft_Voter"
proof -
  obtain a' where a': "fst (updateState (\<lambda>m. m) (\<lambda>_. None) sample_growing (Some zero_State) []) = Inr a'"
    "a' \<noteq> sample_growing" "CAddVoter ''b'' ''y'' 0 0 \<in> set (calls (reconcile a') [])"
    using sample_growing_update by blast
  have "\<forall>h. keyed_by_id (d_KnownServers (ap_delegate sample_growing) h)"
    by (simp add: keyed_by_id_def sample_growing_defs)
  from promotion_justified [OF go_range_id a'(1,2) this a'(3)] show ?thesis by blast
qed

definition sample_stable_growing :: Autopilot where
  "sample_stable_growing = sample_growing\<lparr>ap_promoter := StablePromoter rev (\<lambda>_. 200) (\<lambda>_. 200)\<rparr>"

lemma sample_stable_growing_round:
  assumes "fst (updateState (\<lambda>m. m) (\<lambda>_. None) sample_stable_growing (Some zero_State) []) = Inr a'"
    and "gatherNextStateInputs (\<lambda>_. None) sample_stable_growing (Some zero_State) [] =
      (Inr (Inr (Some sample_pair_inputs)), h1)"
  shows "fst (reconcile a' []) = None"
proof -
  obtain m h2 where m: "nextServers sample_stable_growing sample_pair_inputs h1 = (m, h2)" by fastforce
  obtain st cs where st: "nextStateWithInputs (\<lambda>m. m) sample_stable_growing sample_pair_inputs h1 = (Inr st, h2 @ cs)"
    "st_Leader st = (if ''a'' \<in> fst ` set m then ''a'' else [])"
    using nextState_result [OF go_range_id m] by (auto simp: sample_pair_inputs_def)
  have a': "a' = sample_stable_growing\<lparr>ap_state := Some st\<rparr>"
    using assms st(1) by (simp add: updateState_def nextState_def)
  have "st_Leader st = ''a''"
    using st(2) nextServers_built(3) [OF m] by (simp add: sample_pair_inputs_def sample_pair_def)
  then have "active_round a' [] sample_conf st"
    by (simp add: a' active_round_def GetState_def ReconciliationEnabled_def sample_stable_growing_def
        sample_growing_defs)
  moreover have "ap_promoter a' = StablePromoter rev (\<lambda>_. 200) (\<lambda>_. 200)"
    by (simp add: a' sample_stable_growing_def)
  moreover have "raft_error a' h c = None" for h c
    by (cases c) (simp_all add: a' sample_stable_growing_def sample_growing_defs)
  ultimately show ?thesis by (rule stable_round_succeeds)
qed

theorem healthy_server_promoted_witness:
  "\<exists>a'. fst (updateState (\<lambda>m. m) (\<lambda>_. None) sample_stable_growing (Some zero_State) []) = Inr a' \<and>
     CAddVoter ''b'' ''y'' 0 0 \<in> set (calls (reconcile a') [])"
proof -
  let ?a = sample_stable_growing
  let ?r = "\<lparr>rs_Suffrage = raft_Nonvoter, rs_ID = ''b'', rs_Address = ''y''\<rparr>"
  obtain h1 where g: "gatherNextStateInputs (\<lambda>_. None) ?a (Some zero_State) [] =
      (Inr (Inr (Some sample_pair_inputs)), h1)"
    by (simp add: gatherNextStateInputs_def gather_fetch_def getRaftConfiguration_def find_leader_def
        lastTerm_def first_state_time_def GetState_def ParseUint_def is_digit_def digit_val_def cutoff_def
        sample_pair_inputs_def sample_stable_growing_def sample_growing_defs zero_State_def time_IsZero_def)
  obtain m h2 where m: "nextServers ?a sample_pair_inputs h1 = (m, h2)" by fastforce
  obtain a' where u: "fst (updateState (\<lambda>m. m) (\<lambda>_. None) ?a (Some zero_State) []) = Inr a'"
    using nextState_result [OF go_range_id m] g by (fastforce simp: updateState_def nextState_def)
  have b: "sh_Healthy (ss_Health (buildServerState sample_pair_inputs ?r))"
    "sh_StableSince (ss_Health (buildServerState sample_pair_inputs ?r)) = 100"
    by (simp_all add: build_defs getCurrentServerState_def leader_position_def isHealthy_def
        sample_pair_inputs_def sample_growing_defs sample_conf_def zero_State_def)
  have "CAddVoter (rs_ID ?r) (rs_Address ?r) 0 0 \<in> set (calls (reconcile a') [])"
  proof (rule healthy_server_promoted)
    show "fst (gatherNextStateInputs (\<lambda>_. None) ?a (Some zero_State) []) = Inr (Inr (Some sample_pair_inputs))"
      using g by simp
    show "fst (updateState (\<lambda>m. m) (\<lambda>_. None) ?a (Some zero_State) []) = Inr a'" by (rule u)
    show "fst (reconcile a' []) = None" by (rule sample_stable_growing_round [OF u g])
    show "d_AutopilotConfig (ap_delegate ?a) [] = Some sample_conf" "ReconciliationEnabled ?a"
      by (simp_all add: sample_stable_growing_def sample_growing_defs ReconciliationEnabled_def)
    show "representable_stabilization sample_conf" by (rule sample_cluster_wf(2))
    show "keyed_by_id (in_KnownServers sample_pair_inputs)"
      by (simp add: keyed_by_id_def sample_pair_inputs_def sample_growing_defs)
    show "ap_promoter ?a = StablePromoter rev (\<lambda>_. 200) (\<lambda>_. 200)" by (simp add: sample_stable_growing_def)
    show "(if cfg_ServerStabilizationTime sample_conf < (\<lambda>_. 200) ([] @ [CAutopilotConfig]) - in_FirstStateTime sample_pair_inputs
        then cfg_ServerStabilizationTime sample_conf else 0)
      \<le> (\<lambda>_. 200) ([] @ [CAutopilotConfig]) - sh_StableSince (ss_Health (buildServerState sample_pair_inputs ?r))"
      by (simp add: b(2) sample_conf_def)
  qed (use b(1) in \<open>simp_all add: sample_pair_inputs_def sample_pair_def\<close>)
  with u show ?thesis by auto
qed

end
